(* ===== verification/Prelude.thy ===== *)
theory Prelude
  imports Main "HOL-Library.AList" "HOL-Library.While_Combinator" "HOL-Library.Multiset"
begin

text \<open>
  Shared vocabulary of the development: the exceptions a Python operation can raise and the
  sum type that carries them, insertion-ordered dictionaries as association lists, loops that
  may be left with an exception, and the generic lemmas on lists and loops that the component
  theories use through the collections \<open>res_simps\<close>, \<open>dict_simps\<close> and \<open>graph_simps\<close>.
\<close>

named_theorems res_simps \<open>rewriting of the exception monad\<close>
named_theorems dict_simps \<open>rewriting of insertion-ordered dictionaries\<close>
named_theorems graph_simps \<open>rewriting of dependency graphs and orderings\<close>


section \<open>Exceptions as values\<close>

text \<open>The exceptions the modelled code raises, by their Python names.\<close>

datatype py_error =
    KeyError
  | IndexError
  | ValueError
  | TypeError
  | AttributeError
  | AssertionError
  | NotImplementedError
  | RecursionError
  | ZeroDivisionError
  | FileNotFoundError
  | UnboundLocalError
  | TVMError
  | SystemExit int

type_synonym 'a res = "py_error + 'a"

definition and_then :: "'a res \<Rightarrow> ('a \<Rightarrow> 'b res) \<Rightarrow> 'b res" where
  "and_then m f = (case m of Inl e \<Rightarrow> Inl e | Inr x \<Rightarrow> f x)"

lemma and_then_simps [simp, res_simps]:
  "and_then (Inl e) f = Inl e"
  "and_then (Inr x) f = f x"
  by (simp_all add: and_then_def)

lemma and_then_eq_Inr [res_simps]:
  "and_then m f = Inr y \<longleftrightarrow> (\<exists>x. m = Inr x \<and> f x = Inr y)"
  by (cases m) auto

lemma and_then_eq_Inl [res_simps]:
  "and_then m f = Inl e \<longleftrightarrow> m = Inl e \<or> (\<exists>x. m = Inr x \<and> f x = Inl e)"
  by (cases m) auto

lemma and_then_assoc:
  "and_then (and_then m f) g = and_then m (\<lambda>x. and_then (f x) g)"
  by (cases m) auto

lemma and_then_cong [fundef_cong]:
  "m = m' \<Longrightarrow> (\<And>x. m' = Inr x \<Longrightarrow> f x = g x) \<Longrightarrow> and_then m f = and_then m' g"
  by (cases m') auto

text \<open>\<^verbatim>\<open>assert\<close>, and a \<^verbatim>\<open>for\<close> loop whose body may raise.\<close>

definition py_assert :: "bool \<Rightarrow> unit res" where
  "py_assert b = (if b then Inr () else Inl AssertionError)"

lemma py_assert_simps [simp, res_simps]:
  "py_assert True = Inr ()"
  "py_assert False = Inl AssertionError"
  "py_assert b = Inr u \<longleftrightarrow> b"
  by (auto simp: py_assert_def)

fun res_fold :: "('a \<Rightarrow> 's \<Rightarrow> 's res) \<Rightarrow> 'a list \<Rightarrow> 's \<Rightarrow> 's res" where
  "res_fold f [] s = Inr s"
| "res_fold f (x # xs) s = and_then (f x s) (res_fold f xs)"

lemma res_fold_append:
  "res_fold f (xs @ ys) s = and_then (res_fold f xs s) (res_fold f ys)"
proof (induction xs arbitrary: s)
  case (Cons x xs)
  then show ?case by (cases "f x s") auto
qed auto

lemma res_fold_product:
  "res_fold (\<lambda>x. res_fold (f x) ys) xs s = res_fold (\<lambda>(x, y). f x y) (List.product xs ys) s"
proof (induction xs arbitrary: s)
  case (Cons x xs)
  have "res_fold (\<lambda>(x, y). f x y) (map (Pair x) zs) s = res_fold (f x) zs s" for zs s
    by (induction zs arbitrary: s) (auto intro!: arg_cong2[of _ _ _ _ and_then])
  moreover have "res_fold (\<lambda>x. res_fold (f x) ys) xs = res_fold (\<lambda>(x, y). f x y) (List.product xs ys)"
    by (rule ext) (rule Cons.IH)
  ultimately show ?case by (simp add: res_fold_append)
qed simp

lemma res_fold_invariant:
  assumes "res_fold f xs s = Inr t" and "P s"
    and "\<And>x s s'. x \<in> set xs \<Longrightarrow> P s \<Longrightarrow> f x s = Inr s' \<Longrightarrow> P s'"
  shows "P t"
  using assms
proof (induction xs arbitrary: s)
  case (Cons x xs)
  then obtain s' where "f x s = Inr s'" and "res_fold f xs s' = Inr t"
    by (auto simp: and_then_eq_Inr)
  with Cons.prems Cons.IH[of s'] show ?case by (meson list.set_intros)
qed auto

lemma res_fold_cong [fundef_cong]:
  assumes "xs = ys" and "s = t" and "\<And>x s. x \<in> set ys \<Longrightarrow> f x s = g x s"
  shows "res_fold f xs s = res_fold g ys t"
  using assms
proof (induction ys arbitrary: xs s t)
  case (Cons y ys)
  then show ?case by (cases "g y t") auto
qed auto

text \<open>A list comprehension whose element expression may raise.\<close>

fun res_map :: "('a \<Rightarrow> 'b res) \<Rightarrow> 'a list \<Rightarrow> 'b list res" where
  "res_map f [] = Inr []"
| "res_map f (x # xs) = and_then (f x) (\<lambda>y. and_then (res_map f xs) (\<lambda>ys. Inr (y # ys)))"

lemma res_map_cong [fundef_cong]:
  "xs = ys \<Longrightarrow> (\<And>x. x \<in> set ys \<Longrightarrow> f x = g x) \<Longrightarrow> res_map f xs = res_map g ys"
  by (induction ys arbitrary: xs) auto

lemma res_map_eq_Inr:
  "res_map f xs = Inr ys \<longleftrightarrow> length ys = length xs \<and> (\<forall>i < length xs. f (xs ! i) = Inr (ys ! i))"
proof (induction xs arbitrary: ys)
  case (Cons x xs)
  show ?case
    by (cases ys) (auto simp: and_then_eq_Inr Cons.IH nth_Cons split: nat.splits)
qed auto

lemma res_map_returns: "(\<exists>ys. res_map f xs = Inr ys) \<longleftrightarrow> (\<forall>x \<in> set xs. \<exists>y. f x = Inr y)"
  by (induction xs) (auto simp: and_then_eq_Inr)

lemma res_map_raises: "res_map f xs = Inl e \<Longrightarrow> \<exists>x \<in> set xs. f x = Inl e"
  by (induction xs) (auto simp: and_then_eq_Inl)

lemma res_map_Inr: "(\<And>x. x \<in> set xs \<Longrightarrow> f x = Inr (g x)) \<Longrightarrow> res_map f xs = Inr (map g xs)"
  by (induction xs) auto


section \<open>Dictionaries in insertion order\<close>

text \<open>
  A Python \<^verbatim>\<open>dict\<close> iterates in insertion order, and assigning to a present key keeps its
  position: \<^const>\<open>AList.update\<close> on an association list does exactly that.
\<close>

type_synonym ('k, 'v) dict = "('k \<times> 'v) list"

abbreviation dict_keys :: "('k, 'v) dict \<Rightarrow> 'k list" where
  "dict_keys d \<equiv> map fst d"

definition dict_get :: "('k, 'v) dict \<Rightarrow> 'k \<Rightarrow> 'v res" where
  "dict_get d k = (case map_of d k of None \<Rightarrow> Inl KeyError | Some v \<Rightarrow> Inr v)"

definition dict_get_default :: "('k, 'v) dict \<Rightarrow> 'k \<Rightarrow> 'v \<Rightarrow> 'v" where
  "dict_get_default d k v0 = (case map_of d k of None \<Rightarrow> v0 | Some v \<Rightarrow> v)"

lemma dict_get_Inr [dict_simps]: "dict_get d k = Inr v \<longleftrightarrow> map_of d k = Some v"
  by (auto simp: dict_get_def split: option.splits)

lemma dict_get_Inl [dict_simps]: "dict_get d k = Inl e \<longleftrightarrow> k \<notin> set (dict_keys d) \<and> e = KeyError"
proof (cases "map_of d k")
  case None
  then have "k \<notin> set (dict_keys d)" by (simp add: map_of_eq_None_iff)
  with None show ?thesis by (auto simp: dict_get_def)
next
  case (Some v)
  then have "k \<in> set (dict_keys d)" by (force dest: map_of_SomeD)
  with Some show ?thesis by (auto simp: dict_get_def)
qed

lemma dict_key_Some: "k \<in> set (dict_keys d) \<Longrightarrow> \<exists>v. map_of d k = Some v"
  by (induction d) auto

lemma map_of_key: "map_of d k = Some v \<Longrightarrow> k \<in> set (dict_keys d)"
  by (induction d) (auto split: if_splits)

lemma dict_get_update [dict_simps]:
  "dict_get (AList.update k v d) k' = (if k' = k then Inr v else dict_get d k')"
  by (simp add: dict_get_def update_conv')

lemma dict_keys_update_same [dict_simps]:
  "k \<in> set (dict_keys d) \<Longrightarrow> dict_keys (AList.update k v d) = dict_keys d"
  by (induction d) auto

lemma dict_keys_update_new [dict_simps]:
  "k \<notin> set (dict_keys d) \<Longrightarrow> dict_keys (AList.update k v d) = dict_keys d @ [k]"
  by (induction d) auto

lemma update_new: "k \<notin> set (dict_keys d) \<Longrightarrow> AList.update k v d = d @ [(k, v)]"
  by (induction d) auto

lemma set_dict_keys_update [dict_simps]:
  "set (dict_keys (AList.update k v d)) = insert k (set (dict_keys d))"
  by (simp add: dom_update flip: image_set)

lemma res_fold_update:
  assumes "res_fold (\<lambda>x d. and_then (f x) (\<lambda>v. Inr (AList.update x v d))) xs d0 = Inr d"
  shows "if x \<in> set xs then \<exists>v. f x = Inr v \<and> map_of d x = Some v else map_of d x = map_of d0 x"
  using assms
proof (induction xs arbitrary: d0)
  case (Cons y ys)
  then obtain v where v: "f y = Inr v" "res_fold (\<lambda>x d. and_then (f x) (\<lambda>v. Inr (AList.update x v d))) ys (AList.update y v d0) = Inr d"
    by (auto simp: and_then_eq_Inr)
  show ?case using Cons.IH[OF v(2)] v(1) by (auto simp: update_conv' split: if_splits)
qed simp

lemma distinct_dict_keys_update [simp, dict_simps]:
  "distinct (dict_keys d) \<Longrightarrow> distinct (dict_keys (AList.update k v d))"
  by (rule distinct_update)


section \<open>Lists\<close>

text \<open>Python's \<^verbatim>\<open>xs[i]\<close> with its negative indices and \<^verbatim>\<open>IndexError\<close>.\<close>

definition py_nth :: "'a list \<Rightarrow> int \<Rightarrow> 'a res" where
  "py_nth xs i =
     (if i \<ge> 0 \<and> nat i < length xs then Inr (xs ! nat i)
      else if i < 0 \<and> nat (- i) \<le> length xs then Inr (xs ! (length xs - nat (- i)))
      else Inl IndexError)"

lemma py_nth_nat [simp]:
  "py_nth xs (int i) = (if i < length xs then Inr (xs ! i) else Inl IndexError)"
  by (simp add: py_nth_def)

lemma py_nth_last [simp]:
  "py_nth xs (- 1) = (if xs = [] then Inl IndexError else Inr (last xs))"
  by (cases xs rule: rev_cases) (simp_all add: py_nth_def)

lemma upd_nth: "xs[p := v] ! i = (if i = p \<and> p < length xs then v else xs ! i)"
  by (cases "p < length xs") (auto simp: nth_list_update list_update_beyond)

text \<open>\<^verbatim>\<open>list.remove\<close> (the present element is removed once; the absent one raises).\<close>

definition py_remove :: "'a \<Rightarrow> 'a list \<Rightarrow> 'a list res" where
  "py_remove x xs = (if x \<in> set xs then Inr (remove1 x xs) else Inl ValueError)"

text \<open>\<^verbatim>\<open>list.index\<close>.\<close>

fun py_index :: "'a list \<Rightarrow> 'a \<Rightarrow> nat res" where
  "py_index [] x = Inl ValueError"
| "py_index (y # ys) x = (if y = x then Inr 0 else and_then (py_index ys x) (\<lambda>i. Inr (Suc i)))"

lemma py_index_Inr: "py_index xs x = Inr i \<Longrightarrow> i < length xs \<and> xs ! i = x \<and> x \<notin> set (take i xs)"
  by (induction xs arbitrary: i) (auto simp: and_then_eq_Inr split: if_splits)

lemma py_index_ex: "x \<in> set xs \<Longrightarrow> \<exists>i. py_index xs x = Inr i"
  by (induction xs) auto

text \<open>Deduplication in first-occurrence order.\<close>

fun add_new :: "'a \<Rightarrow> 'a list \<Rightarrow> 'a list" where
  "add_new x xs = (if x \<in> set xs then xs else xs @ [x])"

lemma set_add_new [simp]: "set (add_new x xs) = insert x (set xs)"
  by auto

lemma distinct_add_new [simp]: "distinct (add_new x xs) = distinct xs"
  by auto

declare add_new.simps [simp del]


section \<open>Loops\<close>

text \<open>
  Total correctness of a loop over a state with a natural-number measure: under an invariant
  the loop returns, and the result satisfies the invariant with the guard false.
\<close>

lemma while_option_total:
  fixes m :: "'s \<Rightarrow> nat"
  assumes "P s"
    and "\<And>s. P s \<Longrightarrow> b s \<Longrightarrow> P (c s) \<and> m (c s) < m s"
  shows "\<exists>t. while_option b c s = Some t \<and> P t \<and> \<not> b t"
proof -
  obtain t where t: "while_option b c s = Some t"
    using measure_while_option_Some[of P b c m s] assms by auto
  have "P t"
    using while_option_rule[where P = P, OF _ t] assms by blast
  with while_option_stop[OF t] t show ?thesis by blast
qed

text \<open>A loop whose invariant implies its guard never returns.\<close>

lemma while_option_diverges:
  assumes "P s" and "\<And>s. P s \<Longrightarrow> b s \<and> P (c s)"
  shows "while_option b c s = None"
proof (rule ccontr)
  assume "while_option b c s \<noteq> None"
  then obtain t where t: "while_option b c s = Some t" by auto
  have "P t" by (rule while_option_rule[where P = P, OF _ t]) (use assms in auto)
  with while_option_stop[OF t] assms(2) show False by blast
qed

text \<open>Sequencing of code that may also fail to return (\<^const>\<open>None\<close>).\<close>

definition run_then :: "'a res option \<Rightarrow> ('a \<Rightarrow> 'b res option) \<Rightarrow> 'b res option" where
  "run_then m f = (case m of None \<Rightarrow> None | Some (Inl e) \<Rightarrow> Some (Inl e) | Some (Inr x) \<Rightarrow> f x)"

lemma run_then_simps [simp, res_simps]:
  "run_then None f = None"
  "run_then (Some (Inl e)) f = Some (Inl e)"
  "run_then (Some (Inr x)) f = f x"
  by (simp_all add: run_then_def)

lemma run_then_eq_Inr [res_simps]:
  "run_then m f = Some (Inr y) \<longleftrightarrow> (\<exists>x. m = Some (Inr x) \<and> f x = Some (Inr y))"
  by (auto simp: run_then_def split: option.splits sum.splits)

lemma run_then_cong [fundef_cong]:
  "m = m' \<Longrightarrow> (\<And>x. m' = Some (Inr x) \<Longrightarrow> f x = g x) \<Longrightarrow> run_then m f = run_then m' g"
  by (auto simp: run_then_def split: option.splits sum.splits)

text \<open>
  A \<^verbatim>\<open>while\<close> loop whose body may raise or not return: the loop ends when the guard is false or an
  exception leaves it.
\<close>

definition run_while :: "('s \<Rightarrow> bool) \<Rightarrow> ('s \<Rightarrow> 's res option) \<Rightarrow> 's \<Rightarrow> 's res option" where
  "run_while b c s =
     (case while_option (\<lambda>m. case m of Some (Inr s) \<Rightarrow> b s | _ \<Rightarrow> False) (\<lambda>m. run_then m c) (Some (Inr s)) of
        None \<Rightarrow> None | Some r \<Rightarrow> r)"

lemma run_while_unfold: "run_while b c s = (if b s then run_then (c s) (run_while b c) else Some (Inr s))"
proof (cases "b s")
  case True
  show ?thesis
  proof (cases "c s")
    case (Some r)
    then show ?thesis using True
      by (cases r) (simp_all add: run_while_def while_option_unfold[where s = "Some (Inr s)"] while_option_unfold[where s = "Some (Inl _)"])
  qed (simp add: run_while_def while_option_unfold[where s = "Some (Inr s)"] while_option_unfold[where s = None] True)
qed (simp add: run_while_def while_option_unfold)

text \<open>Total correctness up to exceptions, by a well-founded relation.\<close>

lemma run_while_total:
  assumes "wf r" and "P s"
    and "\<And>s. P s \<Longrightarrow> b s \<Longrightarrow> (\<exists>e. c s = Some (Inl e)) \<or> (\<exists>t. c s = Some (Inr t) \<and> P t \<and> (t, s) \<in> r)"
  shows "(\<exists>e. run_while b c s = Some (Inl e)) \<or> (\<exists>t. run_while b c s = Some (Inr t) \<and> P t \<and> \<not> b t)"
  using assms(1,2)
proof (induction s rule: wf_induct_rule)
  case (less s)
  show ?case
  proof (cases "b s")
    case True
    from assms(3)[OF less.prems True] show ?thesis
    proof (elim disjE exE conjE)
      fix t assume "c s = Some (Inr t)" "P t" "(t, s) \<in> r"
      then show ?thesis using less.IH[of t] True by (simp add: run_while_unfold[of b c s])
    qed (simp add: run_while_unfold[of b c s] True)
  qed (use less.prems in \<open>simp add: run_while_unfold[of b c s]\<close>)
qed

lemma run_while_returns:
  assumes "wf r" and "P s"
    and "\<And>s. P s \<Longrightarrow> b s \<Longrightarrow> \<exists>t. c s = Some (Inr t) \<and> P t \<and> (t, s) \<in> r"
  shows "\<exists>t. run_while b c s = Some (Inr t) \<and> P t \<and> \<not> b t"
  using assms(1,2)
proof (induction s rule: wf_induct_rule)
  case (less s)
  show ?case
  proof (cases "b s")
    case True
    with assms(3)[OF less.prems] less.IH show ?thesis by (subst run_while_unfold) auto
  qed (use less.prems in \<open>simp add: run_while_unfold[of b c s]\<close>)
qed

end
