(* ===== verification/Digraph.thy ===== *)
theory Digraph
  imports Prelude
begin

text \<open>
  Dependency graphs shared by the scheduling and fusion passes: topological orders of a node
  list, the edge relation of a dependency function, and the existence of a node all of whose
  dependencies are already placed in every incomplete prefix of an acyclic graph.
\<close>

section \<open>Orders that respect dependencies\<close>

text \<open>\<open>topo_from dep seen xs\<close>: every dependency of an element is in \<open>seen\<close> or before it.\<close>

fun topo_from :: "('a \<Rightarrow> 'a set) \<Rightarrow> 'a set \<Rightarrow> 'a list \<Rightarrow> bool" where
  "topo_from dep seen [] = True"
| "topo_from dep seen (x # xs) = (dep x \<subseteq> seen \<and> topo_from dep (insert x seen) xs)"

abbreviation topo_ordered :: "('a \<Rightarrow> 'a set) \<Rightarrow> 'a list \<Rightarrow> bool" where
  "topo_ordered dep xs \<equiv> topo_from dep {} xs"

lemma topo_from_mono: "topo_from dep S xs \<Longrightarrow> S \<subseteq> T \<Longrightarrow> topo_from dep T xs"
  by (induction xs arbitrary: S T) (auto, meson insert_mono)

lemma topo_from_append [graph_simps]:
  "topo_from dep S (xs @ ys) \<longleftrightarrow> topo_from dep S xs \<and> topo_from dep (S \<union> set xs) ys"
  by (induction xs arbitrary: S) auto

lemma topo_from_nth:
  "topo_from dep S xs \<longleftrightarrow> (\<forall>i < length xs. dep (xs ! i) \<subseteq> S \<union> set (take i xs))"
proof (induction xs rule: rev_induct)
  case (snoc x xs)
  then show ?case
    by (auto simp: topo_from_append nth_append less_Suc_eq)
qed simp

lemma topo_ordered_before:
  assumes "topo_ordered dep xs" and "i < length xs" and "d \<in> dep (xs ! i)"
  shows "\<exists>j < i. xs ! j = d"
proof -
  from assms have "d \<in> set (take i xs)"
    by (auto simp: topo_from_nth)
  then obtain j where "j < length (take i xs)" and "take i xs ! j = d"
    by (auto simp: in_set_conv_nth)
  then show ?thesis by auto
qed


section \<open>The edge relation\<close>

definition dep_edges :: "'a set \<Rightarrow> ('a \<Rightarrow> 'a set) \<Rightarrow> ('a \<times> 'a) set" where
  "dep_edges N dep = {(d, n). n \<in> N \<and> d \<in> dep n}"

lemma dep_edges_iff [graph_simps]: "(d, n) \<in> dep_edges N dep \<longleftrightarrow> n \<in> N \<and> d \<in> dep n"
  by (simp add: dep_edges_def)

lemma finite_dep_edges:
  assumes "finite N" and "\<And>n. n \<in> N \<Longrightarrow> dep n \<subseteq> N"
  shows "finite (dep_edges N dep)"
proof (rule finite_subset)
  show "dep_edges N dep \<subseteq> N \<times> N" using assms(2) by (auto simp: dep_edges_def)
qed (use assms(1) in auto)

lemma acyclic_ready_node:
  assumes "finite N" and "acyclic (dep_edges N dep)" and closed: "\<And>n. n \<in> N \<Longrightarrow> dep n \<subseteq> N"
    and "\<not> N \<subseteq> S"
  shows "\<exists>n \<in> N - S. dep n \<subseteq> S"
proof -
  have "wf (dep_edges N dep)"
    using assms finite_dep_edges finite_acyclic_wf by metis
  moreover obtain x where "x \<in> N - S" using assms(4) by auto
  ultimately obtain n where n: "n \<in> N - S" and "\<And>d. (d, n) \<in> dep_edges N dep \<Longrightarrow> d \<notin> N - S"
    by (metis wfE_min)
  then have "dep n \<subseteq> S" using closed[of n] by (auto simp: dep_edges_def)
  with n show ?thesis by auto
qed

text \<open>A node list in dependency order witnesses acyclicity.\<close>

lemma topo_ordered_trancl:
  assumes "topo_ordered dep xs" and "distinct xs" and "(a, b) \<in> (dep_edges (set xs) dep)\<^sup>+"
  shows "\<exists>i j. i < j \<and> j < length xs \<and> xs ! i = a \<and> xs ! j = b"
  using assms(3)
proof (induction rule: trancl_induct)
  case (base y)
  then obtain j where "j < length xs" "xs ! j = y" and "a \<in> dep y"
    by (auto simp: dep_edges_def in_set_conv_nth)
  with topo_ordered_before[OF assms(1), of j a] show ?case by auto
next
  case (step y z)
  then obtain i j where ij: "i < j" "j < length xs" "xs ! i = a" "xs ! j = y" by auto
  from step obtain k where k: "k < length xs" "xs ! k = z" and "y \<in> dep z"
    by (auto simp: dep_edges_def in_set_conv_nth)
  with topo_ordered_before[OF assms(1), of k y] obtain j' where j': "j' < k" "xs ! j' = y" by auto
  with ij k assms(2) have "j' = j" by (meson distinct_conv_nth less_trans)
  with ij j' have "i < k" by simp
  with ij k show ?case by blast
qed

lemma topo_ordered_acyclic:
  assumes "topo_ordered dep xs" and "distinct xs"
  shows "acyclic (dep_edges (set xs) dep)"
proof (rule acyclicI, rule allI, rule notI)
  fix a assume "(a, a) \<in> (dep_edges (set xs) dep)\<^sup>+"
  from topo_ordered_trancl[OF assms this] assms(2) show False
    by (metis less_irrefl less_trans nth_eq_iff_index_eq)
qed

lemma topo_ordered_closed:
  assumes "topo_ordered dep xs" and "n \<in> set xs" shows "dep n \<subseteq> set xs"
proof -
  obtain i where "i < length xs" and "xs ! i = n" using assms(2) by (auto simp: in_set_conv_nth)
  then show ?thesis using assms(1) set_take_subset[of i xs] by (auto simp: topo_from_nth)
qed


section \<open>Graphs as dictionaries\<close>

text \<open>A node is mapped to the set of the nodes it depends on.\<close>

type_synonym 'a depend_graph = "('a, 'a set) dict"

definition graph_dep :: "'a depend_graph \<Rightarrow> 'a \<Rightarrow> 'a set" where
  "graph_dep graph n = (case map_of graph n of None \<Rightarrow> {} | Some D \<Rightarrow> D)"

definition graph_closed :: "'a depend_graph \<Rightarrow> bool" where
  "graph_closed graph \<longleftrightarrow> (\<forall>(n, D) \<in> set graph. D \<subseteq> set (dict_keys graph))"

definition graph_acyclic :: "'a depend_graph \<Rightarrow> bool" where
  "graph_acyclic graph \<longleftrightarrow> acyclic (dep_edges (set (dict_keys graph)) (graph_dep graph))"

lemma graph_dep_item: "distinct (dict_keys graph) \<Longrightarrow> (n, D) \<in> set graph \<Longrightarrow> graph_dep graph n = D"
  by (auto simp: graph_dep_def)

lemma graph_closed_dep: "graph_closed graph \<Longrightarrow> graph_dep graph n \<subseteq> set (dict_keys graph)"
  by (fastforce simp: graph_closed_def graph_dep_def dest: map_of_SomeD split: option.splits)

lemma graph_ready_node:
  assumes "graph_closed graph" and "graph_acyclic graph" and "\<not> set (dict_keys graph) \<subseteq> S"
  shows "\<exists>n \<in> set (dict_keys graph) - S. graph_dep graph n \<subseteq> S"
  by (rule acyclic_ready_node)
     (use assms graph_closed_dep[OF assms(1)] in \<open>simp_all add: graph_acyclic_def\<close>)

end
