(* ===== verification/Relay_Expr.thy ===== *)
theory Relay_Expr
  imports Digraph
begin

text \<open>
  The Relay expressions the passes work on, with the object identity Python sees, the type
  inference of the stencil operators, and the traversal of \<^verbatim>\<open>expr_functor.py\<close>: a depth-first
  visit with a memo map, over which the visitor classes of the passes are instances.
\<close>

section \<open>Expressions\<close>

text \<open>
  TVM objects compare and hash by address (\<^verbatim>\<open>Object.__eq__\<close> is \<^verbatim>\<open>same_as\<close>). Every node
  carries its address as its first argument, so equality of terms is equality of objects: two
  nodes built separately have different addresses, and one address has one content. Operators
  are registry entries, one object per name. Fields no pass reads (spans, type parameters,
  match patterns) are left out.
\<close>

datatype rtype =
    TensorType "int list" string
  | TupleType "rtype list"
  | OtherType string

datatype call_attrs =
    GridAttrs string
  | GridMOAttrs string nat
  | PlainAttrs string

datatype attr_val = StrVal string | IntVal int

type_synonym dict_attrs = "(string, attr_val) dict option"

datatype expr =
    Var nat string "rtype option"
  | GlobalVar nat string
  | Constant nat "int list" string
  | Op string
  | Constructor nat string
  | Call nat expr "expr list" "call_attrs option"
  | Function nat "expr list" expr "rtype option" dict_attrs
  | LetExpr nat expr expr expr
  | IfExpr nat expr expr expr
  | Tuple nat "expr list"
  | TupleGetItem nat expr nat
  | RefCreate nat expr
  | RefRead nat expr
  | RefWrite nat expr expr
  | Match nat expr "expr list"

fun is_Call :: "expr \<Rightarrow> bool" where
  "is_Call (Call _ _ _ _) = True"
| "is_Call _ = False"

fun is_TupleGetItem :: "expr \<Rightarrow> bool" where
  "is_TupleGetItem (TupleGetItem _ _ _) = True"
| "is_TupleGetItem _ = False"

fun is_Function :: "expr \<Rightarrow> bool" where
  "is_Function (Function _ _ _ _ _) = True"
| "is_Function _ = False"

fun call_args :: "expr \<Rightarrow> expr list" where
  "call_args (Call _ _ as _) = as"
| "call_args _ = []"

text \<open>\<^verbatim>\<open>call.attrs.tag\<close>: only the attributes of the grid operators have the field.\<close>

fun attrs_tag :: "call_attrs option \<Rightarrow> string res" where
  "attrs_tag (Some (GridAttrs t)) = Inr t"
| "attrs_tag (Some (GridMOAttrs t n)) = Inr t"
| "attrs_tag (Some (PlainAttrs k)) = Inl AttributeError"
| "attrs_tag None = Inl AttributeError"

text \<open>\<^verbatim>\<open>call.op.attrs["tag"]\<close>: an operator has no such attributes, a function without
  attributes has \<^verbatim>\<open>None\<close>, which cannot be subscripted.\<close>

fun op_attrs_tag :: "expr \<Rightarrow> string res" where
  "op_attrs_tag (Function _ _ _ _ (Some d)) =
     (case map_of d ''tag'' of
        Some (StrVal t) \<Rightarrow> Inr t
      | Some (IntVal n) \<Rightarrow> Inl TypeError
      | None \<Rightarrow> Inl KeyError)"
| "op_attrs_tag (Function _ _ _ _ None) = Inl TypeError"
| "op_attrs_tag _ = Inl AttributeError"


section \<open>Type inference\<close>

text \<open>
  The output type of a grid operator, from the type relations of \<^verbatim>\<open>stencil.cc\<close>: the output
  has the type of the first grid (of the second one for \<^verbatim>\<open>grid2stencil\<close>, whose relation
  overwrites its \<^verbatim>\<open>data\<close> pointer), provided every grid is a tensor.
\<close>

definition grid_ops :: "(string \<times> nat) list" where
  "grid_ops = [(''stencil.grid1stencil'', 1), (''stencil.grid2stencil'', 2),
     (''stencil.grid3stencil'', 3), (''stencil.grid4stencil'', 4),
     (''stencil.grid5stencil'', 5), (''stencil.grid6stencil'', 6)]"

fun is_tensor :: "rtype \<Rightarrow> bool" where
  "is_tensor (TensorType _ _) = True"
| "is_tensor _ = False"

definition stencil_rel :: "string \<Rightarrow> rtype list \<Rightarrow> call_attrs option \<Rightarrow> rtype option" where
  "stencil_rel nm ts a =
     (if \<not> list_all is_tensor ts then None
      else if nm = ''stencil.grid2mostencil'' then
        (case (ts, a) of
           ([t, _], Some (GridMOAttrs _ n)) \<Rightarrow> Some (TupleType (replicate n t))
         | _ \<Rightarrow> None)
      else case map_of grid_ops nm of
        None \<Rightarrow> None
      | Some k \<Rightarrow> if length ts \<noteq> k then None
                  else Some (if nm = ''stencil.grid2stencil'' then ts ! 1 else ts ! 0))"

fun opt_all :: "'a option list \<Rightarrow> 'a list option" where
  "opt_all [] = Some []"
| "opt_all (None # xs) = None"
| "opt_all (Some x # xs) = map_option ((#) x) (opt_all xs)"

text \<open>The type a node has after \<^verbatim>\<open>InferType\<close> (\<^verbatim>\<open>None\<close>: inference fails or the node is not
  of the fragment the stencil programs use).\<close>

fun checked_type :: "expr \<Rightarrow> rtype option" where
  "checked_type (Var _ _ t) = t"
| "checked_type (Constant _ sh dt) = Some (TensorType sh dt)"
| "checked_type (Call _ f as a) =
     (case f of
        Op nm \<Rightarrow> (case opt_all (map checked_type as) of None \<Rightarrow> None | Some ts \<Rightarrow> stencil_rel nm ts a)
      | Function _ ps b _ _ \<Rightarrow> checked_type b
      | _ \<Rightarrow> None)"
| "checked_type (Tuple _ es) = map_option TupleType (opt_all (map checked_type es))"
| "checked_type (TupleGetItem _ e i) =
     (case checked_type e of
        Some (TupleType ts) \<Rightarrow> if i < length ts then Some (ts ! i) else None
      | _ \<Rightarrow> None)"
| "checked_type _ = None"


section \<open>Traversal with a memo map\<close>

text \<open>
  The children \<^verbatim>\<open>ExprVisitor\<close> visits, in its order. The flag says whether the visitor's
  \<^verbatim>\<open>visit_call\<close> descends into the callee (the default does, \<^verbatim>\<open>BuildGraph\<close> does not).
\<close>

fun children :: "bool \<Rightarrow> expr \<Rightarrow> expr list" where
  "children b (Call _ f as _) = (if b then f # as else as)"
| "children b (Function _ ps e _ _) = ps @ [e]"
| "children b (LetExpr _ x v e) = [x, v, e]"
| "children b (IfExpr _ c t e) = [c, t, e]"
| "children b (Tuple _ es) = es"
| "children b (TupleGetItem _ e _) = [e]"
| "children b (RefCreate _ e) = [e]"
| "children b (RefRead _ r) = [r]"
| "children b (RefWrite _ r v) = [r, v]"
| "children b (Match _ d cs) = d # cs"
| "children b _ = []"

lemma size_elem_list: "x \<in> set xs \<Longrightarrow> size x \<le> size_list size xs"
  by (induction xs) auto

lemma children_size: "k \<in> set (children b e) \<Longrightarrow> size k < size e"
  by (cases e) (auto dest!: size_elem_list split: if_splits)

text \<open>
  \<^verbatim>\<open>ExprFunctor.visit\<close>: a memoised node is skipped; otherwise the hook \<open>pre\<close> of its class runs,
  the children are visited in order (none where \<open>stop\<close> holds), the hook \<open>post\<close> runs, and the
  node enters the memo map.
\<close>

definition kids :: "bool \<Rightarrow> (expr \<Rightarrow> bool) \<Rightarrow> expr \<Rightarrow> expr list" where
  "kids b stop e = (if stop e then [] else children b e)"

lemma kids_size: "k \<in> set (kids b stop e) \<Longrightarrow> size k < size e"
  by (auto simp: kids_def children_size split: if_splits)

function visit :: "bool \<Rightarrow> (expr \<Rightarrow> bool) \<Rightarrow> (expr \<Rightarrow> 's \<Rightarrow> 's) \<Rightarrow> (expr \<Rightarrow> 's \<Rightarrow> 's) \<Rightarrow>
    expr \<Rightarrow> expr set \<times> 's \<Rightarrow> expr set \<times> 's" where
  "visit b stop pre post e (memo, s) =
     (if e \<in> memo then (memo, s)
      else let (memo', s') = fold (visit b stop pre post) (kids b stop e) (memo, pre e s)
           in (insert e memo', post e s'))"
  by pat_completeness auto
termination
  by (relation "measure (\<lambda>(b, stop, pre, post, e, st). size e)") (auto simp: kids_size)

declare visit.simps [simp del]

text \<open>The nodes a visit reaches.\<close>

function subs :: "bool \<Rightarrow> (expr \<Rightarrow> bool) \<Rightarrow> expr \<Rightarrow> expr set" where
  "subs b stop e = insert e (\<Union> (set (map (subs b stop) (kids b stop e))))"
  by pat_completeness auto
termination
  by (relation "measure (\<lambda>(b, stop, e). size e)") (auto simp: kids_size)

declare subs.simps [simp del]

lemma subs_iff: "x \<in> subs b stop e \<longleftrightarrow> x = e \<or> (\<exists>k \<in> set (kids b stop e). x \<in> subs b stop k)"
  by (simp add: subs.simps[of b stop e])

lemma subs_self [simp, intro]: "e \<in> subs b stop e"
  by (subst subs_iff) simp

lemma subs_size: "x \<in> subs b stop e \<Longrightarrow> size x \<le> size e"
proof (induction b stop e rule: subs.induct)
  case (1 b stop e)
  show ?case
  proof (cases "x = e")
    case False
    with 1(2) obtain k where k: "k \<in> set (kids b stop e)" "x \<in> subs b stop k"
      by (subst (asm) subs_iff) auto
    with 1(1)[OF k] kids_size[OF k(1)] show ?thesis by simp
  qed simp
qed

lemma subs_trans: "x \<in> subs b stop y \<Longrightarrow> y \<in> subs b stop e \<Longrightarrow> x \<in> subs b stop e"
proof (induction b stop e rule: subs.induct)
  case (1 b stop e)
  then show ?case by (metis subs_iff)
qed

lemma subs_kid: "y \<in> subs b stop e \<Longrightarrow> k \<in> set (kids b stop y) \<Longrightarrow> k \<in> subs b stop e"
  by (rule subs_trans[of k b stop y]) (auto simp: subs_iff[of k b stop y])

text \<open>
  The visit of a set of memoised nodes closed under children: the memo map grows by exactly the
  nodes reached, and with a pre-order hook only, the hook runs once on each new node.
\<close>

definition memo_closed :: "bool \<Rightarrow> (expr \<Rightarrow> bool) \<Rightarrow> expr set \<Rightarrow> bool" where
  "memo_closed b stop M \<longleftrightarrow> (\<forall>e \<in> M. set (kids b stop e) \<subseteq> M)"

lemma memo_closed_subs:
  "memo_closed b stop M \<Longrightarrow> e \<in> M \<Longrightarrow> subs b stop e \<subseteq> M"
proof (induction b stop e rule: subs.induct)
  case (1 b stop e)
  have "subs b stop k \<subseteq> M" if "k \<in> set (kids b stop e)" for k
    using 1 that by (auto simp: memo_closed_def)
  with 1(3) show ?case by (auto simp: subs.simps[of b stop e])
qed

lemma memo_closed_union_subs:
  "memo_closed b stop M \<Longrightarrow> memo_closed b stop (M \<union> subs b stop e)"
  by (auto simp: memo_closed_def intro: subs_kid)

lemma visit_fold_pre:
  assumes "\<And>e M s. e \<in> set es \<Longrightarrow> memo_closed b stop M \<Longrightarrow>
      \<exists>tr. visit b stop pre (\<lambda>_ s. s) e (M, s) = (M \<union> subs b stop e, fold pre tr s) \<and>
        distinct tr \<and> set tr = subs b stop e - M"
    and "memo_closed b stop M"
  shows "\<exists>tr. fold (visit b stop pre (\<lambda>_ s. s)) es (M, s) =
      (M \<union> \<Union> (subs b stop ` set es), fold pre tr s) \<and>
      distinct tr \<and> set tr = \<Union> (subs b stop ` set es) - M"
  using assms
proof (induction es arbitrary: M s)
  case (Cons e es)
  obtain tr1 where 1: "visit b stop pre (\<lambda>_ s. s) e (M, s) = (M \<union> subs b stop e, fold pre tr1 s)"
      "distinct tr1" "set tr1 = subs b stop e - M"
    using Cons.prems(1)[of e M s] Cons.prems(2) by auto
  obtain tr2 where 2: "fold (visit b stop pre (\<lambda>_ s. s)) es (M \<union> subs b stop e, fold pre tr1 s) =
      (M \<union> subs b stop e \<union> \<Union> (subs b stop ` set es), fold pre tr2 (fold pre tr1 s))"
      "distinct tr2" "set tr2 = \<Union> (subs b stop ` set es) - (M \<union> subs b stop e)"
    using Cons.IH[of "M \<union> subs b stop e" "fold pre tr1 s"] Cons.prems
    by (auto simp: memo_closed_union_subs)
  show ?case
    by (rule exI[of _ "tr1 @ tr2"]) (use 1 2 in \<open>auto simp: Un_assoc\<close>)
qed auto

lemma visit_pre:
  "memo_closed b stop M \<Longrightarrow>
   \<exists>tr. visit b stop pre (\<lambda>_ s. s) e (M, s) = (M \<union> subs b stop e, fold pre tr s) \<and>
     distinct tr \<and> set tr = subs b stop e - M"
proof (induction "size e" arbitrary: e M s rule: less_induct)
  case less
  show ?case
  proof (cases "e \<in> M")
    case True
    with memo_closed_subs[OF less.prems] show ?thesis
      by (intro exI[of _ "[]"]) (auto simp: visit.simps)
  next
    case False
    let ?K = "\<Union> (subs b stop ` set (kids b stop e))"
    have sub: "subs b stop e = insert e ?K" by (simp add: subs.simps[of b stop e])
    have new: "e \<notin> ?K"
    proof
      assume "e \<in> ?K"
      then obtain k where "k \<in> set (kids b stop e)" and "e \<in> subs b stop k" by auto
      then show False using kids_size[of k b stop e] subs_size[of e b stop k] by simp
    qed
    have "\<exists>tr. fold (visit b stop pre (\<lambda>_ s. s)) (kids b stop e) (M, pre e s) =
        (M \<union> ?K, fold pre tr (pre e s)) \<and> distinct tr \<and> set tr = ?K - M"
      by (rule visit_fold_pre[OF less.hyps less.prems]) (simp_all add: kids_size)
    then obtain tr where tr: "fold (visit b stop pre (\<lambda>_ s. s)) (kids b stop e) (M, pre e s) =
        (M \<union> ?K, fold pre tr (pre e s))" "distinct tr" "set tr = ?K - M" by auto
    show ?thesis
      by (rule exI[of _ "e # tr"]) (use False tr new sub in \<open>auto simp: visit.simps\<close>)
  qed
qed

text \<open>A visitor that collects the nodes of one class in visiting order.\<close>

definition collect :: "bool \<Rightarrow> (expr \<Rightarrow> bool) \<Rightarrow> expr \<Rightarrow> expr list" where
  "collect b p e = snd (visit b (\<lambda>_. False) (\<lambda>x acc. if p x then acc @ [x] else acc) (\<lambda>_ s. s) e ({}, []))"

lemma fold_collect: "fold (\<lambda>x acc. if p x then acc @ [x] else acc) xs acc = acc @ filter p xs"
  by (induction xs arbitrary: acc) auto

lemma collect_spec:
  "distinct (collect b p e) \<and> set (collect b p e) = {x \<in> subs b (\<lambda>_. False) e. p x}"
proof -
  obtain tr where "visit b (\<lambda>_. False) (\<lambda>x acc. if p x then acc @ [x] else acc) (\<lambda>_ s. s) e ({}, []) =
      ({} \<union> subs b (\<lambda>_. False) e, fold (\<lambda>x acc. if p x then acc @ [x] else acc) tr [])"
    "distinct tr" "set tr = subs b (\<lambda>_. False) e - {}"
    using visit_pre[of b "\<lambda>_. False" "{}" "\<lambda>x acc. if p x then acc @ [x] else acc" e "[]"]
    by (auto simp: memo_closed_def)
  then show ?thesis by (auto simp: collect_def fold_collect)
qed

end
