(* ===== verification/Relay_Mutator.thy ===== *)
theory Relay_Mutator
  imports Relay_Expr
begin

text \<open>
  \<^verbatim>\<open>ExprMutator\<close> (\<^verbatim>\<open>relay/expr_functor.py\<close>) and its two subclasses \<^verbatim>\<open>ReplaceParams\<close> and \<^verbatim>\<open>EmitTuple\<close>
  (\<^verbatim>\<open>relay/transform/utils.py\<close>): a traversal that rebuilds an expression, with a memo map and newly
  allocated nodes. A subclass overrides some of the \<^verbatim>\<open>visit_\<close> methods; it is described by what its
  override does at a node: nothing special, return an expression, or visit another expression in
  its place. The replaced expression may be visited in turn, so the recursion is bounded only by
  the interpreter: the first argument is the number of nested visits it grants.

  Shown: the rebuilt expression denotes the same value when what the overrides put in place does,
  and enough nested visits give a result.
\<close>

section \<open>The traversal\<close>

datatype override = Default | Visit expr | Return expr

record mstate =
  memo_map :: "(expr, expr) dict"
  next_addr :: nat

definition new_node :: "(nat \<Rightarrow> expr) \<Rightarrow> 'z mstate_scheme \<Rightarrow> (expr \<times> 'z mstate_scheme) res" where
  "new_node mk s = Inr (mk (next_addr s), s\<lparr>next_addr := Suc (next_addr s)\<rparr>)"

fun visit_list :: "(expr \<Rightarrow> 'z mstate_scheme \<Rightarrow> (expr \<times> 'z mstate_scheme) res) \<Rightarrow> expr list \<Rightarrow> 'z mstate_scheme \<Rightarrow> (expr list \<times> 'z mstate_scheme) res" where
  "visit_list rec [] s = Inr ([], s)"
| "visit_list rec (e # es) s =
     and_then (rec e s) (\<lambda>(r, s). and_then (visit_list rec es s) (\<lambda>(rs, s). Inr (r # rs, s)))"

text \<open>The default methods, in the order of the class.\<close>

fun rebuild :: "(expr \<Rightarrow> 'z mstate_scheme \<Rightarrow> (expr \<times> 'z mstate_scheme) res) \<Rightarrow> expr \<Rightarrow> 'z mstate_scheme \<Rightarrow> (expr \<times> 'z mstate_scheme) res" where
  "rebuild rec (Function u ps b t a) s =
     and_then (visit_list rec ps s) (\<lambda>(ps', s). and_then (rec b s) (\<lambda>(b', s).
       new_node (\<lambda>n. Function n ps' b' t a) s))"
| "rebuild rec (LetExpr u x v e) s =
     and_then (rec x s) (\<lambda>(x', s). and_then (rec v s) (\<lambda>(v', s). and_then (rec e s) (\<lambda>(e', s).
       new_node (\<lambda>n. LetExpr n x' v' e') s)))"
| "rebuild rec (Call u f as a) s =
     and_then (rec f s) (\<lambda>(f', s). and_then (visit_list rec as s) (\<lambda>(as', s).
       new_node (\<lambda>n. Call n f' as' a) s))"
| "rebuild rec (IfExpr u c t e) s =
     and_then (rec c s) (\<lambda>(c', s). and_then (rec t s) (\<lambda>(t', s). and_then (rec e s) (\<lambda>(e', s).
       new_node (\<lambda>n. IfExpr n c' t' e') s)))"
| "rebuild rec (Tuple u es) s =
     and_then (visit_list rec es s) (\<lambda>(es', s). new_node (\<lambda>n. Tuple n es') s)"
| "rebuild rec (TupleGetItem u e i) s =
     and_then (rec e s) (\<lambda>(e', s).
       if e' \<noteq> e then new_node (\<lambda>n. TupleGetItem n e' i) s else Inr (TupleGetItem u e i, s))"
| "rebuild rec (Match u d cs) s =
     and_then (rec d s) (\<lambda>(d', s). and_then (visit_list rec cs s) (\<lambda>(cs', s).
       new_node (\<lambda>n. Match n d' cs') s))"
| "rebuild rec (RefCreate u e) s = and_then (rec e s) (\<lambda>(e', s). new_node (\<lambda>n. RefCreate n e') s)"
| "rebuild rec (RefWrite u r v) s =
     and_then (rec r s) (\<lambda>(r', s). and_then (rec v s) (\<lambda>(v', s). new_node (\<lambda>n. RefWrite n r' v') s))"
| "rebuild rec (RefRead u r) s = and_then (rec r s) (\<lambda>(r', s). new_node (\<lambda>n. RefRead n r') s)"
| "rebuild rec e s = Inr (e, s)"

definition dispatch ::
    "(expr \<Rightarrow> override res) \<Rightarrow> (expr \<Rightarrow> mstate \<Rightarrow> (expr \<times> mstate) res) \<Rightarrow> expr \<Rightarrow> mstate \<Rightarrow> (expr \<times> mstate) res" where
  "dispatch ov rec e s =
     and_then (ov e) (\<lambda>a. case a of Return r \<Rightarrow> Inr (r, s) | Visit y \<Rightarrow> rec y s | Default \<Rightarrow> rebuild rec e s)"

fun mutate :: "nat \<Rightarrow> (expr \<Rightarrow> override res) \<Rightarrow> expr \<Rightarrow> mstate \<Rightarrow> (expr \<times> mstate) res" where
  "mutate 0 ov e s = Inl RecursionError"
| "mutate (Suc k) ov e s =
     (case map_of (memo_map s) e of
        Some r \<Rightarrow> Inr (r, s)
      | None \<Rightarrow> and_then (dispatch ov (mutate k ov) e s) (\<lambda>(r, s).
          Inr (r, s\<lparr>memo_map := AList.update e r (memo_map s)\<rparr>)))"


section \<open>The subclasses\<close>

definition no_override :: "expr \<Rightarrow> override res" where
  "no_override e = Inr Default"

fun replace_override :: "(expr, expr) dict \<Rightarrow> expr \<Rightarrow> override res" where
  "replace_override m (Call u f as a) =
     Inr (case map_of m (Call u f as a) of Some r \<Rightarrow> Visit r | None \<Rightarrow> Default)"
| "replace_override m (Var u nm t) =
     Inr (case map_of m (Var u nm t) of Some r \<Rightarrow> Return r | None \<Rightarrow> Default)"
| "replace_override m (Constant u sh d) =
     Inr (case map_of m (Constant u sh d) of Some r \<Rightarrow> Return r | None \<Rightarrow> Default)"
| "replace_override m (TupleGetItem u e i) =
     Inr (case map_of m (TupleGetItem u e i) of Some r \<Rightarrow> Visit r | None \<Rightarrow> Default)"
| "replace_override m e = Inr Default"

fun emit_override :: "expr \<Rightarrow> override res" where
  "emit_override (TupleGetItem u (Tuple v es) i) = and_then (py_nth es (int i)) (\<lambda>r. Inr (Visit r))"
| "emit_override e = Inr Default"

text \<open>A new visitor starts with an empty memo map.\<close>

definition visit_new :: "nat \<Rightarrow> (expr \<Rightarrow> override res) \<Rightarrow> expr \<Rightarrow> nat \<Rightarrow> (expr \<times> nat) res" where
  "visit_new limit ov e n =
     and_then (mutate limit ov e \<lparr>memo_map = [], next_addr = n\<rparr>) (\<lambda>(r, s). Inr (r, next_addr s))"

definition ReplaceParams :: "nat \<Rightarrow> (expr, expr) dict \<Rightarrow> expr \<Rightarrow> nat \<Rightarrow> (expr \<times> nat) res" where
  "ReplaceParams limit m e n = visit_new limit (replace_override m) e n"

definition EmitTuple :: "nat \<Rightarrow> expr \<Rightarrow> nat \<Rightarrow> (expr \<times> nat) res" where
  "EmitTuple limit e n = visit_new limit emit_override e n"


section \<open>What an expression denotes\<close>

text \<open>
  A value is a tensor or a tuple of values. The operators and the constants are given by an
  interpretation; a variable is looked up by its identity.
\<close>

datatype 'v val = TensorV 'v | TupleV "'v val list" | UndefV

record 'v interp =
  op_value :: "string \<Rightarrow> call_attrs option \<Rightarrow> 'v val list \<Rightarrow> 'v val"
  const_value :: "nat \<Rightarrow> 'v val"

type_synonym 'v env = "expr \<Rightarrow> 'v val"

fun bind :: "expr list \<Rightarrow> 'v val list \<Rightarrow> 'v env \<Rightarrow> 'v env" where
  "bind (p # ps) (v # vs) env = bind ps vs (env(p := v))"
| "bind _ _ env = env"

definition project :: "'v val \<Rightarrow> nat \<Rightarrow> 'v val" where
  "project v i = (case v of TupleV vs \<Rightarrow> if i < length vs then vs ! i else UndefV | _ \<Rightarrow> UndefV)"

fun eval :: "'v interp \<Rightarrow> 'v env \<Rightarrow> expr \<Rightarrow> 'v val" where
  "eval I env (Var u nm t) = env (Var u nm t)"
| "eval I env (Constant u sh d) = const_value I u"
| "eval I env (Call u f as a) =
     (case f of
        Op nm \<Rightarrow> op_value I nm a (map (eval I env) as)
      | Function w ps b t at \<Rightarrow> eval I (bind ps (map (eval I env) as) env) b
      | _ \<Rightarrow> UndefV)"
| "eval I env (Tuple u es) = TupleV (map (eval I env) es)"
| "eval I env (TupleGetItem u e i) = project (eval I env e) i"
| "eval I env _ = UndefV"

fun is_Var :: "expr \<Rightarrow> bool" where
  "is_Var (Var _ _ _) = True"
| "is_Var _ = False"

fun is_Op :: "expr \<Rightarrow> bool" where
  "is_Op (Op _) = True"
| "is_Op _ = False"

abbreviation nodes :: "expr \<Rightarrow> expr set" where
  "nodes e \<equiv> subs True (\<lambda>_. False) e"

lemma nodes_child: "k \<in> set (children True e) \<Longrightarrow> nodes k \<subseteq> nodes e"
  by (auto intro: subs_trans simp: subs_iff[of _ True _ e] kids_def)

lemma bind_other: "p \<notin> set ps \<Longrightarrow> bind ps vs env p = env p"
  by (induction ps vs env rule: bind.induct) auto

lemma bind_cong: "env p = env' p \<Longrightarrow> bind ps vs env p = bind ps vs env' p"
proof (induction ps arbitrary: vs env env')
  case (Cons q ps)
  show ?case
  proof (cases vs)
    case (Cons v vs')
    show ?thesis using Cons.IH[of "env(q := v)" "env'(q := v)" vs'] Cons.prems by (simp add: Cons fun_upd_def)
  qed (simp add: Cons.prems)
qed simp

text \<open>The value depends on the variables that occur.\<close>

lemma eval_cong:
  "\<forall>v \<in> nodes e. is_Var v \<longrightarrow> env v = env' v \<Longrightarrow> eval I env e = eval I env' e"
proof (induction "size e" arbitrary: e env env' rule: less_induct)
  case less
  have kid: "eval I env k = eval I env' k" if "k \<in> set (children True e)" for k
    using less.hyps[OF children_size[OF that], of env env'] nodes_child[OF that] less.prems by blast
  show ?case
  proof (cases e)
    case (Var u nm t)
    then show ?thesis using less.prems subs_self[of e True "\<lambda>_. False"] by auto
  next
    case (Call u f as a)
    have args: "map (eval I env) as = map (eval I env') as" using kid by (simp add: Call)
    show ?thesis
    proof (cases f)
      case (Function w ps b t at)
      have sub: "nodes b \<subseteq> nodes e"
        using nodes_child[of b f] nodes_child[of f e] by (simp add: Function Call)
      have "size b < size e"
        using children_size[of b True f] children_size[of f True e] by (simp add: Function Call)
      moreover have "\<forall>v \<in> nodes b. is_Var v \<longrightarrow>
          bind ps (map (eval I env) as) env v = bind ps (map (eval I env) as) env' v"
        using less.prems sub by (auto intro: bind_cong)
      ultimately show ?thesis using less.hyps by (simp add: Call Function flip: args)
    qed (simp_all add: Call args)
  qed (use kid in \<open>simp_all cong: map_cong\<close>)
qed

text \<open>
  What it means that \<open>y\<close> (in the environment \<open>tgt\<close>) stands for \<open>x\<close> (in the environment \<open>src\<close>): the
  same value, for a function the same function, for an operator the operator itself.
\<close>

fun agree :: "'v interp \<Rightarrow> 'v env \<Rightarrow> 'v env \<Rightarrow> expr \<Rightarrow> expr \<Rightarrow> bool" where
  "agree I src tgt (Function u ps b t a) y \<longleftrightarrow>
     (\<exists>u' b'. y = Function u' ps b' t a \<and> (\<forall>env. eval I env b' = eval I env b))"
| "agree I src tgt (Op nm) y \<longleftrightarrow> y = Op nm"
| "agree I src tgt x y \<longleftrightarrow> eval I tgt y = eval I src x"

lemma agree_eval: "agree I src tgt x y \<Longrightarrow> eval I tgt y = eval I src x"
  by (cases x) auto

lemma agree_value: "\<not> is_Function x \<Longrightarrow> \<not> is_Op x \<Longrightarrow> agree I src tgt x y \<longleftrightarrow> eval I tgt y = eval I src x"
  by (cases x) auto

lemma agree_refl: "agree I env env x x"
  by (cases x) auto

definition untouched :: "(expr \<Rightarrow> override res) \<Rightarrow> expr \<Rightarrow> bool" where
  "untouched ov e \<longleftrightarrow> (\<forall>x \<in> nodes e. ov x = Inr Default)"

text \<open>
  \<open>E\<close> is the set of pairs of environments for which the overrides are sound. If it is not the set
  of all pairs of equal environments, functions must not contain overridden nodes, as their bodies
  are evaluated in other environments.
\<close>

type_synonym 'v env_rel = "('v env \<times> 'v env) set"

fun node_ok :: "(expr \<Rightarrow> override res) \<Rightarrow> 'v env_rel \<Rightarrow> expr \<Rightarrow> bool" where
  "node_ok ov E (Call u f as a) \<longleftrightarrow> is_Op f \<or> is_Function f"
| "node_ok ov E (Function u ps b t a) \<longleftrightarrow> list_all is_Var ps \<and> (E = Id \<or> untouched ov (Function u ps b t a))"
| "node_ok ov E _ \<longleftrightarrow> True"

definition mutable :: "(expr \<Rightarrow> override res) \<Rightarrow> 'v env_rel \<Rightarrow> expr \<Rightarrow> bool" where
  "mutable ov E e \<longleftrightarrow> (\<forall>x \<in> nodes e. node_ok ov E x)"

definition sound_override :: "'v interp \<Rightarrow> 'v env_rel \<Rightarrow> (expr \<Rightarrow> override res) \<Rightarrow> bool" where
  "sound_override I E ov \<longleftrightarrow>
     (\<forall>x y. ov x = Inr (Visit y) \<longrightarrow> \<not> is_Function x \<and> \<not> is_Op x \<and> (\<forall>(src, tgt) \<in> E. eval I src y = eval I src x)) \<and>
     (\<forall>x y. ov x = Inr (Return y) \<longrightarrow> \<not> is_Function x \<and> \<not> is_Op x \<and> (\<forall>(src, tgt) \<in> E. eval I tgt y = eval I src x)) \<and>
     (\<forall>x y. mutable ov E x \<and> ov x = Inr (Visit y) \<longrightarrow> mutable ov E y) \<and>
     (\<forall>v. is_Var v \<and> ov v = Inr Default \<longrightarrow> (\<forall>(src, tgt) \<in> E. src v = tgt v)) \<and>
     (E = Id \<longrightarrow> (\<forall>v. is_Var v \<longrightarrow> ov v = Inr Default))"

definition stands_for :: "'v interp \<Rightarrow> 'v env_rel \<Rightarrow> (expr \<Rightarrow> override res) \<Rightarrow> expr \<Rightarrow> expr \<Rightarrow> bool" where
  "stands_for I E ov x y \<longleftrightarrow> (\<forall>(src, tgt) \<in> E. agree I src tgt x y) \<and> (untouched ov x \<longrightarrow> (\<forall>env. agree I env env x y)) \<and>
     (is_Var x \<and> ov x = Inr Default \<longrightarrow> y = x)"

definition memo_ok :: "'v interp \<Rightarrow> 'v env_rel \<Rightarrow> (expr \<Rightarrow> override res) \<Rightarrow> mstate \<Rightarrow> bool" where
  "memo_ok I E ov s \<longleftrightarrow> (\<forall>x y. map_of (memo_map s) x = Some y \<longrightarrow> stands_for I E ov x y)"

lemma mutable_child: "mutable ov E e \<Longrightarrow> k \<in> set (children True e) \<Longrightarrow> mutable ov E k"
  using nodes_child by (fastforce simp: mutable_def)

lemma mutable_self: "mutable ov E e \<Longrightarrow> node_ok ov E e"
  by (simp add: mutable_def)

lemma untouched_child: "untouched ov e \<Longrightarrow> k \<in> set (children True e) \<Longrightarrow> untouched ov k"
  using nodes_child by (fastforce simp: untouched_def)

lemma new_node_eq [simp]: "new_node mk s = Inr (r, s') \<longleftrightarrow> r = mk (next_addr s) \<and> s' = s\<lparr>next_addr := Suc (next_addr s)\<rparr>"
  by (auto simp: new_node_def)

lemma memo_ok_next_addr [simp]: "memo_ok I E ov (s\<lparr>next_addr := n\<rparr>) = memo_ok I E ov s"
  by (simp add: memo_ok_def)

text \<open>One visit keeps the invariant, given the visits it makes do.\<close>

definition rec_ok :: "'v interp \<Rightarrow> 'v env_rel \<Rightarrow> (expr \<Rightarrow> override res) \<Rightarrow> (expr \<Rightarrow> mstate \<Rightarrow> (expr \<times> mstate) res) \<Rightarrow> bool" where
  "rec_ok I E ov rec \<longleftrightarrow> (\<forall>e s r s'. mutable ov E e \<longrightarrow> memo_ok I E ov s \<longrightarrow> rec e s = Inr (r, s') \<longrightarrow>
     stands_for I E ov e r \<and> memo_ok I E ov s')"

lemma visit_list_ok:
  assumes "rec_ok I E ov rec" and "\<forall>e \<in> set es. mutable ov E e" and "memo_ok I E ov s"
    and "visit_list rec es s = Inr (rs, s')"
  shows "list_all2 (stands_for I E ov) es rs \<and> memo_ok I E ov s'"
  using assms(2-4)
proof (induction es arbitrary: s rs)
  case (Cons e es)
  then obtain r s1 rs' where r: "rec e s = Inr (r, s1)" "visit_list rec es s1 = Inr (rs', s')" "rs = r # rs'"
    by (auto simp: and_then_eq_Inr)
  then have "stands_for I E ov e r" "memo_ok I E ov s1" using assms(1) Cons.prems by (auto simp: rec_ok_def)
  with r Cons show ?case by auto
qed auto

lemma stands_for_list:
  assumes "list_all2 (stands_for I E ov) es rs"
  shows "(src, tgt) \<in> E \<Longrightarrow> map (eval I tgt) rs = map (eval I src) es"
    and "\<forall>e \<in> set es. untouched ov e \<Longrightarrow> map (eval I env) rs = map (eval I env) es"
    and "\<forall>e \<in> set es. is_Var e \<and> ov e = Inr Default \<Longrightarrow> rs = es"
  using assms by (induction rule: list_all2_induct) (auto simp: stands_for_def dest: agree_eval)

lemma call_value:
  assumes "is_Op f \<or> is_Function f" and "agree I src tgt f f'" and "map (eval I tgt) as' = map (eval I src) as"
    and "is_Function f \<longrightarrow> (\<forall>v \<in> nodes f. is_Var v \<longrightarrow> src v = tgt v)"
  shows "eval I tgt (Call u' f' as' a) = eval I src (Call u f as a)"
proof (cases f)
  case (Function w ps b t at)
  then obtain w' b' where f': "f' = Function w' ps b' t at" "\<forall>env. eval I env b' = eval I env b"
    using assms(2) by auto
  have "nodes b \<subseteq> nodes f" using nodes_child[of b f] by (simp add: Function)
  then have "eval I (bind ps (map (eval I src) as) tgt) b = eval I (bind ps (map (eval I src) as) src) b"
    using assms(4) by (intro eval_cong) (auto simp: Function intro!: bind_cong)
  then show ?thesis using f' assms(3) by (simp add: Function)
qed (use assms in auto)

lemma function_agree:
  assumes rec: "rec_ok I E ov rec" and so: "sound_override I E ov" and m: "mutable ov E (Function u ps b t a)"
    and memo: "memo_ok I E ov s" and r: "rebuild rec (Function u ps b t a) s = Inr (r, s')"
  shows "stands_for I E ov (Function u ps b t a) r \<and> memo_ok I E ov s'"
proof -
  let ?e = "Function u ps b t a"
  obtain ps' s1 b' s2 where v: "visit_list rec ps s = Inr (ps', s1)" "rec b s1 = Inr (b', s2)"
    "r = Function (next_addr s2) ps' b' t a" "s' = s2\<lparr>next_addr := Suc (next_addr s2)\<rparr>"
    using r by (auto simp: and_then_eq_Inr)
  have ch: "mutable ov E k" if "k \<in> set (ps @ [b])" for k using mutable_child[OF m] that by simp
  then have ps: "list_all2 (stands_for I E ov) ps ps'" "memo_ok I E ov s1"
    using visit_list_ok[OF rec _ memo v(1)] by auto
  then have b: "stands_for I E ov b b'" "memo_ok I E ov s2" using rec v(2) ch by (auto simp: rec_ok_def)
  have ok: "list_all is_Var ps" "E = Id \<or> untouched ov ?e"
    using mutable_self[OF m] by auto
  have u: "untouched ov p" if "p \<in> set (ps @ [b])" "untouched ov ?e" for p
    using untouched_child[OF that(2)] that(1) by simp
  have "ov p = Inr Default" if "p \<in> set ps" for p
    using ok(2)
  proof
    assume "E = Id"
    then show ?thesis using so ok(1) that unfolding sound_override_def list_all_iff by blast
  next
    assume "untouched ov ?e"
    then show ?thesis using u[of p] that by (simp add: untouched_def)
  qed
  then have "ps' = ps" using stands_for_list(3)[OF ps(1)] ok(1) by (auto simp: list_all_iff)
  moreover have "\<forall>env. eval I env b' = eval I env b"
    using ok(2) u[of b] b(1) by (auto simp: stands_for_def dest: agree_eval)
  ultimately have "agree I src tgt ?e r" for src tgt by (simp add: v(3))
  then show ?thesis using b(2) v(4) by (simp add: stands_for_def)
qed

lemma rebuild_ok:
  assumes rec: "rec_ok I E ov rec" and so: "sound_override I E ov" and m: "mutable ov E e"
    and memo: "memo_ok I E ov s" and r: "rebuild rec e s = Inr (r, s')" and dflt: "ov e = Inr Default"
  shows "stands_for I E ov e r \<and> memo_ok I E ov s'"
proof -
  note rc = rec[unfolded rec_ok_def, rule_format]
  have mm: "memo_ok I E ov s2" if "k \<in> set (children True e)" "memo_ok I E ov s1" "rec k s1 = Inr (x, s2)" for k s1 x s2
    using rc[OF mutable_child[OF m that(1)] that(2,3)] ..
  note ch = mutable_child[OF m] and un = untouched_child[of ov e]
  show ?thesis
  proof (cases e)
    case (Var u nm t)
    then have "is_Var e" by simp
    then have "\<forall>(src, tgt) \<in> E. src e = tgt e" using so dflt unfolding sound_override_def by blast
    then show ?thesis using r memo Var by (auto simp: stands_for_def)
  next
    case (Function u ps b t a)
    then show ?thesis using function_agree[OF rec so] m memo r by blast
  next
    case (Call u f as a)
    obtain f' s1 as' s2 where v: "rec f s = Inr (f', s1)" "visit_list rec as s1 = Inr (as', s2)"
      "r = Call (next_addr s2) f' as' a" "s' = s2\<lparr>next_addr := Suc (next_addr s2)\<rparr>"
      using r by (auto simp: Call and_then_eq_Inr)
    have f: "stands_for I E ov f f'" "memo_ok I E ov s1" using rc[OF ch memo v(1)] by (auto simp: Call)
    have as: "list_all2 (stands_for I E ov) as as'" "memo_ok I E ov s2"
      using visit_list_ok[OF rec _ f(2) v(2)] ch by (auto simp: Call)
    have kind: "is_Op f \<or> is_Function f" using mutable_self[OF m] by (simp add: Call)
    have var: "\<forall>x \<in> nodes f. is_Var x \<longrightarrow> src x = tgt x" if st: "(src, tgt) \<in> E" and isf: "is_Function f" for src tgt
    proof -
      obtain w ps b t at where fn: "f = Function w ps b t at" using isf by (cases f) auto
      then have "E = Id \<or> untouched ov f" using mutable_self[OF ch[of f]] by (simp add: Call)
      then show ?thesis using st so by (auto simp: sound_override_def untouched_def)
    qed
    have "eval I tgt r = eval I src e" if "(src, tgt) \<in> E" for src tgt
      unfolding v(3) Call using f(1) that var[OF that]
      by (intro call_value[OF kind _ stands_for_list(1)[OF as(1) that]]) (auto simp: stands_for_def)
    moreover have "eval I env r = eval I env e" if "untouched ov e" for env
      unfolding v(3) Call using f(1) un that
      by (intro call_value[OF kind _ stands_for_list(2)[OF as(1)]]) (auto simp: stands_for_def Call)
    ultimately show ?thesis using as(2) v(4) by (auto simp: stands_for_def Call)
  next
    case (Tuple u es)
    obtain es' s1 where v: "visit_list rec es s = Inr (es', s1)" "r = Tuple (next_addr s1) es'"
      "s' = s1\<lparr>next_addr := Suc (next_addr s1)\<rparr>"
      using r by (auto simp: Tuple and_then_eq_Inr)
    have es: "list_all2 (stands_for I E ov) es es'" "memo_ok I E ov s1"
      using visit_list_ok[OF rec _ memo v(1)] ch by (auto simp: Tuple)
    have "eval I tgt r = eval I src e" if "(src, tgt) \<in> E" for src tgt
      using stands_for_list(1)[OF es(1) that] by (simp add: v(2) Tuple)
    moreover have "eval I env r = eval I env e" if "untouched ov e" for env
      using stands_for_list(2)[OF es(1)] un[OF that] by (simp add: v(2) Tuple)
    ultimately show ?thesis using es(2) v(3) by (auto simp: stands_for_def Tuple)
  next
    case (TupleGetItem u x i)
    obtain x' s1 where v: "rec x s = Inr (x', s1)" "memo_ok I E ov s' = memo_ok I E ov s1"
      "\<And>env. eval I env r = project (eval I env x') i"
      using r by (auto simp: TupleGetItem and_then_eq_Inr split: if_splits)
    have x: "stands_for I E ov x x'" "memo_ok I E ov s1" using rc[OF ch memo v(1)] by (auto simp: TupleGetItem)
    have "eval I tgt r = eval I src e" if "agree I src tgt x x'" for src tgt
      using agree_eval[OF that] by (simp add: v(3) TupleGetItem)
    then show ?thesis using x v(2) un[of x] by (auto simp: stands_for_def TupleGetItem)
  next
    case (LetExpr u x w b)
    then obtain r1 s1 r2 s2 r3 s3 where v: "rec x s = Inr (r1, s1)" "rec w s1 = Inr (r2, s2)" "rec b s2 = Inr (r3, s3)"
      "r = LetExpr (next_addr s3) r1 r2 r3" "s' = s3\<lparr>next_addr := Suc (next_addr s3)\<rparr>"
      using r by (auto simp: and_then_eq_Inr)
    have "memo_ok I E ov s3"
      using mm[OF _ mm[OF _ mm[OF _ memo v(1)] v(2)] v(3)] by (simp add: LetExpr)
    then show ?thesis using v by (simp add: stands_for_def LetExpr)
  next
    case (IfExpr u c x y)
    then obtain r1 s1 r2 s2 r3 s3 where v: "rec c s = Inr (r1, s1)" "rec x s1 = Inr (r2, s2)" "rec y s2 = Inr (r3, s3)"
      "r = IfExpr (next_addr s3) r1 r2 r3" "s' = s3\<lparr>next_addr := Suc (next_addr s3)\<rparr>"
      using r by (auto simp: and_then_eq_Inr)
    have "memo_ok I E ov s3"
      using mm[OF _ mm[OF _ mm[OF _ memo v(1)] v(2)] v(3)] by (simp add: IfExpr)
    then show ?thesis using v by (simp add: stands_for_def IfExpr)
  next
    case (Match u d cs)
    then obtain d' s1 cs' s2 where v: "rec d s = Inr (d', s1)" "visit_list rec cs s1 = Inr (cs', s2)"
      "r = Match (next_addr s2) d' cs'" "s' = s2\<lparr>next_addr := Suc (next_addr s2)\<rparr>"
      using r by (auto simp: and_then_eq_Inr)
    have "memo_ok I E ov s1" using rc[OF ch memo v(1)] by (auto simp: Match)
    then have "memo_ok I E ov s2" using visit_list_ok[OF rec _ _ v(2)] ch by (auto simp: Match)
    then show ?thesis using v by (simp add: stands_for_def Match)
  next
    case (RefCreate u x)
    then show ?thesis using r mm[OF _ memo] by (auto simp: and_then_eq_Inr stands_for_def)
  next
    case (RefRead u x)
    then show ?thesis using r mm[OF _ memo] by (auto simp: and_then_eq_Inr stands_for_def)
  next
    case (RefWrite u x y)
    then obtain r1 s1 r2 s2 where v: "rec x s = Inr (r1, s1)" "rec y s1 = Inr (r2, s2)"
      "r = RefWrite (next_addr s2) r1 r2" "s' = s2\<lparr>next_addr := Suc (next_addr s2)\<rparr>"
      using r by (auto simp: and_then_eq_Inr)
    have "memo_ok I E ov s2" using mm[OF _ mm[OF _ memo v(1)] v(2)] by (simp add: RefWrite)
    then show ?thesis using v by (simp add: stands_for_def RefWrite)
  qed (use r memo in \<open>auto simp: stands_for_def agree_refl\<close>)
qed

lemma mutate_ok: "sound_override I E ov \<Longrightarrow> rec_ok I E ov (mutate k ov)"
proof (induction k)
  case 0
  show ?case by (simp add: rec_ok_def)
next
  case (Suc k)
  note so = Suc.prems and rec = Suc.IH[OF Suc.prems]
  show ?case unfolding rec_ok_def
  proof (intro allI impI)
    fix e s r s'
    assume m: "mutable ov E e" and memo: "memo_ok I E ov s" and r: "mutate (Suc k) ov e s = Inr (r, s')"
    show "stands_for I E ov e r \<and> memo_ok I E ov s'"
    proof (cases "map_of (memo_map s) e")
      case (Some y)
      then show ?thesis using r memo by (auto simp: memo_ok_def)
    next
      case None
      then obtain a s1 where a: "ov e = Inr a" and s1: "s' = s1\<lparr>memo_map := AList.update e r (memo_map s1)\<rparr>"
        and d: "(case a of Return r \<Rightarrow> Inr (r, s) | Visit y \<Rightarrow> mutate k ov y s | Default \<Rightarrow> rebuild (mutate k ov) e s) = Inr (r, s1)"
        using r by (auto simp: dispatch_def and_then_eq_Inr)
      have "stands_for I E ov e r \<and> memo_ok I E ov s1"
      proof (cases a)
        case Default
        then show ?thesis using rebuild_ok[OF rec so m memo] d a by simp
      next
        case (Return y)
        then have "\<not> is_Function e" "\<not> is_Op e" "\<forall>(src, tgt) \<in> E. eval I tgt y = eval I src e"
          using so a unfolding sound_override_def by blast+
        moreover have "\<not> untouched ov e" using a Return by (auto simp: untouched_def intro!: bexI[of _ e])
        ultimately show ?thesis using d a Return memo by (auto simp: stands_for_def agree_value)
      next
        case (Visit y)
        then have "mutable ov E y" using so a m unfolding sound_override_def by blast
        then have y: "stands_for I E ov y r" "memo_ok I E ov s1"
          using rec[unfolded rec_ok_def] memo d Visit by auto
        have "\<not> untouched ov e" using a Visit by (auto simp: untouched_def intro!: bexI[of _ e])
        moreover have "\<not> is_Function e" "\<not> is_Op e" "\<forall>(src, tgt) \<in> E. eval I src y = eval I src e"
          using so a Visit unfolding sound_override_def by blast+
        moreover have "eval I tgt r = eval I src y" if "(src, tgt) \<in> E" for src tgt
          using y(1) that agree_eval unfolding stands_for_def by blast
        ultimately show ?thesis using y(2) a Visit by (auto simp: stands_for_def agree_value)
      qed
      then show ?thesis using s1 by (auto simp: memo_ok_def update_conv')
    qed
  qed
qed


section \<open>The subclasses keep the meaning\<close>

theorem visit_new_sound:
  assumes "sound_override I E ov" and "mutable ov E e" and "visit_new limit ov e n = Inr (r, n')"
  shows "stands_for I E ov e r"
proof -
  obtain s' where "mutate limit ov e \<lparr>memo_map = [], next_addr = n\<rparr> = Inr (r, s')"
    using assms(3) by (auto simp: visit_new_def and_then_eq_Inr)
  moreover have "memo_ok I E ov \<lparr>memo_map = [], next_addr = n\<rparr>" by (simp add: memo_ok_def)
  ultimately show ?thesis using mutate_ok[OF assms(1), of limit] assms(2) unfolding rec_ok_def by blast
qed

definition well_formed :: "expr \<Rightarrow> bool" where
  "well_formed e \<longleftrightarrow> (\<forall>x \<in> nodes e. case x of
      Call u f as a \<Rightarrow> is_Op f \<or> is_Function f
    | Function u ps b t a \<Rightarrow> list_all is_Var ps
    | _ \<Rightarrow> True)"

lemma mutable_everywhere: "well_formed e \<Longrightarrow> mutable ov Id e"
  unfolding well_formed_def mutable_def by (intro ballI) (case_tac x; force)

lemma well_formed_child: "well_formed e \<Longrightarrow> k \<in> set (children True e) \<Longrightarrow> well_formed k"
  using nodes_child by (fastforce simp: well_formed_def)

lemma well_formed_node: "well_formed e \<Longrightarrow> x \<in> nodes e \<Longrightarrow> well_formed x"
  unfolding well_formed_def by (meson subs_trans)


lemma emit_override_Visit:
  "emit_override x = Inr (Visit y) \<longleftrightarrow> (\<exists>u v es i. x = TupleGetItem u (Tuple v es) i \<and> i < length es \<and> y = es ! i)"
  by (cases x rule: emit_override.cases) (auto simp: and_then_eq_Inr split: if_splits)

lemma emit_override_no_Return: "emit_override x \<noteq> Inr (Return y)"
  by (cases x rule: emit_override.cases) (auto simp: and_then_eq_Inr)

lemma emit_sound_override: "sound_override I Id emit_override"
proof -
  have val: "eval I env y = eval I env x" and kind: "\<not> is_Function x \<and> \<not> is_Op x"
    if "emit_override x = Inr (Visit y)" for x y env
    using that unfolding emit_override_Visit by (auto simp: project_def)
  have var: "emit_override v = Inr Default" if "is_Var v" for v using that by (cases v) auto
  have "mutable emit_override (Id :: 'a env_rel) y"
    if m: "mutable emit_override (Id :: 'a env_rel) x" and e: "emit_override x = Inr (Visit y)" for x y
  proof -
    obtain u v es i where x: "x = TupleGetItem u (Tuple v es) i" "i < length es" "y = es ! i"
      using e by (auto simp: emit_override_Visit)
    show ?thesis using mutable_child[OF mutable_child[OF m, of "Tuple v es"], of y] x by simp
  qed
  then show ?thesis unfolding sound_override_def using val kind var emit_override_no_Return by auto
qed

lemma EmitTuple_agree:
  assumes "well_formed e" and "EmitTuple limit e n = Inr (r, n')"
  shows "agree I env env e r"
  using visit_new_sound[OF emit_sound_override[of I] mutable_everywhere[OF assms(1)] assms(2)[unfolded EmitTuple_def]]
  by (auto simp: stands_for_def)

lemma replace_override_Visit:
  "replace_override m x = Inr (Visit y) \<longleftrightarrow> map_of m x = Some y \<and> (is_Call x \<or> is_TupleGetItem x)"
  by (cases x) (auto split: option.splits)

lemma replace_override_Return:
  "replace_override m x = Inr (Return y) \<Longrightarrow> map_of m x = Some y \<and> \<not> is_Function x \<and> \<not> is_Op x"
  by (cases x) (auto split: option.splits)

lemma replace_override_Default: "map_of m x = None \<Longrightarrow> replace_override m x = Inr Default"
  by (cases x) auto

text \<open>A map from expressions to expressions of the same value: where a call or a projection is
  replaced, the replacement is visited in turn, a variable or a constant is replaced as it is.\<close>

definition sound_map :: "'v interp \<Rightarrow> 'v env_rel \<Rightarrow> (expr, expr) dict \<Rightarrow> bool" where
  "sound_map I E m \<longleftrightarrow> (\<forall>x y. map_of m x = Some y \<longrightarrow>
     (if is_Call x \<or> is_TupleGetItem x then mutable (replace_override m) E y \<and> (\<forall>(src, tgt) \<in> E. eval I src y = eval I src x)
      else (\<forall>(src, tgt) \<in> E. eval I tgt y = eval I src x)))"

lemma replace_sound_override:
  assumes m: "sound_map I E m" and id: "E = Id \<longrightarrow> (\<forall>v. is_Var v \<longrightarrow> map_of m v = None)"
    and other: "\<forall>v. is_Var v \<and> map_of m v = None \<longrightarrow> (\<forall>(src, tgt) \<in> E. src v = tgt v)"
  shows "sound_override I E (replace_override m)"
proof -
  have visit: "\<not> is_Function x \<and> \<not> is_Op x \<and> mutable (replace_override m) E y \<and> (\<forall>(src, tgt) \<in> E. eval I src y = eval I src x)"
    if "replace_override m x = Inr (Visit y)" for x y
  proof -
    have x: "map_of m x = Some y" "is_Call x \<or> is_TupleGetItem x" using that by (simp_all add: replace_override_Visit)
    then have "\<not> is_Function x \<and> \<not> is_Op x" by (cases x) auto
    then show ?thesis using x m unfolding sound_map_def by (metis (no_types, lifting))
  qed
  have ret: "\<not> is_Function x \<and> \<not> is_Op x \<and> (\<forall>(src, tgt) \<in> E. eval I tgt y = eval I src x)"
    if "replace_override m x = Inr (Return y)" for x y
  proof -
    have "map_of m x = Some y" "\<not> is_Function x" "\<not> is_Op x" "\<not> (is_Call x \<or> is_TupleGetItem x)"
      using that by (cases x; auto split: option.splits)+
    then show ?thesis using m unfolding sound_map_def by (metis (no_types, lifting))
  qed
  have dflt: "map_of m v = None" if "is_Var v" "replace_override m v = Inr Default" for v
    using that by (cases v) (auto split: option.splits)
  show ?thesis unfolding sound_override_def
    using visit ret dflt other id replace_override_Default by blast
qed

text \<open>Replacing calls and projections by expressions that always have the same value.\<close>

lemma ReplaceParams_agree:
  assumes "\<forall>x y. map_of m x = Some y \<longrightarrow> \<not> is_Var x \<and> well_formed y \<and> (\<forall>env. eval I env y = eval I env x)"
    and "well_formed e" and "ReplaceParams limit m e n = Inr (r, n')"
  shows "agree I env env e r"
proof -
  have "sound_override I Id (replace_override m)"
  proof (rule replace_sound_override)
    show "sound_map I Id m"
      unfolding sound_map_def using assms(1) by (auto simp: case_prod_beta intro: mutable_everywhere)
    show "(Id :: ('a env \<times> 'a env) set) = Id \<longrightarrow> (\<forall>v. is_Var v \<longrightarrow> map_of m v = None)"
      using assms(1) by (metis option.exhaust)
  qed auto
  from visit_new_sound[OF this mutable_everywhere[OF assms(2)] assms(3)[unfolded ReplaceParams_def]]
  show ?thesis by (auto simp: stands_for_def)
qed

text \<open>Replacing for one pair of environments: the functions the expression calls must not contain
  what is replaced.\<close>

definition avoids :: "(expr, expr) dict \<Rightarrow> expr \<Rightarrow> bool" where
  "avoids m e \<longleftrightarrow> (\<forall>f \<in> nodes e. is_Function f \<longrightarrow> (\<forall>x \<in> nodes f. map_of m x = None))"

lemma mutable_avoids: "well_formed e \<Longrightarrow> avoids m e \<Longrightarrow> mutable (replace_override m) E e"
  unfolding mutable_def
proof
  fix x assume wf: "well_formed e" and av: "avoids m e" and x: "x \<in> nodes e"
  show "node_ok (replace_override m) E x"
  proof (cases x)
    case (Function u ps b t a)
    then have "untouched (replace_override m) x"
      using av x by (auto simp: avoids_def untouched_def intro!: replace_override_Default)
    then show ?thesis using wf x by (force simp: Function well_formed_def)
  qed (use wf x in \<open>force simp: well_formed_def\<close>)+
qed

lemma pair_not_Id: "{(src, tgt)} \<noteq> (Id :: 'v env_rel)"
proof
  assume "{(src, tgt)} = (Id :: 'v env_rel)"
  then have "((\<lambda>_. TupleV []), (\<lambda>_. TupleV [])) \<in> {(src, tgt)}" and "((\<lambda>_. UndefV), (\<lambda>_. UndefV)) \<in> {(src, tgt)}" by simp_all
  then show False by (metis Pair_inject singletonD val.distinct(5))
qed

lemma ReplaceParams_eval:
  assumes "\<forall>x y. map_of m x = Some y \<longrightarrow>
     (if is_Call x \<or> is_TupleGetItem x then well_formed y \<and> avoids m y \<and> eval I src y = eval I src x
      else eval I tgt y = eval I src x)"
    and other: "\<forall>v. is_Var v \<and> map_of m v = None \<longrightarrow> src v = tgt v"
    and e: "well_formed e" "avoids m e" and r: "ReplaceParams limit m e n = Inr (r, n')"
  shows "agree I src tgt e r"
proof -
  have "sound_map I {(src, tgt)} m"
    unfolding sound_map_def
  proof (intro allI impI)
    fix x y assume "map_of m x = Some y"
    then have *: "if is_Call x \<or> is_TupleGetItem x then well_formed y \<and> avoids m y \<and> eval I src y = eval I src x
      else eval I tgt y = eval I src x" using assms(1) by blast
    then show "if is_Call x \<or> is_TupleGetItem x
      then mutable (replace_override m) {(src, tgt)} y \<and> (\<forall>(src, tgt) \<in> {(src, tgt)}. eval I src y = eval I src x)
      else \<forall>(src, tgt) \<in> {(src, tgt)}. eval I tgt y = eval I src x"
      by (cases "is_Call x \<or> is_TupleGetItem x") (simp_all add: mutable_avoids)
  qed
  then have "sound_override I {(src, tgt)} (replace_override m)"
    using replace_sound_override other pair_not_Id[of src tgt] by blast
  from visit_new_sound[OF this mutable_avoids[OF e] r[unfolded ReplaceParams_def]]
  show ?thesis by (simp add: stands_for_def)
qed

section \<open>Enough nested visits give a result\<close>

definition returns :: "(expr \<Rightarrow> mstate \<Rightarrow> (expr \<times> mstate) res) \<Rightarrow> expr \<Rightarrow> bool" where
  "returns rec e \<longleftrightarrow> (\<forall>s. \<exists>r s'. rec e s = Inr (r, s'))"

lemma visit_list_returns: "\<forall>e \<in> set es. returns rec e \<Longrightarrow> \<exists>rs s'. visit_list rec es s = Inr (rs, s')"
proof (induction es arbitrary: s)
  case (Cons e es)
  then obtain r s1 where "rec e s = Inr (r, s1)" unfolding returns_def by force
  moreover obtain rs s2 where "visit_list rec es s1 = Inr (rs, s2)" using Cons by force
  ultimately show ?case by simp
qed simp

lemma new_node_returns: "\<exists>r s'. new_node mk s = Inr (r, s')"
  by (simp add: new_node_def)

lemma bind_returns:
  assumes "\<exists>r s'. m = Inr (r, s')" and "\<And>r s'. m = Inr (r, s') \<Longrightarrow> \<exists>q t. f (r, s') = Inr (q, t)"
  shows "\<exists>q t. and_then m f = Inr (q, t)"
  using assms by auto

lemma rebuild_returns:
  assumes "\<forall>k \<in> set (children True e). returns rec k"
  shows "\<exists>r s'. rebuild rec e s = Inr (r, s')"
proof -
  have rec: "\<exists>r s'. rec k s = Inr (r, s')" if "k \<in> set (children True e)" for k s
    using assms that unfolding returns_def by blast
  have list: "\<exists>rs s'. visit_list rec es s = Inr (rs, s')" if "set es \<subseteq> set (children True e)" for es s
    by (rule visit_list_returns) (use assms that in blast)
  show ?thesis
    by (cases e) (auto intro!: bind_returns rec list new_node_returns simp: case_prod_beta)
qed

lemma mutate_returns_step:
  assumes "\<exists>a. ov e = Inr a" and "\<forall>y. ov e = Inr (Visit y) \<longrightarrow> returns (mutate k ov) y"
    and "ov e = Inr Default \<longrightarrow> (\<forall>c \<in> set (children True e). returns (mutate k ov) c)"
  shows "returns (mutate (Suc k) ov) e"
  unfolding returns_def
proof
  fix s
  obtain a where a: "ov e = Inr a" using assms(1) ..
  have "\<exists>r s'. dispatch ov (mutate k ov) e s = Inr (r, s')"
    using a assms(2,3) rebuild_returns[of e "mutate k ov" s]
    by (cases a) (auto simp: dispatch_def returns_def)
  then show "\<exists>r s'. mutate (Suc k) ov e s = Inr (r, s')"
    by (cases "map_of (memo_map s) e") auto
qed

lemma mutate_untouched_returns: "untouched ov e \<Longrightarrow> size e < k \<Longrightarrow> returns (mutate k ov) e"
proof (induction k arbitrary: e)
  case (Suc k)
  have "ov e = Inr Default" using Suc.prems(1) by (simp add: untouched_def)
  moreover have "returns (mutate k ov) c" if "c \<in> set (children True e)" for c
    using Suc.IH[OF untouched_child[OF Suc.prems(1) that]] children_size[OF that] Suc.prems(2) by simp
  ultimately show ?case by (intro mutate_returns_step) auto
qed simp

theorem mutate_returns:
  assumes "\<forall>x. \<exists>a. ov x = Inr a" and "\<forall>x y. ov x = Inr (Visit y) \<longrightarrow> untouched ov y \<and> size y \<le> B"
  shows "size e + B + 1 < k \<Longrightarrow> returns (mutate k ov) e"
proof (induction k arbitrary: e)
  case (Suc k)
  show ?case
  proof (rule mutate_returns_step)
    show "\<exists>a. ov e = Inr a" using assms(1) by blast
    show "\<forall>y. ov e = Inr (Visit y) \<longrightarrow> returns (mutate k ov) y"
    proof (intro allI impI)
      fix y assume "ov e = Inr (Visit y)"
      then have "untouched ov y" "size y \<le> B" using assms(2) by blast+
      then show "returns (mutate k ov) y" using mutate_untouched_returns[of ov y k] Suc.prems by simp
    qed
    show "ov e = Inr Default \<longrightarrow> (\<forall>c \<in> set (children True e). returns (mutate k ov) c)"
      using Suc.IH children_size Suc.prems by fastforce
  qed
qed simp

lemma visit_new_returns:
  assumes "\<forall>x. \<exists>a. ov x = Inr a" and "\<forall>x y. ov x = Inr (Visit y) \<longrightarrow> untouched ov y \<and> size y \<le> B"
    and "size e + B + 1 < limit"
  shows "\<exists>r n'. visit_new limit ov e n = Inr (r, n')"
proof -
  obtain r s' where "mutate limit ov e \<lparr>memo_map = [], next_addr = n\<rparr> = Inr (r, s')"
    using mutate_returns[OF assms] unfolding returns_def by blast
  then show ?thesis by (simp add: visit_new_def)
qed



section \<open>Addresses are used once\<close>

definition grows :: "mstate \<Rightarrow> ('a \<times> mstate) res \<Rightarrow> bool" where
  "grows s m \<longleftrightarrow> (\<forall>r s'. m = Inr (r, s') \<longrightarrow> next_addr s \<le> next_addr s')"

definition rec_grows :: "(expr \<Rightarrow> mstate \<Rightarrow> (expr \<times> mstate) res) \<Rightarrow> bool" where
  "rec_grows rec \<longleftrightarrow> (\<forall>e s. grows s (rec e s))"

lemma grows_bind: "grows s m \<Longrightarrow> (\<And>r s'. grows s' (f (r, s'))) \<Longrightarrow> grows s (and_then m f)"
  unfolding grows_def by (auto simp: and_then_eq_Inr intro: le_trans)

lemma grows_memo [simp]: "grows s (Inr (r, s\<lparr>memo_map := m\<rparr>))"
  by (simp add: grows_def)

lemma grows_return [simp]: "grows s (Inr (r, s))" "grows s (new_node mk s)" "grows s (Inl e)"
  by (auto simp: grows_def new_node_def)

lemma rec_growsD: "rec_grows rec \<Longrightarrow> rec e s = Inr (r, s') \<Longrightarrow> next_addr s \<le> next_addr s'"
  unfolding rec_grows_def grows_def by blast

lemma visit_list_grows: "rec_grows rec \<Longrightarrow> grows s (visit_list rec es s)"
proof (induction es arbitrary: s)
  case (Cons e es)
  have "grows s (rec e s)" using Cons.prems by (simp add: rec_grows_def)
  then show ?case using Cons by (auto intro!: grows_bind)
qed simp

lemma rebuild_grows:
  assumes "rec_grows rec"
  shows "grows s (rebuild rec e s)"
proof -
  have rec: "grows s (rec e s)" and lst: "grows s (visit_list rec es s)" for e es s
    using assms visit_list_grows[OF assms] by (simp_all add: rec_grows_def)
  show ?thesis by (cases e) (auto intro!: grows_bind rec lst)
qed

lemma mutate_grows: "rec_grows (mutate k ov)"
proof (induction k)
  case (Suc k)
  have "grows s (dispatch ov (mutate k ov) e s)" for e s
    unfolding dispatch_def
    by (cases "ov e") (use Suc rebuild_grows[OF Suc] in \<open>auto simp: rec_grows_def split: override.splits\<close>)
  then have "grows s (mutate (Suc k) ov e s)" for e s
    by (cases "map_of (memo_map s) e") (auto intro!: grows_bind)
  then show ?case by (simp add: rec_grows_def)
qed (simp add: rec_grows_def)

lemma visit_new_grows: "visit_new limit ov e n = Inr (r, n') \<Longrightarrow> n \<le> n'"
  by (auto simp: visit_new_def and_then_eq_Inr dest: rec_growsD[OF mutate_grows])

end
