(* ===== verification/Py_Strings.thy ===== *)
theory Py_Strings
  imports Prelude
begin

text \<open>
  The string operations of Python that the MLIR reader and the code generators use, on
  \<^typ>\<open>string\<close>, as executable functions: searching, slicing with negative indices, replacing,
  splitting, joining, and the conversions between integers and decimal strings; with the laws
  the components rely on (splitting undoes joining, \<^verbatim>\<open>int\<close> undoes \<^verbatim>\<open>str\<close>, names with different
  numbers differ).
\<close>

section \<open>Searching and slicing\<close>

definition py_startswith :: "string \<Rightarrow> string \<Rightarrow> bool" where
  "py_startswith s p \<longleftrightarrow> take (length p) s = p"

definition py_endswith :: "string \<Rightarrow> string \<Rightarrow> bool" where
  "py_endswith s p \<longleftrightarrow> length p \<le> length s \<and> drop (length s - length p) s = p"

text \<open>\<^verbatim>\<open>sub in s\<close>\<close>

fun py_in :: "string \<Rightarrow> string \<Rightarrow> bool" where
  "py_in sub [] = (sub = [])"
| "py_in sub (c # cs) = (py_startswith (c # cs) sub \<or> py_in sub cs)"

text \<open>\<^verbatim>\<open>s.find(sub)\<close>, \<open>-1\<close> when absent\<close>

fun py_find_nat :: "string \<Rightarrow> string \<Rightarrow> nat option" where
  "py_find_nat [] sub = (if sub = [] then Some 0 else None)"
| "py_find_nat (c # cs) sub =
     (if py_startswith (c # cs) sub then Some 0 else map_option Suc (py_find_nat cs sub))"

definition py_find :: "string \<Rightarrow> string \<Rightarrow> int" where
  "py_find s sub = (case py_find_nat s sub of None \<Rightarrow> - 1 | Some n \<Rightarrow> int n)"

text \<open>\<^verbatim>\<open>s[i:j]\<close>: a negative bound counts from the end, bounds are clipped\<close>

definition py_bound :: "nat \<Rightarrow> int \<Rightarrow> nat" where
  "py_bound n i = min n (nat (if i < 0 then int n + i else i))"

definition py_slice :: "'a list \<Rightarrow> int \<Rightarrow> int \<Rightarrow> 'a list" where
  "py_slice s i j = drop (py_bound (length s) i) (take (py_bound (length s) j) s)"

text \<open>\<^verbatim>\<open>s.count(sub)\<close> for a non-empty \<^verbatim>\<open>sub\<close>: occurrences that do not overlap\<close>

function py_count :: "string \<Rightarrow> string \<Rightarrow> nat" where
  "py_count [] sub = 0"
| "py_count (c # cs) sub =
     (if py_startswith (c # cs) sub then Suc (py_count (drop (length sub - 1) cs) sub)
      else py_count cs sub)"
  by pat_completeness auto
termination by (relation "measure (\<lambda>(s, sub). length s)") auto


section \<open>Replacing\<close>

text \<open>\<^verbatim>\<open>s.replace(old, new)\<close> for a non-empty \<^verbatim>\<open>old\<close>: left to right, no overlap\<close>

function py_replace :: "string \<Rightarrow> string \<Rightarrow> string \<Rightarrow> string" where
  "py_replace [] old new = []"
| "py_replace (c # cs) old new =
     (if py_startswith (c # cs) old then new @ py_replace (drop (length old - 1) cs) old new
      else c # py_replace cs old new)"
  by pat_completeness auto
termination by (relation "measure (\<lambda>(s, old, new). length s)") auto

text \<open>\<^verbatim>\<open>s.replace(old, new, 1)\<close>\<close>

fun py_replace1 :: "string \<Rightarrow> string \<Rightarrow> string \<Rightarrow> string" where
  "py_replace1 [] old new = []"
| "py_replace1 (c # cs) old new =
     (if py_startswith (c # cs) old then new @ drop (length old - 1) cs
      else c # py_replace1 cs old new)"


section \<open>Splitting and joining\<close>

text \<open>\<^verbatim>\<open>s.split(sep)\<close> for a non-empty \<^verbatim>\<open>sep\<close>\<close>

function split_go :: "string \<Rightarrow> string \<Rightarrow> string \<Rightarrow> string list" where
  "split_go sep acc [] = [rev acc]"
| "split_go sep acc (c # cs) =
     (if py_startswith (c # cs) sep then rev acc # split_go sep [] (drop (length sep - 1) cs)
      else split_go sep (c # acc) cs)"
  by pat_completeness auto
termination by (relation "measure (\<lambda>(sep, acc, s). length s)") auto

definition py_split :: "string \<Rightarrow> string \<Rightarrow> string list" where
  "py_split s sep = split_go sep [] s"

text \<open>\<^verbatim>\<open>s.split()\<close> and \<^verbatim>\<open>s.strip()\<close>: runs of whitespace\<close>

definition is_space :: "char \<Rightarrow> bool" where
  "is_space c \<longleftrightarrow> c \<in> {CHR '' '', CHR 0x09, CHR 0x0A, CHR 0x0B, CHR 0x0C, CHR 0x0D}"

fun split_ws_go :: "string \<Rightarrow> string \<Rightarrow> string list" where
  "split_ws_go acc [] = (if acc = [] then [] else [rev acc])"
| "split_ws_go acc (c # cs) =
     (if is_space c then (if acc = [] then split_ws_go [] cs else rev acc # split_ws_go [] cs)
      else split_ws_go (c # acc) cs)"

definition py_split_ws :: "string \<Rightarrow> string list" where
  "py_split_ws s = split_ws_go [] s"

definition py_strip :: "string \<Rightarrow> string" where
  "py_strip s = rev (dropWhile is_space (rev (dropWhile is_space s)))"

text \<open>\<^verbatim>\<open>sep.join(xs)\<close>\<close>

fun py_join :: "string \<Rightarrow> string list \<Rightarrow> string" where
  "py_join sep [] = []"
| "py_join sep [x] = x"
| "py_join sep (x # y # ys) = x @ sep @ py_join sep (y # ys)"


section \<open>Numbers\<close>

definition digit_char :: "nat \<Rightarrow> char" where
  "digit_char d = ''0123456789'' ! d"

fun str_of_nat :: "nat \<Rightarrow> string" where
  "str_of_nat n = (if n < 10 then [digit_char n] else str_of_nat (n div 10) @ [digit_char (n mod 10)])"

declare str_of_nat.simps [simp del]

definition str_of_int :: "int \<Rightarrow> string" where
  "str_of_int i = (if i < 0 then CHR ''-'' # str_of_nat (nat (- i)) else str_of_nat (nat i))"

definition py_isdigit :: "char \<Rightarrow> bool" where
  "py_isdigit c \<longleftrightarrow> c \<in> set ''0123456789''"

text \<open>\<^verbatim>\<open>int(s)\<close>: blanks around, an optional sign, digits with single underscores inside\<close>

fun int_digits :: "nat \<Rightarrow> string \<Rightarrow> nat res" where
  "int_digits n [] = Inr n"
| "int_digits n (c # cs) =
     (case py_index ''0123456789'' c of
        Inr d \<Rightarrow> int_digits (10 * n + d) cs
      | Inl _ \<Rightarrow>
          if c = CHR ''_'' then
            (case cs of
               [] \<Rightarrow> Inl ValueError
             | d # _ \<Rightarrow> if py_isdigit d then int_digits n cs else Inl ValueError)
          else Inl ValueError)"

definition int_unsigned :: "string \<Rightarrow> nat res" where
  "int_unsigned s =
     (case s of [] \<Rightarrow> Inl ValueError
      | c # _ \<Rightarrow> if py_isdigit c then int_digits 0 s else Inl ValueError)"

definition py_int :: "string \<Rightarrow> int res" where
  "py_int s0 =
     (let s = py_strip s0 in
      case s of
        [] \<Rightarrow> Inl ValueError
      | c # cs \<Rightarrow>
          if c = CHR ''-'' then and_then (int_unsigned cs) (\<lambda>n. Inr (- int n))
          else if c = CHR ''+'' then and_then (int_unsigned cs) (\<lambda>n. Inr (int n))
          else and_then (int_unsigned s) (\<lambda>n. Inr (int n)))"


section \<open>Laws\<close>

lemma py_startswith_Nil [simp]: "py_startswith s []"
  by (simp add: py_startswith_def)

lemma py_startswith_Cons [simp]:
  "py_startswith (c # cs) (d # ds) \<longleftrightarrow> c = d \<and> py_startswith cs ds"
  "\<not> py_startswith [] (d # ds)"
  by (auto simp: py_startswith_def)

lemma py_startswith_append [simp]: "py_startswith (p @ s) p"
  by (simp add: py_startswith_def)

lemma py_in_single: "py_in [c] s \<longleftrightarrow> c \<in> set s"
  by (induction s) auto

lemma py_replace_absent: "\<not> py_in old s \<Longrightarrow> py_replace s old new = s"
  by (induction s) auto

lemma split_go_free: "c \<notin> set s \<Longrightarrow> split_go [c] acc s = [rev acc @ s]"
  by (induction s arbitrary: acc) auto

lemma split_go_append:
  "c \<notin> set s \<Longrightarrow> split_go [c] acc (s @ c # t) = (rev acc @ s) # split_go [c] [] t"
  by (induction s arbitrary: acc) auto

lemma py_split_free: "c \<notin> set s \<Longrightarrow> py_split s [c] = [s]"
  by (simp add: py_split_def split_go_free)

lemma py_split_append: "c \<notin> set s \<Longrightarrow> py_split (s @ c # t) [c] = s # py_split t [c]"
  by (simp add: py_split_def split_go_append)

text \<open>Splitting at a character undoes joining with it.\<close>

lemma py_split_join:
  "xs \<noteq> [] \<Longrightarrow> (\<And>x. x \<in> set xs \<Longrightarrow> c \<notin> set x) \<Longrightarrow> py_split (py_join [c] xs) [c] = xs"
proof (induction "[c]" xs rule: py_join.induct)
  case (2 x)
  then show ?case by (simp add: py_split_free)
next
  case (3 x y ys)
  then show ?case by (simp add: py_split_append)
qed simp

lemma py_join_split: "py_join sep (py_split s sep) = s" if "sep = [c]" for c
proof -
  have "split_go [c] acc s \<noteq> [] \<and> py_join [c] (split_go [c] acc s) = rev acc @ s" for acc
  proof (induction s arbitrary: acc)
    case (Cons d s)
    from Cons[of "[]"] Cons[of "d # acc"] show ?case
      by (cases "split_go [c] [] s") auto
  qed simp
  from this[of "[]"] show ?thesis by (simp add: py_split_def that)
qed

lemma digit_char_less10: "d < 10 \<Longrightarrow> d = 0 \<or> d = 1 \<or> d = 2 \<or> d = 3 \<or> d = 4 \<or> d = 5 \<or> d = 6 \<or>
   d = 7 \<or> d = 8 \<or> d = (9::nat)"
  by arith

lemma py_index_digit [simp]: "d < 10 \<Longrightarrow> py_index ''0123456789'' (digit_char d) = Inr d"
  by (drule digit_char_less10, elim disjE) (simp_all add: digit_char_def)

lemma digit_char_isdigit [simp]: "d < 10 \<Longrightarrow> py_isdigit (digit_char d)"
  by (drule digit_char_less10, elim disjE) (simp_all add: digit_char_def py_isdigit_def)

lemma str_of_nat_digits: "c \<in> set (str_of_nat n) \<Longrightarrow> py_isdigit c"
proof (induction n rule: str_of_nat.induct)
  case (1 n)
  then show ?case by (subst (asm) (2) str_of_nat.simps) (auto split: if_splits)
qed

lemma str_of_nat_nonempty [simp]: "str_of_nat n \<noteq> []"
  by (subst str_of_nat.simps) simp

lemma int_digits_append_digit:
  "int_digits m s = Inr k \<Longrightarrow> d < 10 \<Longrightarrow> int_digits m (s @ [digit_char d]) = Inr (10 * k + d)"
proof (induction m s arbitrary: k rule: int_digits.induct)
  case (1 n)
  then show ?case by (simp del: py_index.simps)
next
  case (2 n c cs)
  show ?case
  proof (cases "py_index ''0123456789'' c")
    case (Inr e)
    with 2 show ?thesis by (simp del: py_index.simps)
  next
    case (Inl err)
    with 2(3) obtain e es where "c = CHR ''_''" and "cs = e # es" and "py_isdigit e"
        and "int_digits n cs = Inr k"
      by (cases cs) (simp_all del: py_index.simps split: if_splits)
    with 2(1)[OF Inl] 2(4) Inl show ?thesis by (simp del: py_index.simps)
  qed
qed

lemma int_digits_str_of_nat: "int_digits 0 (str_of_nat n) = Inr n"
proof (induction n rule: str_of_nat.induct)
  case (1 n)
  show ?case
  proof (cases "n < 10")
    case True
    then show ?thesis by (simp add: str_of_nat.simps[of n] del: py_index.simps)
  next
    case False
    then have "int_digits 0 (str_of_nat (n div 10)) = Inr (n div 10)" using 1 by simp
    from int_digits_append_digit[OF this, of "n mod 10"] False show ?thesis
      by (simp add: str_of_nat.simps[of n])
  qed
qed

lemma py_isdigit_not_space: "py_isdigit c \<Longrightarrow> \<not> is_space c \<and> c \<noteq> CHR ''-'' \<and> c \<noteq> CHR ''+''"
  by (auto simp: py_isdigit_def is_space_def)

lemma py_strip_no_space: "(\<And>c. c \<in> set s \<Longrightarrow> \<not> is_space c) \<Longrightarrow> py_strip s = s"
proof -
  assume ns: "\<And>c. c \<in> set s \<Longrightarrow> \<not> is_space c"
  have "dropWhile is_space t = t" if "set t \<subseteq> set s" for t
    using that ns by (cases t) auto
  then show ?thesis by (simp add: py_strip_def)
qed

lemma int_unsigned_str_of_nat: "int_unsigned (str_of_nat n) = Inr n"
proof (cases "str_of_nat n")
  case (Cons c cs)
  then have "py_isdigit c" using str_of_nat_digits[of c n] by simp
  with Cons show ?thesis using int_digits_str_of_nat[of n] by (simp add: int_unsigned_def)
qed simp

text \<open>\<^verbatim>\<open>int(str(i)) == i\<close>.\<close>

lemma py_int_str_of_int: "py_int (str_of_int i) = Inr i"
proof (cases "i < 0")
  case True
  have "\<not> is_space c" if "c \<in> set (str_of_int i)" for c
    using that True py_isdigit_not_space str_of_nat_digits
    by (auto simp: str_of_int_def is_space_def)
  then have "py_strip (str_of_int i) = str_of_int i" by (rule py_strip_no_space)
  with True show ?thesis
    by (simp add: py_int_def Let_def str_of_int_def int_unsigned_str_of_nat)
next
  case False
  have ns: "\<not> is_space c" if "c \<in> set (str_of_int i)" for c
    using that False py_isdigit_not_space str_of_nat_digits by (auto simp: str_of_int_def)
  obtain c cs where c: "str_of_nat (nat i) = c # cs" by (cases "str_of_nat (nat i)") auto
  then have "py_isdigit c" using str_of_nat_digits[of c "nat i"] by simp
  moreover have "py_strip (str_of_int i) = str_of_int i" using ns by (rule py_strip_no_space)
  ultimately show ?thesis using c False py_isdigit_not_space[of c] int_unsigned_str_of_nat[of "nat i"]
    by (simp add: py_int_def Let_def str_of_int_def)
qed

lemma str_of_nat_inj [simp]: "str_of_nat m = str_of_nat n \<longleftrightarrow> m = n"
  by (metis int_digits_str_of_nat sum.inject(2))

lemma underscore_not_in_str_of_nat [simp]: "CHR ''_'' \<notin> set (str_of_nat n)"
  using str_of_nat_digits[of "CHR ''_''" n] by (auto simp: py_isdigit_def)


section \<open>Words and parts\<close>

lemma split_go_nonempty [simp]: "split_go sep acc s \<noteq> []"
  by (induction sep acc s rule: split_go.induct) auto

lemma py_find_nat_append: "c \<notin> set s \<Longrightarrow> py_find_nat (s @ c # t) [c] = Some (length s)"
  by (induction s) auto

lemma py_find_append: "c \<notin> set s \<Longrightarrow> py_find (s @ c # t) [c] = int (length s)"
  by (simp add: py_find_def py_find_nat_append)

lemma split_go2_free: "c \<notin> set s \<Longrightarrow> split_go [c, d] acc s = [rev acc @ s]"
  by (induction s arbitrary: acc) auto

lemma split_go2_append: "c \<notin> set s \<Longrightarrow> split_go [c, d] acc (s @ c # d # t) = (rev acc @ s) # split_go [c, d] [] t"
  by (induction s arbitrary: acc) auto

lemma py_split_join2:
  "xs \<noteq> [] \<Longrightarrow> (\<And>x. x \<in> set xs \<Longrightarrow> c \<notin> set x) \<Longrightarrow> py_split (py_join [c, d] xs) [c, d] = xs"
proof (induction "[c, d]" xs rule: py_join.induct)
  case (2 x)
  then show ?case by (simp add: py_split_def split_go2_free)
next
  case (3 x y ys)
  then show ?case by (simp add: py_split_def split_go2_append)
qed simp

lemma set_py_join: "set (py_join sep xs) \<subseteq> set sep \<union> \<Union> (set ` set xs)"
  by (induction sep xs rule: py_join.induct) auto

lemma split_ws_go_word:
  "(\<And>c. c \<in> set w \<Longrightarrow> \<not> is_space c) \<Longrightarrow> acc @ w \<noteq> [] \<Longrightarrow> split_ws_go acc (w @ CHR '' '' # t) = (rev acc @ w) # split_ws_go [] t"
proof (induction w arbitrary: acc)
  case Nil
  then show ?case by (simp add: is_space_def)
next
  case (Cons c w)
  then show ?case by simp
qed

lemma py_split_ws_word:
  "(\<And>c. c \<in> set w \<Longrightarrow> \<not> is_space c) \<Longrightarrow> w \<noteq> [] \<Longrightarrow> py_split_ws (w @ CHR '' '' # t) = w # py_split_ws t"
  unfolding py_split_ws_def using split_ws_go_word[of w "[]"] by simp

lemma py_replace_self: "py_replace s [c] [c] = s"
  by (induction s) auto

lemma digit_plain: "py_isdigit c \<Longrightarrow> c \<noteq> CHR '','' \<and> c \<noteq> CHR '')'' \<and> c \<noteq> CHR ''('' \<and> c \<noteq> CHR ''#'' \<and> c \<noteq> CHR '':'' \<and> \<not> is_space c"
  by (auto simp: py_isdigit_def is_space_def)

lemma str_of_int_chars: "c \<in> set (str_of_int i) \<Longrightarrow> \<not> is_space c \<and> c \<noteq> CHR '','' \<and> c \<noteq> CHR '')'' \<and> c \<noteq> CHR ''(''"
  using str_of_nat_digits[of c] digit_plain[of c] by (auto simp: str_of_int_def is_space_def split: if_splits)

lemma split_ws_go_words:
  "\<forall>c \<in> set acc. \<not> is_space c \<Longrightarrow> t \<in> set (split_ws_go acc s) \<Longrightarrow> t \<noteq> [] \<and> (\<forall>c \<in> set t. \<not> is_space c)"
proof (induction s arbitrary: acc)
  case Nil
  then show ?case by (cases acc) auto
next
  case (Cons c cs)
  show ?case
  proof (cases "is_space c")
    case True
    then have "(t = rev acc \<and> acc \<noteq> []) \<or> t \<in> set (split_ws_go [] cs)" using Cons.prems(2) by (simp split: if_splits)
    then show ?thesis using Cons.IH[of "[]"] Cons.prems(1) by (metis empty_iff list.set(1) rev_is_Nil_conv set_rev)
  next
    case False
    show ?thesis
    proof (rule Cons.IH)
      show "\<forall>x \<in> set (c # acc). \<not> is_space x" using False Cons.prems(1) by (metis set_ConsD)
      show "t \<in> set (split_ws_go (c # acc) cs)" using False Cons.prems(2) by (simp only: split_ws_go.simps if_False)
    qed
  qed
qed

lemma py_split_ws_words: "t \<in> set (py_split_ws s) \<Longrightarrow> t \<noteq> [] \<and> (\<forall>c \<in> set t. \<not> is_space c)"
  unfolding py_split_ws_def by (rule split_ws_go_words[of "[]"]) auto

lemma split_ws_go_last: "\<forall>c \<in> set w. \<not> is_space c \<Longrightarrow> acc @ w \<noteq> [] \<Longrightarrow> split_ws_go acc w = [rev acc @ w]"
  by (induction w arbitrary: acc) auto

lemma py_split_ws_join: "\<forall>t \<in> set ts. t \<noteq> [] \<and> (\<forall>c \<in> set t. \<not> is_space c) \<Longrightarrow> py_split_ws (py_join '' '' ts) = ts"
proof (induction "'' ''" ts rule: py_join.induct)
  case 1
  then show ?case by (simp add: py_split_ws_def)
next
  case (2 x)
  then show ?case by (simp add: py_split_ws_def split_ws_go_last)
next
  case (3 x y ys)
  then show ?case using py_split_ws_word[of x "py_join '' '' (y # ys)"] by simp
qed

lemma set_py_replace: "set (py_replace s old new) \<subseteq> set s \<union> set new"
proof (induction s old new rule: py_replace.induct)
  case (2 c cs old new)
  then show ?case using set_drop_subset[of "length old - 1" cs] by auto
qed simp

lemma py_replace_nonempty: "s \<noteq> [] \<Longrightarrow> new \<noteq> [] \<Longrightarrow> py_replace s old new \<noteq> []"
  by (cases s) auto

lemma py_in_first: "py_in (c # xs) s \<Longrightarrow> c \<in> set s"
  by (induction s) auto

lemma py_replace_last: "c \<notin> set n \<Longrightarrow> py_replace (n @ c # xs) (c # xs) r = n @ r"
proof (induction n)
  case Nil
  then show ?case using py_startswith_append[of "c # xs" "[]"] by simp
next
  case (Cons a n)
  then have "a \<noteq> c" by auto
  then show ?case using Cons by simp
qed

lemma py_endswith_single: "py_endswith t [c] \<longleftrightarrow> t \<noteq> [] \<and> last t = c"
  by (cases t rule: rev_cases) (auto simp: py_endswith_def)

end
