(* ===== verification/Group_Op.thy ===== *)
theory Group_Op
  imports Relay_Mutator Py_Strings "HOL-Library.List_Lexorder" "HOL-Library.Char_ord"
begin

text \<open>
  \<^verbatim>\<open>GroupOp\<close> (\<^verbatim>\<open>relay/transform/dnn_fusion.py\<close>): the fusion of a group of calls into one call of a new
  function. The arguments of the group become the parameters of the function; its body is the last
  call, or the tuple of the outputs, with the functions of earlier fusions unfolded in it.

  Every method that builds nodes takes and returns the next free address. \<open>limit\<close> bounds the nested
  visits of the mutators (\<^verbatim>\<open>Relay_Mutator\<close>). \<^verbatim>\<open>InferTypeLocal\<close> is \<open>checked_type\<close>.
\<close>

section \<open>The group\<close>

fun is_scalar :: "expr \<Rightarrow> bool" where
  "is_scalar (Constant u sh dt) \<longleftrightarrow> sh = [] \<and> dt \<in> set [''int32'', ''int64'', ''float32'', ''float64'', ''bool'']"
| "is_scalar _ \<longleftrightarrow> False"

record group_op =
  group :: "expr list"
  gargs :: "expr list"
  goutput :: "expr list"
  fused_func :: "expr option"

definition skip_arg :: "expr list \<Rightarrow> expr \<Rightarrow> bool" where
  "skip_arg grp arg \<longleftrightarrow> (case arg of TupleGetItem u tv i \<Rightarrow> tv \<in> set grp | _ \<Rightarrow> False)"

definition add_group_arg :: "expr list \<Rightarrow> expr \<Rightarrow> expr list \<Rightarrow> expr list" where
  "add_group_arg grp arg args =
     (if skip_arg grp arg then args
      else if arg \<notin> set args \<and> arg \<notin> set grp \<and> \<not> is_scalar arg then args @ [arg] else args)"

definition init_args :: "expr list \<Rightarrow> expr list" where
  "init_args grp = fold (\<lambda>node. fold (add_group_arg grp) (call_args node)) grp []"

definition GroupOp :: "expr list \<Rightarrow> group_op" where
  "GroupOp grp = \<lparr>group = grp, gargs = init_args grp, goutput = [], fused_func = None\<rparr>"

definition add_output :: "expr \<Rightarrow> group_op \<Rightarrow> group_op res" where
  "add_output node g = and_then (py_assert (node \<in> set (group g))) (\<lambda>_.
     Inr (if node \<in> set (goutput g) then g else g\<lparr>goutput := goutput g @ [node]\<rparr>))"


section \<open>The body of the fused function\<close>

text \<open>\<^verbatim>\<open>call.op\<close>: only a call has the attribute.\<close>

fun call_op :: "expr \<Rightarrow> expr res" where
  "call_op (Call u f as a) = Inr f"
| "call_op _ = Inl AttributeError"

definition zip_dict :: "expr list \<Rightarrow> expr list \<Rightarrow> (expr, expr) dict" where
  "zip_dict ks vs = fold (\<lambda>(k, v). AList.update k v) (zip ks vs) []"

definition new_param :: "nat \<Rightarrow> nat \<times> expr \<Rightarrow> expr res" where
  "new_param n ia = (case ia of (i, arg) \<Rightarrow>
     case checked_type arg of None \<Rightarrow> Inl ValueError | Some t \<Rightarrow> Inr (Var (n + i) (''p'' @ str_of_nat i) (Some t)))"

definition cast_param :: "nat \<Rightarrow> group_op \<Rightarrow> expr \<Rightarrow> nat \<Rightarrow> ((expr list \<times> expr) \<times> nat) res" where
  "cast_param limit g e n =
     and_then (res_map (new_param n) (enumerate 0 (gargs g))) (\<lambda>vars.
       let params = zip_dict (gargs g) vars
       in and_then (ReplaceParams limit params e (n + length (gargs g))) (\<lambda>(r, n).
            Inr ((map snd params, r), n)))"

definition flatten_func :: "nat \<Rightarrow> expr \<Rightarrow> nat \<Rightarrow> (expr \<times> nat) res" where
  "flatten_func limit e n =
     (case e of
        Call u (Function w ps b t at) as a \<Rightarrow> ReplaceParams limit (zip_dict ps as) b n
      | _ \<Rightarrow> Inl AttributeError)"

text \<open>Unfold a call if it calls a function.\<close>

definition flatten_call :: "nat \<Rightarrow> expr \<Rightarrow> nat \<Rightarrow> (expr \<times> nat) res" where
  "flatten_call limit e n =
     and_then (call_op e) (\<lambda>f. if is_Function f then flatten_func limit e n else Inr (e, n))"

text \<open>The tensors of an output: its components if its type is a tuple.\<close>

definition ret_tensors :: "expr \<Rightarrow> nat \<Rightarrow> (expr list \<times> nat) res" where
  "ret_tensors f n =
     (case checked_type f of
        None \<Rightarrow> Inl TVMError
      | Some (TupleType ts) \<Rightarrow> Inr (map (\<lambda>i. TupleGetItem (n + i) f i) [0..<length ts], n + length ts)
      | Some _ \<Rightarrow> Inr ([f], n))"

definition ret_tuple :: "expr \<Rightarrow> expr \<Rightarrow> nat \<Rightarrow> (expr \<times> nat) res" where
  "ret_tuple f1 f2 n =
     and_then (ret_tensors f1 n) (\<lambda>(ts1, n). and_then (ret_tensors f2 n) (\<lambda>(ts2, n).
       Inr (Tuple n (ts1 @ ts2), Suc n)))"

definition parallel_flatten :: "nat \<Rightarrow> expr list \<Rightarrow> nat \<Rightarrow> (expr \<times> nat) res" where
  "parallel_flatten limit flds n =
     and_then (py_assert (length flds = 2)) (\<lambda>_.
     and_then (flatten_call limit (flds ! 0) n) (\<lambda>(first_func, n).
     and_then (flatten_call limit (flds ! 1) n) (\<lambda>(second_func, n).
       ret_tuple first_func second_func n)))"

definition special_serial_flatten :: "nat \<Rightarrow> expr list \<Rightarrow> nat \<Rightarrow> (expr \<times> nat) res" where
  "special_serial_flatten limit flds n =
     and_then (py_nth flds 0) (\<lambda>func1. and_then (py_nth flds 1) (\<lambda>func2.
     and_then (call_op func1) (\<lambda>f1.
     and_then
       (if is_Function f1 then
          and_then (flatten_func limit func1 n) (\<lambda>(new_func1, n).
          and_then (mutate limit (replace_override []) func2 \<lparr>memo_map = [(func1, new_func1)], next_addr = n\<rparr>)
            (\<lambda>(new_func2, s). Inr ((new_func1, new_func2), next_addr s)))
        else Inr ((func1, func2), n)) (\<lambda>((new_func1, new_func2), n).
     and_then (flatten_call limit new_func2 n) (\<lambda>(new_func2, n).
       ret_tuple new_func1 new_func2 n)))))"

definition collect_replace :: "nat \<Rightarrow> expr list \<Rightarrow> expr \<Rightarrow> (expr, expr) dict \<times> nat \<Rightarrow> ((expr, expr) dict \<times> nat) res" where
  "collect_replace limit params arg s = (case s of (global_replace, n) \<Rightarrow>
     if arg \<in> set params then Inr s
     else if is_TupleGetItem arg then
       (case arg of TupleGetItem u tuple_value i \<Rightarrow>
          and_then (call_op tuple_value) (\<lambda>f.
            if \<not> is_Function f \<or> tuple_value \<in> set (dict_keys global_replace) then Inr s
            else and_then (flatten_func limit tuple_value n) (\<lambda>(new_tuple, n).
              Inr (AList.update tuple_value new_tuple global_replace, n)))
        | _ \<Rightarrow> Inr s)
     else and_then (call_op arg) (\<lambda>f.
       if is_Function f then and_then (flatten_func limit arg n) (\<lambda>(body, n).
         Inr (AList.update arg body global_replace, n))
       else Inr s))"

definition serial_flatten :: "nat \<Rightarrow> expr \<Rightarrow> expr list \<Rightarrow> nat \<Rightarrow> (expr \<times> nat) res" where
  "serial_flatten limit e params n =
     and_then (res_fold (collect_replace limit params) (call_args e) ([], n)) (\<lambda>(global_replace, n).
     and_then (if global_replace \<noteq> [] then ReplaceParams limit global_replace e n else Inr (e, n)) (\<lambda>(e, n).
       flatten_call limit e n))"

definition producer :: "expr \<Rightarrow> expr" where
  "producer arg = (case arg of TupleGetItem u tv i \<Rightarrow> tv | _ \<Rightarrow> arg)"

definition flatten_expr :: "nat \<Rightarrow> expr \<Rightarrow> expr list \<Rightarrow> nat \<Rightarrow> (expr \<times> nat) res" where
  "flatten_expr limit e params n =
     and_then
       (case e of
          Tuple u flds \<Rightarrow>
            and_then (py_nth flds 1) (\<lambda>f1. and_then (call_op f1) (\<lambda>_.
            if flds ! 0 \<in> set (map producer (call_args f1)) then special_serial_flatten limit flds n
            else parallel_flatten limit flds n))
        | _ \<Rightarrow> and_then (call_op e) (\<lambda>_. serial_flatten limit e params n))
       (\<lambda>(e, n). EmitTuple limit e n)"


section \<open>Fusing\<close>

definition fuse_tag :: "expr \<Rightarrow> string list res" where
  "fuse_tag c =
     (case c of Call u f as a \<Rightarrow>
        (case attrs_tag a of
           Inr t \<Rightarrow> Inr [py_replace t ''stencil_'' '''']
         | Inl _ \<Rightarrow> (case f of
             Function w ps b t (Some d) \<Rightarrow> (case op_attrs_tag f of
                 Inr t \<Rightarrow> Inr (py_split (py_replace t ''fuse_'' '''') ''_'')
               | Inl _ \<Rightarrow> Inl ValueError)
           | Function w ps b t None \<Rightarrow> Inl ValueError
           | _ \<Rightarrow> Inl AttributeError))
      | _ \<Rightarrow> Inl AttributeError)"

definition fused_tag :: "expr list \<Rightarrow> string res" where
  "fused_tag grp =
     and_then (res_map fuse_tag grp) (\<lambda>ts.
       Inr (''fuse_'' @ py_join ''_'' (sorted_list_of_set (set (concat ts)))))"

definition ret_expr :: "group_op \<Rightarrow> nat \<Rightarrow> (expr \<times> nat) res" where
  "ret_expr g n =
     and_then (res_map (\<lambda>out. case checked_type out of None \<Rightarrow> Inl ValueError | Some t \<Rightarrow> Inr t) (goutput g)) (\<lambda>_.
     and_then (py_assert (goutput g \<noteq> [])) (\<lambda>_.
       if length (goutput g) = 1 then and_then (py_nth (group g) (- 1)) (\<lambda>e. Inr (e, n))
       else Inr (Tuple n (goutput g), Suc n)))"

definition fuse :: "nat \<Rightarrow> group_op \<Rightarrow> nat \<Rightarrow> (group_op \<times> nat) res" where
  "fuse limit g n =
     and_then (ret_expr g n) (\<lambda>(e, n).
     and_then (cast_param limit g e n) (\<lambda>((params, e), n).
     and_then (flatten_expr limit e params n) (\<lambda>(e, n).
     and_then (case checked_type e of None \<Rightarrow> Inl TVMError | Some t \<Rightarrow> Inr t) (\<lambda>ret_type.
     and_then (fused_tag (group g)) (\<lambda>tag.
       let func = Function (Suc n) params e (Some ret_type) (Some [(''tag'', StrVal tag)])
       in Inr (g\<lparr>fused_func := Some (Call (Suc (Suc n)) func (gargs g) None)\<rparr>, Suc (Suc (Suc n))))))))"



section \<open>Addresses are used once\<close>

definition advances :: "nat \<Rightarrow> ('a \<times> nat) res \<Rightarrow> bool" where
  "advances n m \<longleftrightarrow> (\<forall>r n'. m = Inr (r, n') \<longrightarrow> n \<le> n')"

lemma advances_bind: "advances n m \<Longrightarrow> (\<And>r n'. advances n' (f (r, n'))) \<Longrightarrow> advances n (and_then m f)"
  unfolding advances_def by (auto simp: and_then_eq_Inr intro: le_trans)

lemma advances_pure: "(\<And>x. advances n (f x)) \<Longrightarrow> advances n (and_then m f)"
  unfolding advances_def by (auto simp: and_then_eq_Inr)

lemma advances_guard:
  "(\<And>f. advances n (g f)) \<Longrightarrow> advances n (and_then (call_op e) g)"
  "(\<And>x. advances n (h x)) \<Longrightarrow> advances n (and_then (py_nth flds j) h)"
  "(\<And>u. advances n (k u)) \<Longrightarrow> advances n (and_then (py_assert b) k)"
  by (rule advances_pure; assumption)+

lemma advances_return [simp]: "advances n (Inl e)" "advances n (Inr (r, k)) \<longleftrightarrow> n \<le> k"
  by (auto simp: advances_def)

lemma advances_mutators [simp]: "advances n (ReplaceParams limit m e n)" "advances n (EmitTuple limit e n)"
  by (auto simp: advances_def ReplaceParams_def EmitTuple_def dest: visit_new_grows)

lemma advances_mutate: "advances n (and_then (mutate k ov e \<lparr>memo_map = m, next_addr = n\<rparr>) (\<lambda>(r, s). Inr (h r, next_addr s)))"
  unfolding advances_def by (auto simp: and_then_eq_Inr dest: rec_growsD[OF mutate_grows])

lemma advances_flatten_func [simp]: "advances n (flatten_func limit e n)"
  by (auto simp: flatten_func_def split: expr.splits)

lemma advances_flatten_call [simp]: "advances n (flatten_call limit e n)"
  by (auto simp: flatten_call_def intro: advances_guard)

lemma advances_ret_tensors [simp]: "advances n (ret_tensors f n)"
  by (auto simp: ret_tensors_def split: option.splits rtype.splits)

lemma advances_ret_tuple [simp]: "advances n (ret_tuple f1 f2 n)"
  by (auto simp: ret_tuple_def intro!: advances_bind)

lemma advances_fold: "(\<And>x s. advances (snd s) (f x s)) \<Longrightarrow> advances (snd s) (res_fold f xs s)"
proof (induction xs arbitrary: s)
  case (Cons x xs)
  have "advances n' (res_fold f xs (r, n'))" for r n' using Cons.IH[of "(r, n')"] Cons.prems by simp
  then show ?case using Cons.prems[of s x] by (auto intro!: advances_bind)
qed (auto simp: advances_def)

lemma advances_collect: "advances (snd s) (collect_replace limit params arg s)"
  by (cases s) (auto simp: collect_replace_def split: expr.splits intro!: advances_guard advances_bind)

lemma advances_flatten_expr [simp]: "advances n (flatten_expr limit e params n)"
proof -
  have serial: "advances n (serial_flatten limit e params n)" for e
    unfolding serial_flatten_def
    using advances_fold[OF advances_collect, where s = "([], n)"] by (auto intro!: advances_bind)
  have special: "advances n (special_serial_flatten limit flds n)" for flds
    unfolding special_serial_flatten_def by (auto intro!: advances_guard advances_bind advances_mutate)
  have parallel: "advances n (parallel_flatten limit flds n)" for flds
    unfolding parallel_flatten_def by (auto intro!: advances_guard advances_bind)
  show ?thesis
    unfolding flatten_expr_def
    by (rule advances_bind) (auto split: expr.splits intro!: advances_guard serial special parallel)
qed

end
