(* ===== verification/Samples.thy ===== *)
theory Samples
  imports Relay_Expr
begin

text \<open>
  Small Relay programs the examples of the other theories run on: a diamond of four stencils, as a
  frontend builds it from an MLIR file with four \<^verbatim>\<open>stencil.apply\<close> operations.
\<close>

definition grid_type :: rtype where
  "grid_type = TensorType [64, 64, 64] ''float64''"

definition ex_in :: expr where
  "ex_in = Var 0 ''x'' (Some grid_type)"

definition ex_a :: expr where
  "ex_a = Call 1 (Op ''stencil.grid1stencil'') [ex_in] (Some (GridAttrs ''P_0''))"

definition ex_b :: expr where
  "ex_b = Call 2 (Op ''stencil.grid1stencil'') [ex_a] (Some (GridAttrs ''P_1''))"

definition ex_c :: expr where
  "ex_c = Call 3 (Op ''stencil.grid1stencil'') [ex_a] (Some (GridAttrs ''P_2''))"

definition ex_d :: expr where
  "ex_d = Call 4 (Op ''stencil.grid2stencil'') [ex_b, ex_c] (Some (GridAttrs ''P_3''))"

definition ex_main :: expr where
  "ex_main = Function 5 [ex_in] ex_d None None"

lemmas ex_defs = grid_type_def ex_in_def ex_a_def ex_b_def ex_c_def ex_d_def ex_main_def

end
