(* ===== verification/Forward_Graph.thy ===== *)
theory Forward_Graph
  imports Group_Op Samples
begin

text \<open>
  \<^verbatim>\<open>IndexedForwardGraph\<close> (\<^verbatim>\<open>relay/transform/custom_fuse_ops.py\<close>): the dataflow graph of a function, with
  the edges from each node to the nodes that use it, and the nodes in post-DFS order. The graph is
  built by a visitor (\<^verbatim>\<open>Creator\<close>).

  There is one node object per expression, so the expression stands for it. A pattern is an integer,
  or \<^verbatim>\<open>None\<close> for an operator without a registered \<^verbatim>\<open>TOpPattern\<close>. The registry and the check for a dynamic,
  data dependent call are parameters.
\<close>

section \<open>Patterns\<close>

type_synonym pattern = "int option"

definition ELEMWISE :: int where "ELEMWISE = 0"
definition BROADCAST :: int where "BROADCAST = 1"
definition INJECTIVE :: int where "INJECTIVE = 2"
definition COMM_REDUCE :: int where "COMM_REDUCE = 3"
definition OUT_ELEMWISE_FUSABLE :: int where "OUT_ELEMWISE_FUSABLE = 4"
definition TUPLE :: int where "TUPLE = 7"
definition OPAQUE :: int where "OPAQUE = 8"

lemmas pattern_defs = ELEMWISE_def BROADCAST_def INJECTIVE_def COMM_REDUCE_def OUT_ELEMWISE_FUSABLE_def TUPLE_def OPAQUE_def

text \<open>\<^verbatim>\<open>a <= b\<close> on patterns: \<^verbatim>\<open>None\<close> is not ordered.\<close>

definition pat_le :: "pattern \<Rightarrow> int \<Rightarrow> bool res" where
  "pat_le p k = (case p of None \<Rightarrow> Inl TypeError | Some v \<Rightarrow> Inr (v \<le> k))"


section \<open>The graph\<close>

text \<open>\<^verbatim>\<open>visit_tuple\<close> links the fields of a tuple to the Python class \<^verbatim>\<open>tuple\<close> instead of the node.\<close>

datatype link_target = NodeOf expr | TupleClass

record ifg_edge =
  edge_node :: link_target
  edge_pattern :: pattern

record ifg_node =
  node_ref :: "expr option"
  node_index :: nat
  extern_ref :: bool
  node_pattern :: pattern
  node_outputs_of :: "ifg_edge list"

record ifg =
  node_map :: "(expr, ifg_node) dict"
  post_dfs_order :: "expr list"

definition new_ifg_node :: ifg_node where
  "new_ifg_node = \<lparr>node_ref = None, node_index = 0, extern_ref = False, node_pattern = Some OPAQUE, node_outputs_of = []\<rparr>"

definition empty_ifg :: ifg where
  "empty_ifg = \<lparr>node_map = [], post_dfs_order = []\<rparr>"

definition set_node :: "expr \<Rightarrow> ifg_node \<Rightarrow> ifg \<Rightarrow> ifg" where
  "set_node k nd g = g\<lparr>node_map := AList.update k nd (node_map g)\<rparr>"

definition current_node :: "ifg \<Rightarrow> expr \<Rightarrow> ifg_node" where
  "current_node g k = (case map_of (node_map g) k of Some nd \<Rightarrow> nd | None \<Rightarrow> new_ifg_node)"

definition Update :: "expr \<Rightarrow> link_target option \<Rightarrow> pattern \<Rightarrow> ifg \<Rightarrow> ifg" where
  "Update node parent pat g =
     (let current = current_node g node
      in set_node node
        (case parent of
           Some p \<Rightarrow> current\<lparr>node_outputs_of := node_outputs_of current @ [\<lparr>edge_node = p, edge_pattern = pat\<rparr>]\<rparr>
         | None \<Rightarrow> current\<lparr>extern_ref := True\<rparr>) g)"

definition AddNode :: "expr \<Rightarrow> ifg \<Rightarrow> ifg res" where
  "AddNode key g =
     (case map_of (node_map g) key of
        None \<Rightarrow> Inl AssertionError
      | Some nd \<Rightarrow>
          if node_ref nd \<noteq> None then Inl AssertionError
          else Inr (set_node key (nd\<lparr>node_ref := Some key, node_index := length (post_dfs_order g)\<rparr>)
            (g\<lparr>post_dfs_order := post_dfs_order g @ [key]\<rparr>)))"

definition set_pattern :: "expr \<Rightarrow> pattern \<Rightarrow> ifg \<Rightarrow> ifg res" where
  "set_pattern key pat g = and_then (dict_get (node_map g) key) (\<lambda>nd. Inr (set_node key (nd\<lparr>node_pattern := pat\<rparr>) g))"


section \<open>The visitor\<close>

record op_registry =
  top_pattern :: "string \<Rightarrow> pattern"
  dyn_dependent :: "expr \<Rightarrow> bool"

definition known_type :: "expr \<Rightarrow> rtype res" where
  "known_type e = (case checked_type e of None \<Rightarrow> Inl ValueError | Some t \<Rightarrow> Inr t)"

abbreviation extern_use :: "expr \<Rightarrow> ifg \<Rightarrow> ifg" where
  "extern_use e \<equiv> Update e None (Some OPAQUE)"

definition call_arg_pattern :: "pattern \<Rightarrow> rtype \<Rightarrow> rtype \<Rightarrow> pattern" where
  "call_arg_pattern op_pattern arg_type rtype =
     (case (arg_type, rtype) of
        (TensorType sa _, TensorType sr _) \<Rightarrow> if op_pattern = Some BROADCAST \<and> sa = sr then Some ELEMWISE else op_pattern
      | _ \<Rightarrow> op_pattern)"

definition in_map :: "expr \<Rightarrow> ifg \<Rightarrow> bool" where
  "in_map e g \<longleftrightarrow> map_of (node_map g) e \<noteq> None"

definition pre_call :: "op_registry \<Rightarrow> expr \<Rightarrow> expr \<Rightarrow> expr list \<Rightarrow> ifg \<Rightarrow> ifg res" where
  "pre_call R call f args g =
     and_then (py_assert (in_map call g)) (\<lambda>_.
     and_then
       (case f of
          Op nm \<Rightarrow> and_then (known_type call) (\<lambda>_.
            Inr (if dyn_dependent R call then Some OPAQUE else top_pattern R nm, g))
        | _ \<Rightarrow> Inr (Some OPAQUE, Update f (Some (NodeOf call)) (Some OPAQUE) g)) (\<lambda>(op_pattern, g).
     and_then (set_pattern call op_pattern g) (\<lambda>g.
     and_then (known_type call) (\<lambda>rtype.
       res_fold (\<lambda>arg g. and_then (known_type arg) (\<lambda>arg_type.
         Inr (Update arg (Some (NodeOf call)) (call_arg_pattern op_pattern arg_type rtype) g)))
         args (extern_use f g)))))"

definition pre_tuple :: "expr \<Rightarrow> expr list \<Rightarrow> ifg \<Rightarrow> ifg res" where
  "pre_tuple tup flds g =
     and_then (py_assert (in_map tup g)) (\<lambda>_.
     and_then (set_pattern tup (Some TUPLE) g) (\<lambda>g.
       res_fold (\<lambda>fld g. and_then (known_type fld) (\<lambda>t.
         Inr (if is_tensor t then Update fld (Some TupleClass) (Some INJECTIVE) g else extern_use fld g))) flds g))"

definition compiled :: "dict_attrs \<Rightarrow> bool" where
  "compiled at \<longleftrightarrow> (case at of None \<Rightarrow> False | Some d \<Rightarrow> d \<noteq> [] \<and> ''Compiler'' \<in> set (dict_keys d))"

text \<open>What a method does before it visits the children; the flag says whether they are visited.\<close>

definition creator_pre :: "op_registry \<Rightarrow> expr \<Rightarrow> ifg \<Rightarrow> ifg res" where
  "creator_pre R e g =
     (case e of
        Function u ps b t at \<Rightarrow> Inr (if compiled at then g else extern_use b (fold extern_use ps g))
      | Constant u sh dt \<Rightarrow> and_then (AddNode e g) (set_pattern e (Some (if is_scalar e then ELEMWISE else OPAQUE)))
      | Call u f as a \<Rightarrow> pre_call R e f as g
      | Tuple u es \<Rightarrow> pre_tuple e es g
      | TupleGetItem u tv i \<Rightarrow> Inl AttributeError
      | Var u nm t \<Rightarrow> AddNode e g
      | LetExpr u x v b \<Rightarrow> Inr (extern_use b (extern_use v (extern_use x g)))
      | IfExpr u c t f \<Rightarrow> Inr (extern_use f (extern_use t (extern_use c g)))
      | RefCreate u v \<Rightarrow> Inr (extern_use v g)
      | RefRead u r \<Rightarrow> Inr (extern_use r g)
      | RefWrite u r v \<Rightarrow> Inr (extern_use v (extern_use r g))
      | Match u d cs \<Rightarrow> Inr (fold extern_use cs (extern_use d g))
      | _ \<Rightarrow> Inr g)"

definition creator_children :: "expr \<Rightarrow> expr list" where
  "creator_children e =
     (case e of
        Function u ps b t at \<Rightarrow> if compiled at then [] else ps @ [b]
      | LetExpr u x v b \<Rightarrow> [x, v]
      | _ \<Rightarrow> children True e)"

text \<open>After the children: \<^verbatim>\<open>ExpandANormalForm\<close> calls \<^verbatim>\<open>isinstance\<close> with one argument.\<close>

definition creator_post :: "expr \<Rightarrow> ifg \<Rightarrow> ifg res" where
  "creator_post e g =
     (case e of
        LetExpr u x v b \<Rightarrow> Inl TypeError
      | Call u f as a \<Rightarrow> AddNode e g
      | Tuple u es \<Rightarrow> AddNode e g
      | TupleGetItem u tv i \<Rightarrow> AddNode e g
      | IfExpr u c t f \<Rightarrow> AddNode e g
      | RefCreate u v \<Rightarrow> AddNode e g
      | RefRead u r \<Rightarrow> AddNode e g
      | RefWrite u r v \<Rightarrow> AddNode e g
      | Match u d cs \<Rightarrow> AddNode e g
      | _ \<Rightarrow> Inr g)"

lemma creator_children_sub: "k \<in> set (creator_children e) \<Longrightarrow> k \<in> set (children True e)"
  by (cases e) (auto simp: creator_children_def split: if_splits)

lemma creator_children_size: "k \<in> set (creator_children e) \<Longrightarrow> size k < size e"
  using creator_children_sub children_size by blast

function creator_visit :: "op_registry \<Rightarrow> expr \<Rightarrow> expr set \<times> ifg \<Rightarrow> (expr set \<times> ifg) res" where
  "creator_visit R e (memo, g) =
     (if e \<in> memo then Inr (memo, g)
      else and_then (creator_pre R e g) (\<lambda>g.
           and_then (res_fold (creator_visit R) (creator_children e) (memo, g)) (\<lambda>(memo, g).
           and_then (creator_post e g) (\<lambda>g. Inr (insert e memo, g)))))"
  by pat_completeness auto
termination
  by (relation "measure (\<lambda>(R, e, st). size e)") (auto simp: creator_children_size)

declare creator_visit.simps [simp del]

definition Prepare :: "op_registry \<Rightarrow> expr \<Rightarrow> ifg res" where
  "Prepare R body = and_then (creator_visit R body ({}, extern_use body empty_ifg)) (\<lambda>(_, g). Inr g)"

definition Create :: "op_registry \<Rightarrow> expr \<Rightarrow> ifg res" where
  "Create R body = Prepare R body"



section \<open>The order is a post-order\<close>

text \<open>The nodes with an edge to a node.\<close>

definition sources :: "ifg \<Rightarrow> expr \<Rightarrow> expr set" where
  "sources g p = {k. \<exists>nd. map_of (node_map g) k = Some nd \<and> NodeOf p \<in> edge_node ` set (node_outputs_of nd)}"

definition place :: "ifg \<Rightarrow> expr \<Rightarrow> (expr option \<times> nat) option" where
  "place g k = map_option (\<lambda>nd. (node_ref nd, node_index nd)) (map_of (node_map g) k)"

text \<open>The effect of a method before it visits the children: only edges to the visited node are new.\<close>

definition relinked :: "expr \<Rightarrow> ifg \<Rightarrow> ifg \<Rightarrow> bool" where
  "relinked e g g' \<longleftrightarrow> post_dfs_order g' = post_dfs_order g \<and>
     (\<forall>k. place g k \<noteq> None \<longrightarrow> place g' k = place g k) \<and> (\<forall>k. place g k = None \<longrightarrow> place g' k \<in> {None, Some (None, 0)}) \<and>
     (\<forall>p. p \<noteq> e \<longrightarrow> sources g' p = sources g p) \<and> sources g e \<subseteq> sources g' e \<and>
     sources g' e \<subseteq> sources g e \<union> (if is_Call e then set (creator_children e) else {})"

lemma relinked_refl [simp]: "relinked e g g"
  by (simp add: relinked_def)

lemma relinked_trans: "relinked e g g' \<Longrightarrow> relinked e g' g'' \<Longrightarrow> relinked e g g''"
  unfolding relinked_def
proof (intro conjI allI impI; (elim conjE)?)
  fix k
  assume p: "\<forall>k. place g k \<noteq> None \<longrightarrow> place g' k = place g k" "\<forall>k. place g' k \<noteq> None \<longrightarrow> place g'' k = place g' k"
  then show "place g k \<noteq> None \<Longrightarrow> place g'' k = place g k" by metis
  assume "\<forall>k. place g k = None \<longrightarrow> place g' k \<in> {None, Some (None, 0)}" "\<forall>k. place g' k = None \<longrightarrow> place g'' k \<in> {None, Some (None, 0)}"
  then show "place g k = None \<Longrightarrow> place g'' k \<in> {None, Some (None, 0)}" using p by metis
qed (simp, simp, blast, blast)

lemma place_set_node: "place (set_node k nd g) j = (if j = k then Some (node_ref nd, node_index nd) else place g j)"
  by (auto simp: place_def set_node_def update_conv')

lemma order_set_node [simp]: "post_dfs_order (set_node k nd g) = post_dfs_order g"
  by (simp add: set_node_def)

lemma sources_set_node:
  "sources (set_node k nd g) p = (sources g p - {k}) \<union> (if NodeOf p \<in> edge_node ` set (node_outputs_of nd) then {k} else {})"
  by (auto simp: sources_def set_node_def update_conv')

lemma current_node_place: "place g k = Some (r, i) \<Longrightarrow> node_ref (current_node g k) = r \<and> node_index (current_node g k) = i"
  "place g k = None \<Longrightarrow> node_ref (current_node g k) = None \<and> node_index (current_node g k) = 0"
  by (auto simp: place_def current_node_def new_ifg_node_def split: option.splits)

lemma current_node_sources: "k \<in> sources g p \<longleftrightarrow> NodeOf p \<in> edge_node ` set (node_outputs_of (current_node g k))"
  by (auto simp: sources_def current_node_def new_ifg_node_def split: option.splits)

lemma relinked_set_node:
  assumes "node_ref nd = node_ref (current_node g k)" and "node_index nd = node_index (current_node g k)"
    and out: "edge_node ` set (node_outputs_of nd) = edge_node ` set (node_outputs_of (current_node g k)) \<union> X"
    and "NodeOf e \<in> X \<longrightarrow> is_Call e \<and> k \<in> set (creator_children e)" and "\<forall>p. NodeOf p \<in> X \<longrightarrow> p = e"
  shows "relinked e g (set_node k nd g)"
  unfolding relinked_def
proof (intro conjI allI impI)
  fix j
  show "place g j \<noteq> None \<Longrightarrow> place (set_node k nd g) j = place g j"
    using current_node_place(1)[of g k] assms(1,2) by (auto simp: place_set_node)
  show "place g j = None \<Longrightarrow> place (set_node k nd g) j \<in> {None, Some (None, 0)}"
    using current_node_place(2)[of g k] assms(1,2) by (auto simp: place_set_node)
next
  fix p assume "p \<noteq> e"
  then have "NodeOf p \<in> edge_node ` set (node_outputs_of nd) \<longleftrightarrow> k \<in> sources g p"
    unfolding out current_node_sources using assms(5) by blast
  then show "sources (set_node k nd g) p = sources g p" unfolding sources_set_node by auto
next
  show "sources g e \<subseteq> sources (set_node k nd g) e" unfolding sources_set_node out current_node_sources by (auto simp: current_node_sources)
next
  have "NodeOf e \<in> edge_node ` set (node_outputs_of nd) \<longrightarrow> k \<in> sources g e \<or> (is_Call e \<and> k \<in> set (creator_children e))"
    unfolding out current_node_sources using assms(4) by blast
  then show "sources (set_node k nd g) e \<subseteq> sources g e \<union> (if is_Call e then set (creator_children e) else {})" unfolding sources_set_node by auto
qed simp

lemma relinked_Update:
  assumes "par = Some (NodeOf e) \<longrightarrow> is_Call e \<and> k \<in> set (creator_children e)" and "\<forall>p. par = Some (NodeOf p) \<longrightarrow> p = e"
  shows "relinked e g (Update k par pat g)"
proof (cases par)
  case None
  show ?thesis unfolding None Update_def Let_def option.case
    by (rule relinked_set_node[where X = "{}"]) simp_all
next
  case (Some q)
  show ?thesis unfolding Some Update_def Let_def option.case
    by (rule relinked_set_node[where X = "{q}"]; (simp; fail)?) (use assms Some in blast)+
qed

lemma relinked_extern_use: "relinked e g (extern_use k g)"
  by (rule relinked_Update) simp_all

lemma relinked_fold_extern: "relinked e g (fold extern_use ks g)"
  by (induction ks arbitrary: g) (auto intro: relinked_trans[OF relinked_extern_use])

lemma relinked_set_pattern:
  assumes "set_pattern k pat g = Inr g'"
  shows "relinked e g g'"
proof -
  obtain nd where nd: "map_of (node_map g) k = Some nd" "g' = set_node k (nd\<lparr>node_pattern := pat\<rparr>) g"
    using assms by (auto simp: set_pattern_def and_then_eq_Inr dict_get_Inr)
  show ?thesis unfolding nd(2)
    by (rule relinked_set_node[where X = "{}"]) (simp_all add: current_node_def nd(1))
qed

lemma relinked_fold:
  assumes "res_fold f xs g = Inr g'" and "\<And>x g g'. x \<in> set xs \<Longrightarrow> f x g = Inr g' \<Longrightarrow> relinked e g g'"
  shows "relinked e g g'"
  by (rule res_fold_invariant[OF assms(1), where P = "relinked e g"]) (use assms(2) relinked_trans in auto)

lemma relinked_pre_call:
  assumes "pre_call R e f as g = Inr g'" and "set as \<subseteq> set (creator_children e)" and "f \<in> set (creator_children e)" and "is_Call e"
  shows "relinked e g g'"
proof -
  obtain pat g1 g2 rt where 1: "(case f of Op nm \<Rightarrow> and_then (known_type e) (\<lambda>_. Inr (if dyn_dependent R e then Some OPAQUE else top_pattern R nm, g))
      | _ \<Rightarrow> Inr (Some OPAQUE, Update f (Some (NodeOf e)) (Some OPAQUE) g)) = Inr (pat, g1)"
    and 2: "set_pattern e pat g1 = Inr g2"
    and 3: "res_fold (\<lambda>arg g. and_then (known_type arg) (\<lambda>arg_type. Inr (Update arg (Some (NodeOf e)) (call_arg_pattern pat arg_type rt) g)))
       as (extern_use f g2) = Inr g'"
    using assms(1) unfolding pre_call_def by (auto simp: and_then_eq_Inr)
  have "relinked e g g1"
    using 1 relinked_Update[of "Some (NodeOf e)" e f g "Some OPAQUE"] assms(3,4) by (cases f) (auto simp: and_then_eq_Inr)
  moreover have "relinked e g1 g2" by (rule relinked_set_pattern[OF 2])
  moreover have "relinked e g2 (extern_use f g2)" by (rule relinked_extern_use)
  moreover have "relinked e (extern_use f g2) g'"
  proof (rule relinked_fold[OF 3])
    fix x h h' assume x: "x \<in> set as" and h: "and_then (known_type x) (\<lambda>arg_type. Inr (Update x (Some (NodeOf e)) (call_arg_pattern pat arg_type rt) h)) = Inr h'"
    have xc: "x \<in> set (creator_children e)" using x assms(2) by blast
    show "relinked e h h'"
      using h xc assms(4) relinked_Update[of "Some (NodeOf e)" e x h] by (auto simp: and_then_eq_Inr)
  qed
  ultimately show ?thesis by (blast intro: relinked_trans)
qed

lemma relinked_pre_tuple:
  assumes "pre_tuple e es g = Inr g'"
  shows "relinked e g g'"
proof -
  obtain g1 where 1: "set_pattern e (Some TUPLE) g = Inr g1"
    "res_fold (\<lambda>fld g. and_then (known_type fld) (\<lambda>t.
         Inr (if is_tensor t then Update fld (Some TupleClass) (Some INJECTIVE) g else extern_use fld g))) es g1 = Inr g'"
    using assms by (auto simp: pre_tuple_def and_then_eq_Inr)
  have "relinked e g1 g'"
  proof (rule relinked_fold[OF 1(2)])
    fix x h h' assume "and_then (known_type x) (\<lambda>t. Inr (if is_tensor t then Update x (Some TupleClass) (Some INJECTIVE) h else extern_use x h)) = Inr h'"
    then show "relinked e h h'" using relinked_Update[of "Some TupleClass" e x h] relinked_extern_use by (auto simp: and_then_eq_Inr)
  qed
  then show ?thesis using relinked_set_pattern[OF 1(1)] relinked_trans by blast
qed

definition is_leaf :: "expr \<Rightarrow> bool" where
  "is_leaf e \<longleftrightarrow> (case e of Var u nm t \<Rightarrow> True | Constant u sh dt \<Rightarrow> True | _ \<Rightarrow> False)"

lemma relinked_pre:
  assumes "creator_pre R e g = Inr g'" and "\<not> is_leaf e"
  shows "relinked e g g'"
  using assms
proof (cases e)
  case (Call u f as a)
  then show ?thesis using assms(1) relinked_pre_call[of R e f as g g'] by (auto simp: creator_pre_def creator_children_def)
next
  case (Function u ps b t at)
  then show ?thesis
    using assms(1) relinked_trans[OF relinked_fold_extern relinked_extern_use, of e g b ps]
    by (auto simp: creator_pre_def split: if_splits)
next
  case (Tuple u es)
  then show ?thesis using assms(1) relinked_pre_tuple[of e es g g'] by (simp add: creator_pre_def)
next
  case (LetExpr u x v b)
  then show ?thesis using assms(1) relinked_trans relinked_extern_use by (simp add: creator_pre_def) blast
next
  case (IfExpr u c t f)
  then show ?thesis using assms(1) relinked_trans relinked_extern_use by (simp add: creator_pre_def) blast
next
  case (RefWrite u r v)
  then show ?thesis using assms(1) relinked_trans relinked_extern_use by (simp add: creator_pre_def) blast
next
  case (Match u d cs)
  then show ?thesis using assms(1) relinked_trans[OF relinked_extern_use relinked_fold_extern, of e g cs d] by (simp add: creator_pre_def)
qed (auto simp: creator_pre_def is_leaf_def relinked_extern_use)

text \<open>The nodes that get a place in the order.\<close>

definition addable :: "expr \<Rightarrow> bool" where
  "addable e \<longleftrightarrow> (case e of Function u ps b t at \<Rightarrow> False | Op nm \<Rightarrow> False | GlobalVar u nm \<Rightarrow> False
     | Constructor u nm \<Rightarrow> False | _ \<Rightarrow> True)"

definition index_of :: "ifg \<Rightarrow> expr \<Rightarrow> nat" where
  "index_of g k = (case map_of (node_map g) k of None \<Rightarrow> 0 | Some nd \<Rightarrow> node_index nd)"

definition indexed :: "ifg \<Rightarrow> bool" where
  "indexed g \<longleftrightarrow> distinct (post_dfs_order g) \<and>
     (\<forall>i < length (post_dfs_order g). place g (post_dfs_order g ! i) = Some (Some (post_dfs_order g ! i), i)) \<and>
     (\<forall>k. k \<notin> set (post_dfs_order g) \<longrightarrow> place g k = None \<or> place g k = Some (None, 0))"

text \<open>\<open>S\<close> holds the nodes whose visit has begun and not ended, \<open>M\<close> the visited ones.\<close>

definition visiting :: "expr set \<Rightarrow> expr set \<Rightarrow> ifg \<Rightarrow> bool" where
  "visiting S M g \<longleftrightarrow> indexed g \<and> set (post_dfs_order g) = {k \<in> M. addable k} \<and>
     (\<forall>p. \<forall>k \<in> sources g p. addable p \<and> p \<in> M \<union> S \<and>
        (p \<in> M \<longrightarrow> k \<in> M \<and> (addable k \<longrightarrow> index_of g k < index_of g p)))"

lemma visitingD:
  assumes "visiting S M g" and "k \<in> sources g p"
  shows "addable p" "p \<in> M \<union> S" "p \<in> M \<Longrightarrow> k \<in> M" "p \<in> M \<Longrightarrow> addable k \<Longrightarrow> index_of g k < index_of g p"
  using assms unfolding visiting_def by blast+

lemma index_of_place: "index_of g k = (case place g k of None \<Rightarrow> 0 | Some (_, i) \<Rightarrow> i)"
  by (auto simp: index_of_def place_def split: option.splits)

lemma indexed_relinked:
  assumes "indexed g" and "relinked e g g'"
  shows "indexed g'" "k \<in> set (post_dfs_order g) \<Longrightarrow> index_of g' k = index_of g k"
proof -
  have o: "post_dfs_order g' = post_dfs_order g" using assms(2) by (simp add: relinked_def)
  have p: "place g k \<noteq> None \<Longrightarrow> place g' k = place g k" "place g k = None \<Longrightarrow> place g' k = None \<or> place g' k = Some (None, 0)" for k
    using assms(2) by (auto simp: relinked_def)
  show "indexed g'" unfolding indexed_def o
  proof (intro conjI allI impI)
    show "distinct (post_dfs_order g)" using assms(1) by (simp add: indexed_def)
    fix i assume "i < length (post_dfs_order g)"
    then have "place g (post_dfs_order g ! i) = Some (Some (post_dfs_order g ! i), i)" using assms(1) by (simp add: indexed_def)
    then show "place g' (post_dfs_order g ! i) = Some (Some (post_dfs_order g ! i), i)" using p(1) by simp
  next
    fix k assume "k \<notin> set (post_dfs_order g)"
    then have "place g k = None \<or> place g k = Some (None, 0)" using assms(1) by (simp add: indexed_def)
    then show "place g' k = None \<or> place g' k = Some (None, 0)" using p[of k] by fastforce
  qed
  assume "k \<in> set (post_dfs_order g)"
  then obtain i where "i < length (post_dfs_order g)" "k = post_dfs_order g ! i" by (auto simp: in_set_conv_nth)
  then have "place g k \<noteq> None" using assms(1) by (simp add: indexed_def)
  then show "index_of g' k = index_of g k" using p(1)[of k] by (simp add: index_of_place)
qed

lemma visiting_pre:
  assumes v: "visiting S M g" and r: "relinked e g g'" and e: "e \<notin> M" "e \<notin> S" 
  shows "visiting (insert e S) M g'" "sources g' e \<subseteq> (if is_Call e then set (creator_children e) else {})"
proof -
  have ind: "indexed g" and ord: "set (post_dfs_order g) = {k \<in> M. addable k}" using v by (simp_all add: visiting_def)
  have no: "sources g e = {}" using visitingD(2)[OF v, of _ e] e by blast
  then show src: "sources g' e \<subseteq> (if is_Call e then set (creator_children e) else {})" using r unfolding relinked_def by blast
  have add: "is_Call e" if "k \<in> sources g' e" for k using that src by (auto split: if_splits)
  then have add: "addable e" if "k \<in> sources g' e" for k using add[OF that] by (cases e) (auto simp: addable_def)
  have o: "post_dfs_order g' = post_dfs_order g" and s: "\<And>p. p \<noteq> e \<Longrightarrow> sources g' p = sources g p" using r by (auto simp: relinked_def)
  note ix = indexed_relinked[OF ind r]
  show "visiting (insert e S) M g'" unfolding visiting_def
  proof (intro conjI allI ballI)
    show "indexed g'" by (rule ix(1))
    show "set (post_dfs_order g') = {k \<in> M. addable k}" unfolding o by (rule ord)
    fix p k assume k: "k \<in> sources g' p"
    show "addable p" using k add s visitingD(1)[OF v] by (cases "p = e") auto
    show "p \<in> M \<union> insert e S" using k s visitingD(2)[OF v] by (cases "p = e") auto
    show "p \<in> M \<longrightarrow> k \<in> M \<and> (addable k \<longrightarrow> index_of g' k < index_of g' p)"
    proof
      assume pM: "p \<in> M"
      then have kp: "k \<in> sources g p" using k s e by (cases "p = e") auto
      have kM: "k \<in> M" by (rule visitingD(3)[OF v kp pM])
      moreover have "index_of g' k < index_of g' p" if "addable k"
      proof -
        have "k \<in> set (post_dfs_order g)" "p \<in> set (post_dfs_order g)" using that kM pM visitingD(1)[OF v kp] by (simp_all add: ord)
        then show ?thesis using ix(2) visitingD(4)[OF v kp pM that] by simp
      qed
      ultimately show "k \<in> M \<and> (addable k \<longrightarrow> index_of g' k < index_of g' p)" by blast
    qed
  qed
qed

lemma AddNode_Inr:
  assumes "AddNode e g = Inr g'"
  obtains nd where "map_of (node_map g) e = Some nd" "node_ref nd = None"
    "g' = set_node e (nd\<lparr>node_ref := Some e, node_index := length (post_dfs_order g)\<rparr>) (g\<lparr>post_dfs_order := post_dfs_order g @ [e]\<rparr>)"
  using assms by (auto simp: AddNode_def split: option.splits if_splits)

lemma visiting_add:
  assumes v: "visiting (insert e S) M g" and a: "AddNode e g = Inr g'" and e: "e \<notin> M" "e \<notin> S" "addable e" and src: "sources g e \<subseteq> M"
  shows "visiting S (insert e M) g'" "sources g' p = sources g p"
proof -
  obtain nd where nd: "map_of (node_map g) e = Some nd" "node_ref nd = None"
    "g' = set_node e (nd\<lparr>node_ref := Some e, node_index := length (post_dfs_order g)\<rparr>) (g\<lparr>post_dfs_order := post_dfs_order g @ [e]\<rparr>)"
    by (rule AddNode_Inr[OF a])
  have pl: "place g' k = (if k = e then Some (Some e, length (post_dfs_order g)) else place g k)" for k
    by (simp add: nd(3) place_set_node) (simp add: place_def)
  have o: "post_dfs_order g' = post_dfs_order g @ [e]" by (simp add: nd(3))
  have s: "sources g' p = sources g p" for p
    unfolding nd(3) sources_set_node by (auto simp: sources_def nd(1))
  then show "sources g' p = sources g p" .
  have ind: "indexed g" and ord: "set (post_dfs_order g) = {k \<in> M. addable k}" using v by (simp_all add: visiting_def)
  have new: "e \<notin> set (post_dfs_order g)" using ord e by simp
  have nth: "place g (post_dfs_order g ! i) = Some (Some (post_dfs_order g ! i), i)" if "i < length (post_dfs_order g)" for i
    using ind that by (simp add: indexed_def)
  have ixe: "index_of g' e = length (post_dfs_order g)" by (simp add: index_of_place pl)
  have ixk: "index_of g' k = index_of g k" if "k \<noteq> e" for k using that by (simp add: index_of_place pl)
  have less: "index_of g k < length (post_dfs_order g)" if "k \<in> set (post_dfs_order g)" for k
    using that nth by (auto simp: in_set_conv_nth index_of_place)
  show "visiting S (insert e M) g'" unfolding visiting_def
  proof (intro conjI allI ballI)
    show "set (post_dfs_order g') = {k \<in> insert e M. addable k}" using o ord e by auto
    show "indexed g'" unfolding indexed_def o
    proof (intro conjI allI impI)
      show "distinct (post_dfs_order g @ [e])" using ind new by (simp add: indexed_def)
      fix i assume "i < length (post_dfs_order g @ [e])"
      then consider "i < length (post_dfs_order g)" | "i = length (post_dfs_order g)" by fastforce
      then show "place g' ((post_dfs_order g @ [e]) ! i) = Some (Some ((post_dfs_order g @ [e]) ! i), i)"
      proof cases
        case 1
        then have "post_dfs_order g ! i \<noteq> e" using new nth_mem by metis
        then show ?thesis using 1 nth[OF 1] by (simp add: pl nth_append)
      qed (simp add: pl)
    next
      fix k assume "k \<notin> set (post_dfs_order g @ [e])"
      then show "place g' k = None \<or> place g' k = Some (None, 0)" using ind by (simp add: pl indexed_def)
    qed
    fix p k assume "k \<in> sources g' p"
    then have k: "k \<in> sources g p" by (simp add: s)
    show "addable p" by (rule visitingD(1)[OF v k])
    show "p \<in> insert e M \<union> S" using visitingD(2)[OF v k] by blast
    show "p \<in> insert e M \<longrightarrow> k \<in> insert e M \<and> (addable k \<longrightarrow> index_of g' k < index_of g' p)"
    proof
      assume "p \<in> insert e M"
      show "k \<in> insert e M \<and> (addable k \<longrightarrow> index_of g' k < index_of g' p)"
      proof (cases "p = e")
        case True
        then have kM: "k \<in> M" using k src by blast
        then have "k \<noteq> e" using e(1) by blast
        then show ?thesis using True kM ixe ixk[of k] less[of k] ord by auto
      next
        case False
        then have pM: "p \<in> M" using \<open>p \<in> insert e M\<close> by blast
        have kM: "k \<in> M" by (rule visitingD(3)[OF v k pM])
        moreover have "k \<noteq> e" using kM e(1) by blast
        ultimately show ?thesis using visitingD(4)[OF v k pM] ixk[OF False] ixk[of k] by auto
      qed
    qed
  qed
qed

lemma visiting_cong:
  assumes "visiting S M g" and "post_dfs_order g' = post_dfs_order g" and "place g' = place g" and "sources g' = sources g"
  shows "visiting S M g'"
  using assms unfolding visiting_def indexed_def index_of_place by simp

lemma set_pattern_same:
  assumes "set_pattern k pat g = Inr g'"
  shows "post_dfs_order g' = post_dfs_order g" "place g' = place g" "sources g' = sources g"
proof -
  obtain nd where nd: "map_of (node_map g) k = Some nd" "g' = set_node k (nd\<lparr>node_pattern := pat\<rparr>) g"
    using assms by (auto simp: set_pattern_def and_then_eq_Inr dict_get_Inr)
  show "post_dfs_order g' = post_dfs_order g" by (simp add: nd(2))
  show "place g' = place g" by (rule ext) (simp add: nd(2) place_set_node, simp add: place_def nd(1))
  show "sources g' = sources g" by (rule ext) (auto simp: nd(2) sources_set_node, auto simp: sources_def nd(1))
qed

lemma visiting_mono: "visiting S M g \<Longrightarrow> visiting (insert e S) M g"
  unfolding visiting_def by blast

lemma visiting_skip:
  assumes "visiting (insert e S) M g" and "\<not> addable e" and "e \<notin> M"
  shows "visiting S (insert e M) g"
  using assms visitingD(1)[OF assms(1)] unfolding visiting_def by (intro conjI allI ballI) blast+

theorem creator_visit_ok:
  "creator_visit R e (M, g) = Inr (M', g') \<Longrightarrow> visiting S M g \<Longrightarrow> \<forall>s \<in> S. size e < size s \<Longrightarrow>
   visiting S M' g' \<and> e \<in> M' \<and> M \<subseteq> M' \<and> M' \<subseteq> M \<union> {x. size x \<le> size e} \<and> (\<forall>p \<in> S. sources g' p = sources g p)"
proof (induction "size e" arbitrary: e M g M' g' S rule: less_induct)
  case less
  show ?case
  proof (cases "e \<in> M")
    case True
    then show ?thesis using less.prems by (simp add: creator_visit.simps)
  next
    case new: False
    obtain g1 M2 g2 where pre: "creator_pre R e g = Inr g1"
      and kids: "res_fold (creator_visit R) (creator_children e) (M, g1) = Inr (M2, g2)"
      and post: "creator_post e g2 = Inr g'" and M': "M' = insert e M2"
      using less.prems(1) new by (auto simp: creator_visit.simps[of R e] and_then_eq_Inr)
    have eS: "e \<notin> S" using less.prems(3) by auto
    show ?thesis
    proof (cases "is_leaf e")
      case True
      then have ch: "M2 = M" "g2 = g1" "g' = g1" using kids post
        by (cases e; simp add: is_leaf_def creator_children_def creator_post_def)+
      have ad: "addable e" using True by (cases e) (auto simp: is_leaf_def addable_def)
      obtain h where h: "AddNode e g = Inr h" "g1 = h \<or> (\<exists>pat. set_pattern e pat h = Inr g1)"
        using pre True by (cases e) (auto simp: is_leaf_def creator_pre_def and_then_eq_Inr)
      have src: "sources g e \<subseteq> M" using visitingD(2)[OF less.prems(2), of _ e] new eS by blast
      note va = visiting_add[OF visiting_mono[OF less.prems(2)] h(1) new eS ad src]
      have "visiting S (insert e M) g1 \<and> (\<forall>p. sources g1 p = sources g p)"
        using h(2) va visiting_cong[OF va(1), of g1] set_pattern_same[of e _ h g1] by auto
      then show ?thesis using ch M' by auto
    next
      case False
      note pr = visiting_pre[OF less.prems(2) relinked_pre[OF pre False] new eS]
      have "visiting (insert e S) M2 g2 \<and> set cs \<subseteq> M2 \<and> M \<subseteq> M2 \<and> M2 \<subseteq> M \<union> {x. size x < size e} \<and> (\<forall>p \<in> insert e S. sources g2 p = sources g1 p)"
        if "set cs \<subseteq> set (creator_children e)" "res_fold (creator_visit R) cs (M, g1) = Inr (M2, g2)" "visiting (insert e S) M g1"
        for cs M g1 M2 g2
        using that
      proof (induction cs arbitrary: M g1)
        case (Cons c cs)
        obtain Ma ga where c: "creator_visit R c (M, g1) = Inr (Ma, ga)" "res_fold (creator_visit R) cs (Ma, ga) = Inr (M2, g2)"
          using Cons.prems(2) by (auto simp: and_then_eq_Inr)
        have sz: "size c < size e" using Cons.prems(1) creator_children_size by simp
        have "visiting (insert e S) Ma ga \<and> c \<in> Ma \<and> M \<subseteq> Ma \<and> Ma \<subseteq> M \<union> {x. size x \<le> size c} \<and> (\<forall>p \<in> insert e S. sources ga p = sources g1 p)"
          by (rule less.hyps[OF sz c(1) Cons.prems(3)]) (use sz less.prems(3) in \<open>auto dest: less_trans\<close>)
        moreover note Cons.IH[OF _ c(2)]
        ultimately have b: "visiting (insert e S) M2 g2" "set cs \<subseteq> M2" "Ma \<subseteq> M2" "M2 \<subseteq> Ma \<union> {x. size x < size e}"
          "\<forall>p \<in> insert e S. sources g2 p = sources ga p" "c \<in> Ma" "M \<subseteq> Ma" "Ma \<subseteq> M \<union> {x. size x \<le> size c}"
          "\<forall>p \<in> insert e S. sources ga p = sources g1 p" using Cons.prems(1) by auto
        have "Ma \<subseteq> M \<union> {x. size x < size e}" using b(8) sz by fastforce
        then show ?case using b by auto
      qed simp
      from this[OF subset_refl kids pr(1)]
      have k: "visiting (insert e S) M2 g2" "set (creator_children e) \<subseteq> M2" "M \<subseteq> M2" "\<forall>p \<in> insert e S. sources g2 p = sources g1 p"
        "M2 \<subseteq> M \<union> {x. size x < size e}" by blast+
      have eM: "e \<notin> M2" using k(5) new by auto
      have sub: "insert e M2 \<subseteq> M \<union> {x. size x \<le> size e}" using k(5) by fastforce
      have sr: "\<forall>p \<in> S. sources g1 p = sources g p" using relinked_pre[OF pre False] eS by (auto simp: relinked_def)
        show ?thesis
        proof (cases "addable e")
          case ad: True
          have "AddNode e g2 = Inr g'" using post ad False by (cases e) (auto simp: creator_post_def addable_def is_leaf_def)
          moreover have "sources g2 e \<subseteq> M2" using k(2,4) pr(2) by (auto split: if_splits)
          ultimately show ?thesis using visiting_add[OF k(1) _ eM eS ad] M' k(3,4) sr sub by auto
        next
          case nad: False
          have "g' = g2" using post nad by (cases e) (auto simp: creator_post_def addable_def)
          then show ?thesis using visiting_skip[OF k(1) nad eM] M' k(3,4) sr sub by auto
        qed
    qed
  qed
qed


section \<open>When the graph is built\<close>

text \<open>The nodes the visitor handles: no projection, no \<^verbatim>\<open>let\<close>, and types where it reads them.\<close>

definition node_creatable :: "expr \<Rightarrow> bool" where
  "node_creatable e \<longleftrightarrow> (case e of
      Call u f as a \<Rightarrow> checked_type e \<noteq> None \<and> list_all (\<lambda>x. checked_type x \<noteq> None) as
    | Tuple u es \<Rightarrow> list_all (\<lambda>x. checked_type x \<noteq> None) es
    | TupleGetItem u tv i \<Rightarrow> False
    | LetExpr u x v b \<Rightarrow> False
    | _ \<Rightarrow> True)"

definition creatable :: "expr \<Rightarrow> bool" where
  "creatable e \<longleftrightarrow> (\<forall>x \<in> nodes e. node_creatable x)"

lemma creatable_node: "creatable e \<Longrightarrow> node_creatable e"
  unfolding creatable_def by blast

lemma creatable_child: "creatable e \<Longrightarrow> k \<in> set (creator_children e) \<Longrightarrow> creatable k"
  using nodes_child[OF creator_children_sub] unfolding creatable_def by blast

lemma in_map_place: "in_map k g \<longleftrightarrow> place g k \<noteq> None"
  by (simp add: in_map_def place_def)

lemma in_map_set_node [simp]: "in_map k (set_node j nd g) \<longleftrightarrow> k = j \<or> in_map k g"
  by (simp add: in_map_place place_set_node)

lemma in_map_Update [simp]: "in_map k (Update j par pat g) \<longleftrightarrow> k = j \<or> in_map k g"
  by (simp add: Update_def Let_def)

lemma in_map_fold_extern [simp]: "in_map k (fold extern_use ks g) \<longleftrightarrow> k \<in> set ks \<or> in_map k g"
  by (induction ks arbitrary: g) auto

lemma set_pattern_returns: "in_map k g \<Longrightarrow> \<exists>g'. set_pattern k pat g = Inr g' \<and> (\<forall>j. in_map j g' \<longleftrightarrow> in_map j g)"
  by (auto simp: set_pattern_def in_map_def dict_get_def set_node_def update_conv')

lemma update_fold_returns:
  assumes "\<forall>x \<in> set xs. checked_type x \<noteq> None" and "\<And>x t g j. in_map j (h x t g) \<longleftrightarrow> j = x \<or> in_map j g"
  shows "\<exists>g'. res_fold (\<lambda>x g. and_then (known_type x) (\<lambda>t. Inr (h x t g))) xs g = Inr g' \<and> (\<forall>j. in_map j g' \<longleftrightarrow> j \<in> set xs \<or> in_map j g)"
  using assms(1)
proof (induction xs arbitrary: g)
  case (Cons x xs)
  then obtain t where "checked_type x = Some t" by auto
  then show ?case using Cons.IH[of "h x t g"] Cons.prems by (auto simp: known_type_def assms(2))
qed simp

lemma pre_call_returns:
  assumes "in_map e g" and "checked_type e \<noteq> None" and "list_all (\<lambda>x. checked_type x \<noteq> None) as"
  shows "\<exists>g'. pre_call R e f as g = Inr g' \<and> (\<forall>j. in_map j g \<or> j = f \<or> j \<in> set as \<longrightarrow> in_map j g')"
proof -
  obtain rt where rt: "checked_type e = Some rt" using assms(2) by auto
  let ?c = "case f of Op nm \<Rightarrow> and_then (known_type e) (\<lambda>_. Inr (if dyn_dependent R e then Some OPAQUE else top_pattern R nm, g))
        | _ \<Rightarrow> Inr (Some OPAQUE, Update f (Some (NodeOf e)) (Some OPAQUE) g)"
  have "\<exists>pat g1. ?c = Inr (pat, g1) \<and> (\<forall>j. in_map j g \<longrightarrow> in_map j g1)"
    using rt by (cases f) (auto simp: known_type_def)
  then obtain pat g1 where c: "?c = Inr (pat, g1)" "\<forall>j. in_map j g \<longrightarrow> in_map j g1" by blast
  obtain g2 where g2: "set_pattern e pat g1 = Inr g2" "\<forall>j. in_map j g2 \<longleftrightarrow> in_map j g1"
    using set_pattern_returns[of e g1 pat] assms(1) c(2) by blast
  obtain g' where g': "res_fold (\<lambda>x g. and_then (known_type x) (\<lambda>t. Inr (Update x (Some (NodeOf e)) (call_arg_pattern pat t rt) g))) as (extern_use f g2) = Inr g'"
    "\<forall>j. in_map j g' \<longleftrightarrow> j \<in> set as \<or> in_map j (extern_use f g2)"
    using update_fold_returns[of as "\<lambda>x t. Update x (Some (NodeOf e)) (call_arg_pattern pat t rt)" "extern_use f g2"] assms(3)
    by (auto simp: list_all_iff)
  have "pre_call R e f as g = Inr g'"
    unfolding pre_call_def c(1) using assms(1) g2(1) g'(1) rt by (simp add: known_type_def)
  then show ?thesis using g'(2) g2(2) c(2) by auto
qed

lemma pre_tuple_returns:
  assumes "in_map e g" and "list_all (\<lambda>x. checked_type x \<noteq> None) es"
  shows "\<exists>g'. pre_tuple e es g = Inr g' \<and> (\<forall>j. in_map j g \<or> j \<in> set es \<longrightarrow> in_map j g')"
proof -
  obtain g2 where g2: "set_pattern e (Some TUPLE) g = Inr g2" "\<forall>j. in_map j g2 \<longleftrightarrow> in_map j g"
    using set_pattern_returns[OF assms(1)] by blast
  have h: "in_map j (if is_tensor t then Update x (Some TupleClass) (Some INJECTIVE) g else extern_use x g) \<longleftrightarrow> j = x \<or> in_map j g" for x t g j
    by simp
  obtain g' where "res_fold (\<lambda>fld g. and_then (known_type fld) (\<lambda>t.
       Inr (if is_tensor t then Update fld (Some TupleClass) (Some INJECTIVE) g else extern_use fld g))) es g2 = Inr g'"
    "\<forall>j. in_map j g' \<longleftrightarrow> j \<in> set es \<or> in_map j g2"
    using update_fold_returns[of es "\<lambda>x t g. if is_tensor t then Update x (Some TupleClass) (Some INJECTIVE) g else extern_use x g" g2, OF _ h]
      assms(2) by (auto simp: list_all_iff)
  then show ?thesis using assms(1) g2 by (auto simp: pre_tuple_def)
qed

lemma AddNode_returns:
  assumes "visiting S M g" and "e \<notin> M" and "in_map e g"
  shows "\<exists>g'. AddNode e g = Inr g' \<and> (\<forall>j. in_map j g' \<longleftrightarrow> in_map j g)"
proof -
  have "e \<notin> set (post_dfs_order g)" using assms(1,2) by (simp add: visiting_def)
  then have "place g e = Some (None, 0)" using assms(1,3) by (auto simp: visiting_def indexed_def in_map_place)
  then obtain nd where nd: "map_of (node_map g) e = Some nd" "node_ref nd = None" by (auto simp: place_def)
  then show ?thesis using assms(3) by (auto simp: AddNode_def in_map_def set_node_def update_conv')
qed

lemma creator_pre_returns:
  assumes "visiting S M g" and "e \<notin> M" and "in_map e g" and "node_creatable e"
  shows "\<exists>g'. creator_pre R e g = Inr g' \<and> (\<forall>j. in_map j g \<or> j \<in> set (creator_children e) \<longrightarrow> in_map j g')"
proof (cases e)
  case (Call u f as a)
  then show ?thesis using pre_call_returns[OF assms(3), of as R f] assms(4)
    by (auto simp: creator_pre_def creator_children_def node_creatable_def)
next
  case (Tuple u es)
  then show ?thesis using pre_tuple_returns[OF assms(3), of es] assms(4)
    by (auto simp: creator_pre_def creator_children_def node_creatable_def)
next
  case (Var u nm t)
  then show ?thesis using AddNode_returns[OF assms(1-3)] by (auto simp: creator_pre_def creator_children_def)
next
  case (Constant u sh dt)
  obtain h where h: "AddNode e g = Inr h" "\<forall>j. in_map j h \<longleftrightarrow> in_map j g" using AddNode_returns[OF assms(1-3)] by blast
  then obtain g' where "set_pattern e (Some (if is_scalar e then ELEMWISE else OPAQUE)) h = Inr g'" "\<forall>j. in_map j g' \<longleftrightarrow> in_map j h"
    using set_pattern_returns[of e h] assms(3) by blast
  then show ?thesis using Constant h by (auto simp: creator_pre_def creator_children_def)
qed (use assms(4) in \<open>auto simp: creator_pre_def creator_children_def node_creatable_def\<close>)

theorem creator_visit_returns:
  "creatable e \<Longrightarrow> visiting S M g \<Longrightarrow> \<forall>s \<in> S. size e < size s \<Longrightarrow> in_map e g \<Longrightarrow>
   \<exists>M' g'. creator_visit R e (M, g) = Inr (M', g') \<and> (\<forall>j. in_map j g \<longrightarrow> in_map j g')"
proof (induction "size e" arbitrary: e M g S rule: less_induct)
  case less
  show ?case
  proof (cases "e \<in> M")
    case True
    then show ?thesis by (simp add: creator_visit.simps)
  next
    case new: False
    obtain g1 where pre: "creator_pre R e g = Inr g1" "\<forall>j. in_map j g \<or> j \<in> set (creator_children e) \<longrightarrow> in_map j g1"
      using creator_pre_returns[OF less.prems(2) new less.prems(4) creatable_node[OF less.prems(1)]] by blast
    have eS: "e \<notin> S" using less.prems(3) by auto
    show ?thesis
    proof (cases "is_leaf e")
      case True
      then have "creator_children e = []" "creator_post e g1 = Inr g1" by (cases e; simp add: is_leaf_def creator_children_def creator_post_def)+
      then show ?thesis using pre new by (auto simp: creator_visit.simps[of R e])
    next
      case False
      note pr = visiting_pre(1)[OF less.prems(2) relinked_pre[OF pre(1) False] new eS]
      have "\<exists>M2 g2. res_fold (creator_visit R) cs (M, g1) = Inr (M2, g2) \<and> visiting (insert e S) M2 g2 \<and>
          M2 \<subseteq> M \<union> {x. size x < size e} \<and> (\<forall>j. in_map j g1 \<longrightarrow> in_map j g2)"
        if "set cs \<subseteq> set (creator_children e)" "visiting (insert e S) M g1" "\<forall>c \<in> set cs. in_map c g1" for cs M g1
        using that
      proof (induction cs arbitrary: M g1)
        case (Cons c cs)
        have cc: "c \<in> set (creator_children e)" "in_map c g1" using Cons.prems(1,3) by simp_all
        have sz: "size c < size e" by (rule creator_children_size[OF cc(1)])
        have S: "\<forall>s \<in> insert e S. size c < size s" using sz less.prems(3) by (auto dest: less_trans)
        obtain Ma ga where c: "creator_visit R c (M, g1) = Inr (Ma, ga)" "\<forall>j. in_map j g1 \<longrightarrow> in_map j ga"
          using less.hyps[OF sz creatable_child[OF less.prems(1) cc(1)] Cons.prems(2) S cc(2)] by blast
        note ok = creator_visit_ok[OF c(1) Cons.prems(2) S]
        have "\<forall>d \<in> set cs. in_map d ga" using Cons.prems(3) c(2) by simp
        then obtain M2 g2 where r: "res_fold (creator_visit R) cs (Ma, ga) = Inr (M2, g2)" "visiting (insert e S) M2 g2"
          "M2 \<subseteq> Ma \<union> {x. size x < size e}" "\<forall>j. in_map j ga \<longrightarrow> in_map j g2"
          using Cons.IH[of Ma ga] Cons.prems(1) ok by auto
        have "Ma \<subseteq> M \<union> {x. size x < size e}" using ok sz by fastforce
        then show ?case using r c by auto
      qed simp
      from this[OF subset_refl pr] pre(2) obtain M2 g2 where k: "res_fold (creator_visit R) (creator_children e) (M, g1) = Inr (M2, g2)"
        "visiting (insert e S) M2 g2" "M2 \<subseteq> M \<union> {x. size x < size e}" "\<forall>j. in_map j g1 \<longrightarrow> in_map j g2" by auto
      have eM: "e \<notin> M2" using k(3) new by auto
      have "in_map e g2" using less.prems(4) pre(2) k(4) by blast
      note an = AddNode_returns[OF k(2) eM this]
      have "\<exists>g'. creator_post e g2 = Inr g' \<and> (\<forall>j. in_map j g2 \<longrightarrow> in_map j g')"
        using an creatable_node[OF less.prems(1)] by (cases e) (auto simp: creator_post_def node_creatable_def)
      then show ?thesis using new pre k by (auto simp: creator_visit.simps[of R e])
    qed
  qed
qed


section \<open>Which nodes are listed, and which edges are made\<close>

text \<open>
  What a node uses, read off the expression: itself and what its children use, where nothing below a
  function compiled elsewhere is looked at.
\<close>

definition external :: "expr \<Rightarrow> bool" where
  "external e \<longleftrightarrow> (case e of Function u ps b t at \<Rightarrow> compiled at | _ \<Rightarrow> False)"

inductive node_uses :: "expr \<Rightarrow> expr \<Rightarrow> bool" where
  uses_self: "node_uses e e"
| uses_child: "\<not> external e \<Longrightarrow> c \<in> set (children True e) \<Longrightarrow> node_uses c k \<Longrightarrow> node_uses e k"

lemma creator_children_uses:
  "node_creatable e \<Longrightarrow> set (creator_children e) = (if external e then {} else set (children True e))"
  by (cases e) (auto simp: creator_children_def external_def node_creatable_def)

lemma node_uses_iff:
  assumes "node_creatable e"
  shows "node_uses e k \<longleftrightarrow> k = e \<or> (\<exists>c \<in> set (creator_children e). node_uses c k)"
  unfolding creator_children_uses[OF assms] using node_uses.intros by (subst node_uses.simps) auto

text \<open>\<open>k\<close> comes before \<open>x\<close> in \<open>L\<close>.\<close>

definition precedes :: "expr list \<Rightarrow> expr \<Rightarrow> expr \<Rightarrow> bool" where
  "precedes L k x \<longleftrightarrow> (\<exists>a b. L = a @ x # b \<and> k \<in> set a)"

lemma precedes_append: "precedes L k x \<Longrightarrow> precedes (L @ r) k x"
  unfolding precedes_def by fastforce

lemma precedes_last: "k \<in> set L \<Longrightarrow> precedes (L @ [x]) k x"
  unfolding precedes_def by blast

lemma precedes_nth:
  assumes "distinct L" and "precedes L k (L ! i)" and "i < length L"
  shows "\<exists>j < i. L ! j = k"
proof -
  obtain a b where L: "L = a @ (L ! i) # b" "k \<in> set a" using assms(2) by (auto simp: precedes_def)
  have "length a < length L" "L ! length a = L ! i" using arg_cong[OF L(1), of length] arg_cong[OF L(1), of "\<lambda>l. l ! length a"] by auto
  then have "length a = i" using assms(1,3) by (simp add: nth_eq_iff_index_eq)
  moreover obtain j where j: "j < length a" "a ! j = k" using L(2) by (auto simp: in_set_conv_nth)
  moreover have "L ! j = a ! j" using j(1) by (subst L(1)) (simp add: nth_append)
  ultimately show ?thesis by blast
qed

text \<open>The visited nodes \<open>M\<close> and the graph: closed under uses, listed after them, linked to their arguments.\<close>

definition listed :: "expr set \<Rightarrow> ifg \<Rightarrow> bool" where
  "listed M g \<longleftrightarrow> set (post_dfs_order g) = {k \<in> M. addable k} \<and> (\<forall>x \<in> M. \<forall>k. node_uses x k \<longrightarrow> k \<in> M) \<and>
     (\<forall>x \<in> M. addable x \<longrightarrow> (\<forall>k. node_uses x k \<and> k \<noteq> x \<and> addable k \<longrightarrow> precedes (post_dfs_order g) k x)) \<and>
     (\<forall>x \<in> M. set (call_args x) \<subseteq> sources g x)"

abbreviation adds_links :: "ifg \<Rightarrow> ifg \<Rightarrow> bool" where
  "adds_links g g' \<equiv> sources g \<le> sources g'"

lemma listed_adds:
  assumes "listed M g" and "post_dfs_order g' = post_dfs_order g" and "adds_links g g'"
  shows "listed M g'"
  using assms(1) le_funD[OF assms(3)] unfolding listed_def assms(2) by (blast intro: subset_trans)

lemma listed_insert:
  assumes l: "listed M g" and u: "\<forall>k. node_uses e k \<longrightarrow> k = e \<or> k \<in> M" and o: "post_dfs_order g' = post_dfs_order g @ (if addable e then [e] else [])"
    and s: "adds_links g g'" "set (call_args e) \<subseteq> sources g' e"
  shows "listed (insert e M) g'"
  unfolding listed_def
proof (intro conjI ballI allI impI; (elim conjE)?)
  show "set (post_dfs_order g') = {k \<in> insert e M. addable k}" using l o by (auto simp: listed_def)
  fix x assume x: "x \<in> insert e M"
  show "k \<in> insert e M" if "node_uses x k" for k using x that u l by (auto simp: listed_def)
  show "set (call_args x) \<subseteq> sources g' x"
  proof (cases "x = e")
    case False
    then have "set (call_args x) \<subseteq> sources g x" using x l by (simp add: listed_def)
    also have "\<dots> \<subseteq> sources g' x" using s(1) by (rule le_funD)
    finally show ?thesis .
  qed (simp add: s(2))
  fix k assume k: "addable x" "node_uses x k" "k \<noteq> x" "addable k"
  show "precedes (post_dfs_order g') k x"
  proof (cases "x = e")
    case True
    then have "k \<in> set (post_dfs_order g)" using k u l by (auto simp: listed_def)
    then show ?thesis using precedes_last o k True by simp
  next
    case False
    then show ?thesis using x k l precedes_append unfolding o listed_def by auto
  qed
qed

lemma AddNode_effect: "AddNode e g = Inr g' \<Longrightarrow> post_dfs_order g' = post_dfs_order g @ [e] \<and> adds_links g g'"
  by (auto simp: AddNode_def sources_set_node le_fun_def split: option.splits if_splits) (auto simp: sources_def set_node_def)

lemma relinked_adds: "relinked e g g' \<Longrightarrow> adds_links g g'"
  unfolding relinked_def le_fun_def by (metis order_refl)

lemma Update_source: "x \<in> sources (Update x (Some (NodeOf p)) pat g) p"
  by (simp add: Update_def Let_def sources_set_node)

lemma Update_adds: "adds_links g (Update k par pat g)"
  by (auto simp: le_fun_def Update_def Let_def sources_set_node current_node_sources split: option.splits)

lemma pre_call_links:
  assumes "pre_call R e f as g = Inr g'"
  shows "set as \<subseteq> sources g' e"
proof -
  have "set as \<subseteq> sources g' e \<and> adds_links h g'"
    if "res_fold (\<lambda>arg g. and_then (known_type arg) (\<lambda>arg_type. Inr (Update arg (Some (NodeOf e)) (call_arg_pattern pat arg_type rt) g))) as h = Inr g'"
    for h pat rt
    using that
  proof (induction as arbitrary: h)
    case (Cons a as)
    obtain t where "res_fold (\<lambda>arg g. and_then (known_type arg) (\<lambda>arg_type. Inr (Update arg (Some (NodeOf e)) (call_arg_pattern pat arg_type rt) g)))
        as (Update a (Some (NodeOf e)) (call_arg_pattern pat t rt) h) = Inr g'"
      using Cons.prems by (auto simp: and_then_eq_Inr)
    note ih = Cons.IH[OF this]
    have "a \<in> sources g' e" by (rule subsetD[OF le_funD[OF conjunct2[OF ih]] Update_source])
    moreover have "adds_links h g'" by (rule order_trans[OF Update_adds conjunct2[OF ih]])
    ultimately show ?case using ih by simp
  qed simp
  then show ?thesis using assms unfolding pre_call_def by (auto simp: and_then_eq_Inr)
qed

lemma creator_pre_effect:
  assumes "creator_pre R e g = Inr g'"
  shows "post_dfs_order g' = post_dfs_order g @ (if is_leaf e then [e] else []) \<and> adds_links g g' \<and> set (call_args e) \<subseteq> sources g' e"
proof (cases "is_leaf e")
  case True
  obtain h where h: "AddNode e g = Inr h" "g' = h \<or> (\<exists>pat. set_pattern e pat h = Inr g')"
    using assms True by (cases e) (auto simp: is_leaf_def creator_pre_def and_then_eq_Inr)
  have "post_dfs_order g' = post_dfs_order h" "sources g' = sources h" using h(2) set_pattern_same[of e _ h g'] by auto
  moreover have "call_args e = []" using True by (cases e) (simp_all add: is_leaf_def)
  ultimately show ?thesis using True AddNode_effect[OF h(1)] by simp
next
  case False
  have "set (call_args e) \<subseteq> sources g' e"
    using assms pre_call_links[of R e _ _ g g'] by (cases e) (auto simp: creator_pre_def)
  then show ?thesis using False relinked_pre[OF assms False] relinked_adds by (auto simp: relinked_def)
qed

lemma creator_post_effect:
  assumes "creator_post e g = Inr g'"
  shows "post_dfs_order g' = post_dfs_order g @ (if addable e \<and> \<not> is_leaf e then [e] else []) \<and> adds_links g g'"
  using assms AddNode_effect[of e g g'] by (cases e) (auto simp: creator_post_def addable_def is_leaf_def)

theorem creator_visit_listed:
  "creator_visit R e (M, g) = Inr (M', g') \<Longrightarrow> creatable e \<Longrightarrow> listed M g \<Longrightarrow>
   listed M' g' \<and> M' = M \<union> {k. node_uses e k} \<and> adds_links g g'"
proof (induction "size e" arbitrary: e M g M' g' rule: less_induct)
  case less
  note ui = node_uses_iff[OF creatable_node[OF less.prems(2)]]
  show ?case
  proof (cases "e \<in> M")
    case True
    then show ?thesis using less.prems by (auto simp: creator_visit.simps listed_def)
  next
    case new: False
    obtain g1 M2 g2 where pre: "creator_pre R e g = Inr g1"
      and kids: "res_fold (creator_visit R) (creator_children e) (M, g1) = Inr (M2, g2)"
      and post: "creator_post e g2 = Inr g'" and M': "M' = insert e M2"
      using less.prems(1) new by (auto simp: creator_visit.simps[of R e] and_then_eq_Inr)
    note ef = creator_pre_effect[OF pre] creator_post_effect[OF post]
    show ?thesis
    proof (cases "is_leaf e")
      case True
      then have ch: "creator_children e = []" "addable e" by (cases e; simp add: is_leaf_def creator_children_def addable_def)+
      then have g': "M2 = M" "post_dfs_order g' = post_dfs_order g @ [e]" "adds_links g g'" "set (call_args e) \<subseteq> sources g' e"
        using kids ef True by (auto intro: order_trans dest: le_funD[of _ _ e])
      have "listed (insert e M) g'"
        by (rule listed_insert[OF less.prems(3)]) (use ui ch g' in auto)
      then show ?thesis using M' ui ch g' by auto
    next
      case False
      have "listed M2 g2 \<and> M2 = M \<union> {k. \<exists>c \<in> set cs. node_uses c k} \<and> adds_links g1 g2"
        if "set cs \<subseteq> set (creator_children e)" "res_fold (creator_visit R) cs (M, g1) = Inr (M2, g2)" "listed M g1"
        for cs M g1 M2 g2
        using that
      proof (induction cs arbitrary: M g1)
        case (Cons c cs)
        obtain Ma ga where c: "creator_visit R c (M, g1) = Inr (Ma, ga)" "res_fold (creator_visit R) cs (Ma, ga) = Inr (M2, g2)"
          using Cons.prems(2) by (auto simp: and_then_eq_Inr)
        have cc: "c \<in> set (creator_children e)" using Cons.prems(1) by simp
        note a = less.hyps[OF creator_children_size[OF cc] c(1) creatable_child[OF less.prems(2) cc] Cons.prems(3)]
        note b = Cons.IH[OF _ c(2)]
        show ?case using a b Cons.prems(1) by (auto intro: order_trans)
      qed simp
      from this[OF subset_refl kids listed_adds[OF less.prems(3)]] ef False
      have k: "listed M2 g2" "M2 = M \<union> {k. \<exists>c \<in> set (creator_children e). node_uses c k}" "adds_links g1 g2" by auto
      have gr: "adds_links g1 g'" "adds_links g g'" using ef k(3) by (auto intro: order_trans)
      have "listed (insert e M2) g'"
        by (rule listed_insert[OF k(1)]) (use ui k(2) ef False le_funD[OF gr(1), of e] in auto)
      moreover note gr(2)
      ultimately show ?thesis using M' k(2) ui by auto
    qed
  qed
qed


lemma Create_ordered:
  assumes "creatable body"
  shows "\<exists>g. Create R body = Inr g \<and> distinct (post_dfs_order g) \<and>
    (\<forall>i < length (post_dfs_order g). \<exists>nd. map_of (node_map g) (post_dfs_order g ! i) = Some nd \<and>
       node_ref nd = Some (post_dfs_order g ! i) \<and> node_index nd = i \<and>
       (\<forall>l \<in> set (node_outputs_of nd). \<forall>p. edge_node l = NodeOf p \<longrightarrow>
          (\<exists>j < length (post_dfs_order g). i < j \<and> post_dfs_order g ! j = p)))"
proof -
  let ?g = "extern_use body empty_ifg"
  have src: "sources ?g p = {}" for p
    by (auto simp: sources_def Update_def Let_def set_node_def empty_ifg_def current_node_def new_ifg_node_def split: if_splits)
  have v0: "visiting {} {} ?g"
    unfolding visiting_def src by (auto simp: indexed_def place_def Update_def Let_def set_node_def empty_ifg_def current_node_def new_ifg_node_def)
  obtain M g where r: "creator_visit R body ({}, ?g) = Inr (M, g)" using creator_visit_returns[OF assms v0, of R] by auto
  have v: "visiting {} M g" using creator_visit_ok[OF r v0] by blast
  have ind: "indexed g" and ord: "set (post_dfs_order g) = {k \<in> M. addable k}" using v by (simp_all add: visiting_def)
  have pl: "place g (post_dfs_order g ! i) = Some (Some (post_dfs_order g ! i), i)" if "i < length (post_dfs_order g)" for i
    using ind that by (simp add: indexed_def)
  have "\<exists>nd. map_of (node_map g) (post_dfs_order g ! i) = Some nd \<and>
       node_ref nd = Some (post_dfs_order g ! i) \<and> node_index nd = i \<and>
       (\<forall>l \<in> set (node_outputs_of nd). \<forall>p. edge_node l = NodeOf p \<longrightarrow>
          (\<exists>j < length (post_dfs_order g). i < j \<and> post_dfs_order g ! j = p))" if i: "i < length (post_dfs_order g)" for i
  proof -
    let ?k = "post_dfs_order g ! i"
    obtain nd where nd: "map_of (node_map g) ?k = Some nd" "node_ref nd = Some ?k" "node_index nd = i"
      using pl[OF i] by (auto simp: place_def)
    have "\<exists>j < length (post_dfs_order g). i < j \<and> post_dfs_order g ! j = p"
      if "l \<in> set (node_outputs_of nd)" "edge_node l = NodeOf p" for l p
    proof -
      have k: "?k \<in> sources g p" using nd(1) that by (force simp: sources_def)
      have p: "p \<in> M" "addable p" using visitingD(1,2)[OF v k] by auto
      have ik: "index_of g ?k < index_of g p" using visitingD(4)[OF v k p(1)] nth_mem[OF i] ord by auto
      have "p \<in> set (post_dfs_order g)" using p ord by blast
      then obtain j where j: "j < length (post_dfs_order g)" "post_dfs_order g ! j = p" by (auto simp: in_set_conv_nth)
      have "index_of g ?k = i" "index_of g p = j" using pl[OF i] pl[OF j(1)] j(2) by (auto simp: index_of_place)
      then show ?thesis using ik j by auto
    qed
    then show ?thesis using nd by blast
  qed
  moreover have "Create R body = Inr g" using r by (simp add: Create_def Prepare_def)
  moreover have "distinct (post_dfs_order g)" using ind by (simp add: indexed_def)
  ultimately show ?thesis by blast
qed

lemma Create_listed:
  assumes "creatable body" and "Create R body = Inr g"
  shows "set (post_dfs_order g) = {k. node_uses body k \<and> addable k}"
    "node_uses body x \<Longrightarrow> addable x \<Longrightarrow> node_uses x k \<Longrightarrow> k \<noteq> x \<Longrightarrow> addable k \<Longrightarrow> precedes (post_dfs_order g) k x"
    "node_uses body x \<Longrightarrow> set (call_args x) \<subseteq> sources g x"
proof -
  let ?g = "extern_use body empty_ifg"
  obtain M where r: "creator_visit R body ({}, ?g) = Inr (M, g)"
    using assms(2) by (auto simp: Create_def Prepare_def and_then_eq_Inr)
  have "listed {} ?g" by (simp add: listed_def Update_def Let_def empty_ifg_def)
  from creator_visit_listed[OF r assms(1) this] have "listed {k. node_uses body k} g" by auto
  then show "set (post_dfs_order g) = {k. node_uses body k \<and> addable k}"
    "node_uses body x \<Longrightarrow> addable x \<Longrightarrow> node_uses x k \<Longrightarrow> k \<noteq> x \<Longrightarrow> addable k \<Longrightarrow> precedes (post_dfs_order g) k x"
    "node_uses body x \<Longrightarrow> set (call_args x) \<subseteq> sources g x" by (simp_all add: listed_def)
qed

section \<open>Properties\<close>

text \<open>C27: \<^verbatim>\<open>IndexedForwardGraph.Create\<close> returns for a function without tuple projections and \<^verbatim>\<open>let\<close>, whose calls are
  typed. Its order lists every node the body uses, directly or not, once (operators, constructors, global
  names and functions, which have no place in it, apart), and every node after all the nodes it uses.
  Every listed node carries its position as its index; every argument of a call has an edge to the call;
  and every edge between nodes goes to a node with a higher index.\<close>

theorem Create_post_order:
  assumes "creatable body"
  shows "\<exists>g. Create R body = Inr g \<and> distinct (post_dfs_order g) \<and>
    set (post_dfs_order g) = {k. node_uses body k \<and> addable k} \<and>
    (\<forall>i < length (post_dfs_order g). \<forall>k. node_uses (post_dfs_order g ! i) k \<and> k \<noteq> post_dfs_order g ! i \<and> addable k \<longrightarrow>
       (\<exists>j < i. post_dfs_order g ! j = k)) \<and>
    (\<forall>c. node_uses body c \<longrightarrow> set (call_args c) \<subseteq> sources g c) \<and>
    (\<forall>i < length (post_dfs_order g). \<exists>nd. map_of (node_map g) (post_dfs_order g ! i) = Some nd \<and>
       node_ref nd = Some (post_dfs_order g ! i) \<and> node_index nd = i \<and>
       (\<forall>l \<in> set (node_outputs_of nd). \<forall>p. edge_node l = NodeOf p \<longrightarrow>
          (\<exists>j < length (post_dfs_order g). i < j \<and> post_dfs_order g ! j = p)))"
proof -
  from Create_ordered[OF assms, of R] obtain g where g: "Create R body = Inr g" "distinct (post_dfs_order g)"
    "\<forall>i < length (post_dfs_order g). \<exists>nd. map_of (node_map g) (post_dfs_order g ! i) = Some nd \<and>
       node_ref nd = Some (post_dfs_order g ! i) \<and> node_index nd = i \<and>
       (\<forall>l \<in> set (node_outputs_of nd). \<forall>p. edge_node l = NodeOf p \<longrightarrow>
          (\<exists>j < length (post_dfs_order g). i < j \<and> post_dfs_order g ! j = p))" by blast
  note l = Create_listed[OF assms g(1)]
  have "\<exists>j < i. post_dfs_order g ! j = k"
    if "i < length (post_dfs_order g)" "node_uses (post_dfs_order g ! i) k \<and> k \<noteq> post_dfs_order g ! i \<and> addable k" for i k
    using precedes_nth[OF g(2) l(2) that(1)] that(2) nth_mem[OF that(1)] unfolding l(1) by blast
  then show ?thesis using g l(1,3) by blast
qed

definition ex_registry :: op_registry where
  "ex_registry = \<lparr>top_pattern = (\<lambda>_. Some INJECTIVE), dyn_dependent = (\<lambda>_. False)\<rparr>"

theorem Create_post_order_witness:
  "\<exists>g. Create ex_registry ex_main = Inr g \<and> post_dfs_order g = [ex_in, ex_a, ex_b, ex_c, ex_d] \<and> distinct (post_dfs_order g) \<and>
     {k. node_uses ex_main k \<and> addable k} = {ex_in, ex_a, ex_b, ex_c, ex_d}"
proof -
  have "creatable ex_main"
    by (simp add: creatable_def ex_defs subs.simps kids_def node_creatable_def stencil_rel_def grid_ops_def)
  moreover have "(case Create ex_registry ex_main of Inr g \<Rightarrow> post_dfs_order g = [ex_in, ex_a, ex_b, ex_c, ex_d] | _ \<Rightarrow> False)" by code_simp
  ultimately show ?thesis using Create_post_order[of ex_main ex_registry] by auto
qed

end
