(* ===== verification/Dominator_Tree.thy ===== *)
theory Dominator_Tree
  imports Forward_Graph
begin

text \<open>
  \<^verbatim>\<open>DominatorTree\<close> (\<^verbatim>\<open>relay/transform/custom_fuse_ops.py\<close>): the post-dominator tree of the dataflow graph,
  computed from the last node to the first by least common ancestors. A node of the tree is the
  position of its entry in \<^verbatim>\<open>tree.nodes\<close>; a parent is such a position.
\<close>

section \<open>The tree\<close>

record dom_node =
  dom_gnode :: expr
  dom_parent :: "nat option"
  dom_depth :: nat
  dom_pattern :: int

type_synonym dom_tree = "dom_node option list"

definition CombinPattern :: "int \<Rightarrow> int \<Rightarrow> int" where
  "CombinPattern lhs rhs = (if lhs > rhs then lhs else rhs)"

definition combine_link :: "int \<Rightarrow> pattern \<Rightarrow> int res" where
  "combine_link lhs rhs = (case rhs of None \<Rightarrow> Inl TypeError | Some v \<Rightarrow> Inr (CombinPattern lhs v))"

definition lca_continue :: "nat option \<times> nat option \<times> int \<Rightarrow> bool" where
  "lca_continue s = (case s of (l, r, _) \<Rightarrow> l \<noteq> r \<and> l \<noteq> None \<and> r \<noteq> None)"

definition lca_step :: "dom_tree \<Rightarrow> nat option \<times> nat option \<times> int \<Rightarrow> nat option \<times> nat option \<times> int" where
  "lca_step T s = (case s of
     (Some a, Some b, pat) \<Rightarrow>
       (case (T ! a, T ! b) of
          (Some lhs, Some rhs) \<Rightarrow>
            if dom_depth lhs < dom_depth rhs then (Some a, dom_parent rhs, CombinPattern pat (dom_pattern rhs))
            else if dom_depth rhs < dom_depth lhs then (dom_parent lhs, Some b, CombinPattern pat (dom_pattern lhs))
            else (dom_parent lhs, dom_parent rhs, CombinPattern (CombinPattern pat (dom_pattern lhs)) (dom_pattern rhs))
        | _ \<Rightarrow> s)
   | _ \<Rightarrow> s)"

definition LeastCommonAncestor :: "dom_tree \<Rightarrow> nat option \<Rightarrow> nat option \<Rightarrow> int \<Rightarrow> (nat option \<times> int) option" where
  "LeastCommonAncestor T lhs rhs pat =
     map_option (\<lambda>(l, r, pat). (if l = r then l else None, pat)) (while_option lca_continue (lca_step T) (lhs, rhs, pat))"

text \<open>The index of the class \<^verbatim>\<open>tuple\<close> is a method, which cannot be compared with a number.\<close>

definition link_index :: "ifg \<Rightarrow> ifg_edge \<Rightarrow> nat res" where
  "link_index g l = (case edge_node l of TupleClass \<Rightarrow> Inl TypeError | NodeOf p \<Rightarrow> Inr (index_of g p))"

definition get_node :: "ifg \<Rightarrow> dom_tree \<Rightarrow> ifg_edge \<Rightarrow> nat res" where
  "get_node g T l =
     and_then (link_index g l) (\<lambda>oindex.
     and_then (py_assert (oindex < length T)) (\<lambda>_.
     and_then (py_assert (T ! oindex \<noteq> None)) (\<lambda>_. Inr oindex)))"

fun lca_links :: "ifg \<Rightarrow> dom_tree \<Rightarrow> ifg_edge list \<Rightarrow> nat option \<times> int \<Rightarrow> (nat option \<times> int) res option" where
  "lca_links g T [] s = Some (Inr s)"
| "lca_links g T (l # ls) s =
     run_then (Some (get_node g T l)) (\<lambda>o1.
     run_then (map_option Inr (LeastCommonAncestor T (fst s) (Some o1) (snd s))) (\<lambda>(parent, pat).
     run_then (Some (combine_link pat (edge_pattern l))) (\<lambda>pat. lca_links g T ls (parent, pat))))"

definition LeastCommonAncestor_list :: "ifg \<Rightarrow> dom_tree \<Rightarrow> ifg_edge list \<Rightarrow> int \<Rightarrow> (nat option \<times> int) res option" where
  "LeastCommonAncestor_list g T links pat =
     (case links of
        [] \<Rightarrow> Some (Inr (None, pat))
      | l # ls \<Rightarrow>
          run_then (Some (get_node g T l)) (\<lambda>o1.
          run_then (Some (combine_link pat (edge_pattern l))) (\<lambda>pat. lca_links g T ls (Some o1, pat))))"

definition parent_depth :: "dom_tree \<Rightarrow> nat option \<Rightarrow> nat" where
  "parent_depth T p = (case p of None \<Rightarrow> 0 | Some i \<Rightarrow> (case T ! i of None \<Rightarrow> 0 | Some t \<Rightarrow> dom_depth t))"

definition GetNode :: "ifg \<Rightarrow> dom_tree \<Rightarrow> expr \<Rightarrow> ifg_node \<Rightarrow> dom_node res option" where
  "GetNode g T gnode nd =
     (if extern_ref nd then Some (Inr \<lparr>dom_gnode = gnode, dom_parent = None, dom_depth = 1, dom_pattern = OPAQUE\<rparr>)
      else run_then (LeastCommonAncestor_list g T (node_outputs_of nd) ELEMWISE) (\<lambda>(parent, pat).
        Some (Inr \<lparr>dom_gnode = gnode, dom_parent = parent, dom_depth = parent_depth T parent + 1, dom_pattern = pat\<rparr>)))"

fun post_dom_from :: "ifg \<Rightarrow> dom_tree \<Rightarrow> nat \<Rightarrow> dom_tree res option" where
  "post_dom_from g T 0 = Some (Inr T)"
| "post_dom_from g T (Suc i) =
     run_then (Some (dict_get (node_map g) (post_dfs_order g ! i))) (\<lambda>nd.
     run_then (GetNode g T (post_dfs_order g ! i) nd) (\<lambda>t. post_dom_from g (T[i := Some t]) i))"

definition PostDom :: "ifg \<Rightarrow> dom_tree res option" where
  "PostDom g = post_dom_from g (replicate (length (post_dfs_order g)) None) (length (post_dfs_order g))"


section \<open>Ancestors in the tree\<close>

definition parent_rel :: "dom_tree \<Rightarrow> (nat \<times> nat) set" where
  "parent_rel T = {(a, p). a < length T \<and> (\<exists>t. T ! a = Some t \<and> dom_parent t = Some p)}"

definition chain :: "dom_tree \<Rightarrow> nat option \<Rightarrow> nat set" where
  "chain T x = (case x of None \<Rightarrow> {} | Some a \<Rightarrow> {b. (a, b) \<in> (parent_rel T)\<^sup>*})"

text \<open>The entries from \<open>m\<close> on are a forest in which a parent comes after its children and is one level higher.\<close>

definition entry_ok :: "dom_tree \<Rightarrow> nat \<Rightarrow> bool" where
  "entry_ok T j \<longleftrightarrow> (\<exists>t. T ! j = Some t \<and> dom_depth t = parent_depth T (dom_parent t) + 1 \<and>
     (\<forall>p. dom_parent t = Some p \<longrightarrow> j < p \<and> p < length T))"

definition tree_ok :: "dom_tree \<Rightarrow> nat \<Rightarrow> bool" where
  "tree_ok T m \<longleftrightarrow> (\<forall>j. m \<le> j \<and> j < length T \<longrightarrow> entry_ok T j)"

definition valid :: "dom_tree \<Rightarrow> nat \<Rightarrow> nat option \<Rightarrow> bool" where
  "valid T m x \<longleftrightarrow> (\<forall>a. x = Some a \<longrightarrow> m \<le> a \<and> a < length T)"

lemma chain_None [simp]: "chain T None = {}"
  by (simp add: chain_def)

lemma chain_self [simp]: "a \<in> chain T (Some a)"
  by (simp add: chain_def)

lemma chain_unfold:
  assumes "a < length T" and "T ! a = Some t"
  shows "chain T (Some a) = insert a (chain T (dom_parent t))"
proof -
  have "(a, b) \<in> (parent_rel T)\<^sup>* \<longleftrightarrow> b = a \<or> b \<in> chain T (dom_parent t)" for b
  proof
    assume "(a, b) \<in> (parent_rel T)\<^sup>*"
    then show "b = a \<or> b \<in> chain T (dom_parent t)"
      by (cases rule: converse_rtranclE) (auto simp: parent_rel_def assms chain_def)
  next
    assume "b = a \<or> b \<in> chain T (dom_parent t)"
    then show "(a, b) \<in> (parent_rel T)\<^sup>*"
    proof
      assume b: "b \<in> chain T (dom_parent t)"
      then obtain p where p: "dom_parent t = Some p" "(p, b) \<in> (parent_rel T)\<^sup>*" by (auto simp: chain_def split: option.splits)
      have "(a, p) \<in> parent_rel T" using assms p(1) by (simp add: parent_rel_def)
      then show ?thesis using p(2) by (rule converse_rtrancl_into_rtrancl)
    qed simp
  qed
  then show ?thesis by (auto simp: chain_def)
qed

lemma tree_okD:
  assumes "tree_ok T m" and "m \<le> a" and "a < length T"
  obtains t where "T ! a = Some t" "dom_depth t = parent_depth T (dom_parent t) + 1" "valid T m (dom_parent t)"
    "\<forall>p. dom_parent t = Some p \<longrightarrow> a < p"
  using assms unfolding tree_ok_def entry_ok_def valid_def by (meson le_trans less_imp_le)

lemma parent_depth_Some [simp]: "T ! a = Some t \<Longrightarrow> parent_depth T (Some a) = dom_depth t"
  by (simp add: parent_depth_def)

lemma parent_depth_None [simp]: "parent_depth T None = 0"
  by (simp add: parent_depth_def)

lemma chain_depth:
  assumes T: "tree_ok T m" and "m \<le> a" and "a < length T" and "b \<in> chain T (Some a)"
  shows "b < length T \<and> (b = a \<or> parent_depth T (Some b) < parent_depth T (Some a))"
  using assms(2-4)
proof (induction "length T - a" arbitrary: a rule: less_induct)
  case less
  obtain t where t: "T ! a = Some t" "dom_depth t = parent_depth T (dom_parent t) + 1" "valid T m (dom_parent t)"
    "\<forall>p. dom_parent t = Some p \<longrightarrow> a < p" by (rule tree_okD[OF T less.prems(1,2)])
  show ?case
  proof (cases "b = a")
    case False
    then have "b \<in> chain T (dom_parent t)" using less.prems(3) chain_unfold[OF less.prems(2) t(1)] by blast
    then obtain p where p: "dom_parent t = Some p" "b \<in> chain T (Some p)" by (cases "dom_parent t") auto
    have "a < p" "m \<le> p" "p < length T" using t(3,4) p(1) by (auto simp: valid_def)
    then have "b < length T \<and> (b = p \<or> parent_depth T (Some b) < parent_depth T (Some p))"
      using less.hyps[of p] p(2) by simp
    moreover have "parent_depth T (Some p) < parent_depth T (Some a)" using t(1,2) p(1) by simp
    ultimately show ?thesis by auto
  qed (use less.prems(2) in simp)
qed

text \<open>The least common ancestor: the loop returns, and the ancestors of its result are the common ones.\<close>

lemma LeastCommonAncestor_ok:
  assumes T: "tree_ok T m" and l: "valid T m l0" and r: "valid T m r0"
  shows "\<exists>c pat'. LeastCommonAncestor T l0 r0 pat = Some (c, pat') \<and> valid T m c \<and> chain T c = chain T l0 \<inter> chain T r0"
proof -
  let ?P = "\<lambda>(l, r, pat :: int). valid T m l \<and> valid T m r \<and> chain T l \<inter> chain T r = chain T l0 \<inter> chain T r0"
  let ?m = "\<lambda>(l, r, pat :: int). parent_depth T l + parent_depth T r"
  have step: "?P (lca_step T s) \<and> ?m (lca_step T s) < ?m s" if P: "?P s" and c: "lca_continue s" for s
  proof -
    obtain a b pat where s: "s = (Some a, Some b, pat)" "a \<noteq> b" using c by (auto simp: lca_continue_def)
    have ab: "m \<le> a" "a < length T" "m \<le> b" "b < length T" using P s by (auto simp: valid_def)
    obtain ta where ta: "T ! a = Some ta" "dom_depth ta = parent_depth T (dom_parent ta) + 1" "valid T m (dom_parent ta)"
      by (rule tree_okD[OF T ab(1,2)])
    obtain tb where tb: "T ! b = Some tb" "dom_depth tb = parent_depth T (dom_parent tb) + 1" "valid T m (dom_parent tb)"
      by (rule tree_okD[OF T ab(3,4)])
    have ca: "chain T (Some a) = insert a (chain T (dom_parent ta))" by (rule chain_unfold[OF ab(2) ta(1)])
    have cb: "chain T (Some b) = insert b (chain T (dom_parent tb))" by (rule chain_unfold[OF ab(4) tb(1)])
    have b_notin: "b \<notin> chain T (Some a)" if "dom_depth ta \<le> dom_depth tb"
      using chain_depth[OF T ab(1,2), of b] that s(2) ta(1) tb(1) by auto
    have a_notin: "a \<notin> chain T (Some b)" if "dom_depth tb \<le> dom_depth ta"
      using chain_depth[OF T ab(3,4), of a] that s(2) ta(1) tb(1) by auto
    have I: "chain T (Some a) \<inter> chain T (Some b) = chain T l0 \<inter> chain T r0" using P s by simp
    consider "dom_depth ta < dom_depth tb" | "dom_depth tb < dom_depth ta" | "dom_depth ta = dom_depth tb" by linarith
    then show ?thesis
    proof cases
      case 1
      then have "chain T (Some a) \<inter> chain T (dom_parent tb) = chain T l0 \<inter> chain T r0" using I cb b_notin by auto
      then show ?thesis using 1 s ta tb P by (simp add: lca_step_def)
    next
      case 2
      then have "chain T (dom_parent ta) \<inter> chain T (Some b) = chain T l0 \<inter> chain T r0" using I ca a_notin by auto
      then show ?thesis using 2 s ta tb P by (simp add: lca_step_def)
    next
      case 3
      then have "chain T (dom_parent ta) \<inter> chain T (dom_parent tb) = chain T l0 \<inter> chain T r0" using I ca cb a_notin b_notin by auto
      then show ?thesis using 3 s ta tb by (simp add: lca_step_def)
    qed
  qed
  have "\<exists>st. while_option lca_continue (lca_step T) (l0, r0, pat) = Some st \<and> ?P st \<and> \<not> lca_continue st"
    by (rule while_option_total[where P = ?P and m = ?m]) (use l r step in auto)
  then obtain st where st: "while_option lca_continue (lca_step T) (l0, r0, pat) = Some st" "?P st" "\<not> lca_continue st" by blast
  obtain l r pat' where lr: "st = (l, r, pat')" by (cases st)
  note w = st[unfolded lr]
  let ?c = "if l = r then l else None"
  have "chain T ?c = chain T l0 \<inter> chain T r0" "valid T m ?c" using w(2,3) by (auto simp: lca_continue_def valid_def)
  then show ?thesis using w(1) by (auto simp: LeastCommonAncestor_def)
qed



section \<open>Post-dominators\<close>

text \<open>
  A graph whose order is topological and whose edges end in nodes of the order, with known patterns. A
  node leaves the graph if it is referenced from outside or has no outputs.
\<close>

definition node_at :: "ifg \<Rightarrow> nat \<Rightarrow> ifg_node" where
  "node_at g i = current_node g (post_dfs_order g ! i)"

definition succs :: "ifg \<Rightarrow> nat \<Rightarrow> nat set" where
  "succs g i = {j. j < length (post_dfs_order g) \<and> (\<exists>l \<in> set (node_outputs_of (node_at g i)). edge_node l = NodeOf (post_dfs_order g ! j))}"

definition exits :: "ifg \<Rightarrow> nat \<Rightarrow> bool" where
  "exits g i \<longleftrightarrow> extern_ref (node_at g i) \<or> node_outputs_of (node_at g i) = []"

definition flow_graph :: "ifg \<Rightarrow> bool" where
  "flow_graph g \<longleftrightarrow> distinct (post_dfs_order g) \<and> (\<forall>i < length (post_dfs_order g).
     map_of (node_map g) (post_dfs_order g ! i) = Some (node_at g i) \<and> node_index (node_at g i) = i \<and>
     (\<forall>l \<in> set (node_outputs_of (node_at g i)). edge_pattern l \<noteq> None \<and>
        (\<exists>j < length (post_dfs_order g). i < j \<and> edge_node l = NodeOf (post_dfs_order g ! j))))"

inductive exit_path :: "ifg \<Rightarrow> nat \<Rightarrow> nat list \<Rightarrow> bool" where
  stop: "i < length (post_dfs_order g) \<Longrightarrow> exits g i \<Longrightarrow> exit_path g i [i]"
| go: "i < length (post_dfs_order g) \<Longrightarrow> j \<in> succs g i \<Longrightarrow> exit_path g j xs \<Longrightarrow> exit_path g i (i # xs)"

definition post_dominators :: "ifg \<Rightarrow> nat \<Rightarrow> nat set" where
  "post_dominators g i = {x. \<forall>xs. exit_path g i xs \<longrightarrow> x \<in> set xs}"

lemma flow_graphD:
  assumes "flow_graph g" and "i < length (post_dfs_order g)"
  shows "map_of (node_map g) (post_dfs_order g ! i) = Some (node_at g i)" "node_index (node_at g i) = i"
    "\<And>l. l \<in> set (node_outputs_of (node_at g i)) \<Longrightarrow> \<exists>pat j. edge_pattern l = Some pat \<and> j < length (post_dfs_order g) \<and> i < j \<and>
       edge_node l = NodeOf (post_dfs_order g ! j) \<and> link_index g l = Inr j \<and> j \<in> succs g i"
proof -
  show "map_of (node_map g) (post_dfs_order g ! i) = Some (node_at g i)" "node_index (node_at g i) = i"
    using assms by (auto simp: flow_graph_def)
  fix l assume l: "l \<in> set (node_outputs_of (node_at g i))"
  then obtain pat j where j: "edge_pattern l = Some pat" "j < length (post_dfs_order g)" "i < j" "edge_node l = NodeOf (post_dfs_order g ! j)"
    using assms unfolding flow_graph_def by blast
  have "index_of g (post_dfs_order g ! j) = j" using assms(1) j(2) by (simp add: flow_graph_def index_of_def)
  then have "link_index g l = Inr j" using j(4) by (simp add: link_index_def)
  moreover have "j \<in> succs g i" using l j by (auto simp: succs_def)
  ultimately show "\<exists>pat j. edge_pattern l = Some pat \<and> j < length (post_dfs_order g) \<and> i < j \<and>
       edge_node l = NodeOf (post_dfs_order g ! j) \<and> link_index g l = Inr j \<and> j \<in> succs g i" using j by blast
qed

lemma succs_less:
  assumes "flow_graph g" and "i < length (post_dfs_order g)" and "j \<in> succs g i"
  shows "i < j" "j < length (post_dfs_order g)"
proof -
  obtain l where l: "l \<in> set (node_outputs_of (node_at g i))" "edge_node l = NodeOf (post_dfs_order g ! j)" "j < length (post_dfs_order g)"
    using assms(3) by (auto simp: succs_def)
  then obtain k where k: "k < length (post_dfs_order g)" "i < k" "post_dfs_order g ! k = post_dfs_order g ! j"
    using flow_graphD(3)[OF assms(1,2) l(1)] by auto
  then have "k = j" using assms(1) l(3) by (simp add: flow_graph_def nth_eq_iff_index_eq)
  then show "i < j" "j < length (post_dfs_order g)" using k l(3) by simp_all
qed

lemma exit_path_ex:
  assumes "flow_graph g"
  shows "i < length (post_dfs_order g) \<Longrightarrow> \<exists>xs. exit_path g i xs"
proof (induction "length (post_dfs_order g) - i" arbitrary: i rule: less_induct)
  case less
  show ?case
  proof (cases "exits g i")
    case True
    then show ?thesis using exit_path.stop less.prems by blast
  next
    case False
    then obtain l where "l \<in> set (node_outputs_of (node_at g i))" by (cases "node_outputs_of (node_at g i)") (auto simp: exits_def)
    then obtain j where j: "j \<in> succs g i" using flow_graphD(3)[OF assms less.prems] by blast
    note s = succs_less[OF assms less.prems j]
    then have "length (post_dfs_order g) - j < length (post_dfs_order g) - i" by simp
    then obtain xs where "exit_path g j xs" using less.hyps[of j] s(2) by blast
    then show ?thesis using exit_path.go[OF less.prems j] by blast
  qed
qed

lemma post_dominators_unfold:
  assumes "flow_graph g" and "i < length (post_dfs_order g)"
  shows "post_dominators g i = insert i (if exits g i then {} else \<Inter> (post_dominators g ` succs g i))"
proof (intro equalityI subsetI)
  fix x assume x: "x \<in> post_dominators g i"
  show "x \<in> insert i (if exits g i then {} else \<Inter> (post_dominators g ` succs g i))"
  proof (cases "x = i")
    case False
    have "\<not> exits g i"
    proof
      assume "exits g i"
      from exit_path.stop[OF assms(2) this] have "x \<in> set [i]" using x unfolding post_dominators_def by blast
      then show False using False by simp
    qed
    moreover have "x \<in> post_dominators g j" if j: "j \<in> succs g i" for j
      unfolding post_dominators_def
    proof (intro CollectI allI impI)
      fix xs assume "exit_path g j xs"
      from exit_path.go[OF assms(2) j this] have "x \<in> set (i # xs)" using x unfolding post_dominators_def by blast
      then show "x \<in> set xs" using False by simp
    qed
    ultimately show ?thesis by simp
  qed simp
next
  fix x assume x: "x \<in> insert i (if exits g i then {} else \<Inter> (post_dominators g ` succs g i))"
  show "x \<in> post_dominators g i" unfolding post_dominators_def
  proof (intro CollectI allI impI)
    fix xs assume "exit_path g i xs"
    then show "x \<in> set xs"
    proof (cases rule: exit_path.cases)
      case stop
      then show ?thesis using x by simp
    next
      case (go j ys)
      then show ?thesis using x by (auto simp: post_dominators_def split: if_splits)
    qed
  qed
qed

lemma chain_keep:
  assumes T: "tree_ok T m" and "i < m" and "valid T m x"
  shows "chain (T[i := v]) x = chain T x"
proof (cases x)
  case (Some a)
  then have "m \<le> a" "a < length T" using assms(3) by (auto simp: valid_def)
  then have "chain (T[i := v]) (Some a) = chain T (Some a)"
  proof (induction "length T - a" arbitrary: a rule: less_induct)
    case less
    obtain t where t: "T ! a = Some t" "valid T m (dom_parent t)" "\<forall>p. dom_parent t = Some p \<longrightarrow> a < p"
      by (rule tree_okD[OF T less.prems])
    have t': "T[i := v] ! a = Some t" using t(1) less.prems(1) assms(2) by simp
    have "chain (T[i := v]) (dom_parent t) = chain T (dom_parent t)"
    proof (cases "dom_parent t")
      case (Some p)
      then have "a < p" "m \<le> p" "p < length T" using t(2,3) by (auto simp: valid_def)
      then show ?thesis using less.hyps[of p] Some by simp
    qed simp
    then show ?case using chain_unfold[OF less.prems(2) t(1)] chain_unfold[of a "T[i := v]" t] t' less.prems(2) by simp
  qed
  then show ?thesis using Some by simp
qed simp

lemma parent_depth_keep: "i < m \<Longrightarrow> valid T m x \<Longrightarrow> parent_depth (T[i := v]) x = parent_depth T x"
  by (auto simp: parent_depth_def valid_def split: option.splits)

lemma tree_ok_update:
  assumes T: "tree_ok T (Suc i)" and "i < length T" and p: "valid T (Suc i) (dom_parent t)"
    and d: "dom_depth t = parent_depth T (dom_parent t) + 1"
  shows "tree_ok (T[i := Some t]) i"
  unfolding tree_ok_def
proof (intro allI impI)
  fix j assume j: "i \<le> j \<and> j < length (T[i := Some t])"
  show "entry_ok (T[i := Some t]) j"
  proof (cases "j = i")
    case True
    have "\<forall>q. dom_parent t = Some q \<longrightarrow> i < q \<and> q < length T" using p by (auto simp: valid_def)
    then show ?thesis using True assms(2) d parent_depth_keep[OF _ p, of i] by (simp add: entry_ok_def)
  next
    case False
    then have j': "Suc i \<le> j" "j < length T" using j by simp_all
    obtain tj where tj: "T ! j = Some tj" "dom_depth tj = parent_depth T (dom_parent tj) + 1" "valid T (Suc i) (dom_parent tj)"
      "\<forall>q. dom_parent tj = Some q \<longrightarrow> j < q" by (rule tree_okD[OF T j'])
    have "\<forall>q. dom_parent tj = Some q \<longrightarrow> j < q \<and> q < length T" using tj(3,4) by (auto simp: valid_def)
    moreover have "T[i := Some t] ! j = Some tj" using tj(1) False by simp
    ultimately show ?thesis using tj(2) parent_depth_keep[OF _ tj(3), of i] by (auto simp: entry_ok_def)
  qed
qed



section \<open>The tree of post-dominators\<close>

lemma get_node_Inr:
  assumes "tree_ok T m" and "link_index g l = Inr j" and "m \<le> j" and "j < length T"
  shows "get_node g T l = Inr j"
proof -
  obtain t where "T ! j = Some t" by (rule tree_okD[OF assms(1,3,4)])
  then show ?thesis using assms by (simp add: get_node_def)
qed

lemma lca_links_ok:
  assumes T: "tree_ok T m"
  shows "\<forall>l \<in> set ls. edge_pattern l \<noteq> None \<and> link_index g l = Inr (J l) \<and> m \<le> J l \<and> J l < length T \<Longrightarrow> valid T m x \<Longrightarrow>
    \<exists>c pat'. lca_links g T ls (x, pat) = Some (Inr (c, pat')) \<and> valid T m c \<and>
      chain T c = chain T x \<inter> (\<Inter>l \<in> set ls. chain T (Some (J l)))"
proof (induction ls arbitrary: x pat)
  case (Cons l ls)
  have l: "link_index g l = Inr (J l)" "m \<le> J l" "J l < length T" using Cons.prems(1) by simp_all
  have "valid T m (Some (J l))" using l by (simp add: valid_def)
  then obtain c pat1 where c: "LeastCommonAncestor T x (Some (J l)) pat = Some (c, pat1)" "valid T m c"
    "chain T c = chain T x \<inter> chain T (Some (J l))"
    using LeastCommonAncestor_ok[OF T Cons.prems(2)] by blast
  obtain v where v: "edge_pattern l = Some v" using Cons.prems(1) by auto
  obtain c' pat' where r: "lca_links g T ls (c, CombinPattern pat1 v) = Some (Inr (c', pat'))" "valid T m c'"
    "chain T c' = chain T c \<inter> (\<Inter>l \<in> set ls. chain T (Some (J l)))"
    using Cons.IH[OF _ c(2), of "CombinPattern pat1 v"] Cons.prems(1) by (metis list.set_intros(2))
  show ?case using get_node_Inr[OF T l] c(1,3) v r by (auto simp: combine_link_def)
qed simp

lemma LeastCommonAncestor_list_ok:
  assumes T: "tree_ok T m" and ls: "\<forall>l \<in> set ls. edge_pattern l \<noteq> None \<and> link_index g l = Inr (J l) \<and> m \<le> J l \<and> J l < length T"
  shows "\<exists>c pat'. LeastCommonAncestor_list g T ls pat = Some (Inr (c, pat')) \<and> valid T m c \<and>
      chain T c = (if ls = [] then {} else \<Inter>l \<in> set ls. chain T (Some (J l)))"
proof (cases ls)
  case Nil
  then show ?thesis by (simp add: LeastCommonAncestor_list_def valid_def)
next
  case (Cons l ls')
  have l: "link_index g l = Inr (J l)" "m \<le> J l" "J l < length T" using ls Cons by simp_all
  obtain v where v: "edge_pattern l = Some v" using ls Cons by auto
  have "valid T m (Some (J l))" using l by (simp add: valid_def)
  then obtain c pat' where "lca_links g T ls' (Some (J l), CombinPattern pat v) = Some (Inr (c, pat'))" "valid T m c"
    "chain T c = chain T (Some (J l)) \<inter> (\<Inter>l \<in> set ls'. chain T (Some (J l)))"
    using lca_links_ok[OF T, of ls' g J] ls Cons by (metis list.set_intros(2))
  then show ?thesis using get_node_Inr[OF T l] v Cons by (simp add: LeastCommonAncestor_list_def combine_link_def)
qed

lemma post_dom_node:
  assumes g: "flow_graph g" and i: "i < length (post_dfs_order g)" and T: "tree_ok T (Suc i)" "length T = length (post_dfs_order g)"
    and dom: "\<forall>j. i < j \<and> j < length T \<longrightarrow> chain T (Some j) = post_dominators g j"
  shows "\<exists>t. GetNode g T (post_dfs_order g ! i) (node_at g i) = Some (Inr t) \<and> valid T (Suc i) (dom_parent t) \<and>
    dom_depth t = parent_depth T (dom_parent t) + 1 \<and> insert i (chain T (dom_parent t)) = post_dominators g i \<and> dom_gnode t = post_dfs_order g ! i"
proof (cases "extern_ref (node_at g i)")
  case True
  then show ?thesis using post_dominators_unfold[OF g i] by (simp add: GetNode_def valid_def exits_def)
next
  case False
  let ?ls = "node_outputs_of (node_at g i)"
  define J where "J l = (case link_index g l of Inr j \<Rightarrow> j | Inl _ \<Rightarrow> 0)" for l
  have J: "edge_pattern l \<noteq> None \<and> link_index g l = Inr (J l) \<and> Suc i \<le> J l \<and> J l < length T \<and> J l \<in> succs g i" if "l \<in> set ?ls" for l
    using flow_graphD(3)[OF g i that] T(2) by (auto simp: J_def)
  obtain c pat' where c: "LeastCommonAncestor_list g T ?ls ELEMWISE = Some (Inr (c, pat'))" "valid T (Suc i) c"
    "chain T c = (if ?ls = [] then {} else \<Inter>l \<in> set ?ls. chain T (Some (J l)))"
    using LeastCommonAncestor_list_ok[OF T(1), of ?ls g J ELEMWISE] J by blast
  have "succs g i = J ` set ?ls"
  proof (intro equalityI subsetI)
    fix j assume "j \<in> succs g i"
    then obtain l where l: "l \<in> set ?ls" "edge_node l = NodeOf (post_dfs_order g ! j)" "j < length (post_dfs_order g)" by (auto simp: succs_def)
    then have "link_index g l = Inr j" using g by (simp add: link_index_def index_of_def flow_graph_def)
    then show "j \<in> J ` set ?ls" using l(1) by (force simp: J_def)
  qed (use J in blast)
  moreover have "chain T (Some (J l)) = post_dominators g (J l)" if "l \<in> set ?ls" for l using dom J[OF that] by simp
  ultimately have "insert i (chain T c) = post_dominators g i"
    using post_dominators_unfold[OF g i] c(3) False by (auto simp: exits_def)
  then show ?thesis using False c by (simp add: GetNode_def)
qed

lemma post_dom_from_ok:
  assumes g: "flow_graph g"
  shows "i \<le> length (post_dfs_order g) \<Longrightarrow> tree_ok T i \<Longrightarrow> length T = length (post_dfs_order g) \<Longrightarrow>
    \<forall>j. i \<le> j \<and> j < length T \<longrightarrow> chain T (Some j) = post_dominators g j \<and> map_option dom_gnode (T ! j) = Some (post_dfs_order g ! j) \<Longrightarrow>
    \<exists>T'. post_dom_from g T i = Some (Inr T') \<and> length T' = length T \<and> tree_ok T' 0 \<and>
      (\<forall>j < length T. chain T' (Some j) = post_dominators g j \<and> map_option dom_gnode (T' ! j) = Some (post_dfs_order g ! j))"
proof (induction i arbitrary: T)
  case (Suc i)
  have i: "i < length (post_dfs_order g)" using Suc.prems(1) by simp
  obtain t where t: "GetNode g T (post_dfs_order g ! i) (node_at g i) = Some (Inr t)" "valid T (Suc i) (dom_parent t)"
    "dom_depth t = parent_depth T (dom_parent t) + 1" "insert i (chain T (dom_parent t)) = post_dominators g i" "dom_gnode t = post_dfs_order g ! i"
    using post_dom_node[OF g i Suc.prems(2,3)] Suc.prems(4) by auto
  let ?T = "T[i := Some t]"
  have iT: "i < length T" using i Suc.prems(3) by simp
  have ok: "tree_ok ?T i" by (rule tree_ok_update[OF Suc.prems(2) iT t(2,3)])
  have "chain ?T (Some j) = post_dominators g j \<and> map_option dom_gnode (?T ! j) = Some (post_dfs_order g ! j)" if j: "i \<le> j \<and> j < length ?T" for j
  proof (cases "j = i")
    case True
    have "chain ?T (Some i) = insert i (chain ?T (dom_parent t))" by (rule chain_unfold) (use iT in simp_all)
    then show ?thesis using True iT t(4,5) chain_keep[OF Suc.prems(2) _ t(2), of i "Some t"] by simp
  next
    case False
    then show ?thesis using j Suc.prems(4) chain_keep[OF Suc.prems(2), of i "Some j" "Some t"] by (simp add: valid_def)
  qed
  then obtain T' where "post_dom_from g ?T i = Some (Inr T')" "length T' = length ?T" "tree_ok T' 0"
    "\<forall>j < length ?T. chain T' (Some j) = post_dominators g j \<and> map_option dom_gnode (T' ! j) = Some (post_dfs_order g ! j)"
    using Suc.IH[OF _ ok] i Suc.prems(3) by auto
  then show ?case using t(1) flow_graphD(1)[OF g i] by (simp add: dict_get_def)
qed auto



section \<open>The graphs of stencil programs\<close>

definition links_known :: "ifg \<Rightarrow> bool" where
  "links_known g \<longleftrightarrow> (\<forall>k. \<forall>l \<in> set (node_outputs_of (current_node g k)). edge_pattern l \<noteq> None \<and> edge_node l \<noteq> TupleClass)"

lemma current_node_set: "current_node (set_node k nd g) j = (if j = k then nd else current_node g j)"
  by (simp add: current_node_def set_node_def update_conv')

lemma links_known_set_node:
  "links_known g \<Longrightarrow> \<forall>l \<in> set (node_outputs_of nd). edge_pattern l \<noteq> None \<and> edge_node l \<noteq> TupleClass \<Longrightarrow> links_known (set_node k nd g)"
  by (auto simp: links_known_def current_node_set)

lemma links_known_Update: "links_known g \<Longrightarrow> par \<noteq> Some TupleClass \<Longrightarrow> pat \<noteq> None \<Longrightarrow> links_known (Update k par pat g)"
  unfolding Update_def Let_def
  by (rule links_known_set_node, assumption) (auto simp: links_known_def split: option.splits)

lemma links_known_extern: "links_known g \<Longrightarrow> links_known (extern_use k g)"
  by (rule links_known_Update) simp_all

lemma links_known_extern_fold: "links_known g \<Longrightarrow> links_known (fold extern_use ks g)"
  by (induction ks arbitrary: g) (simp_all add: links_known_extern)

lemma links_known_set_pattern: "links_known g \<Longrightarrow> set_pattern k pat g = Inr g' \<Longrightarrow> links_known g'"
proof -
  assume g: "links_known g" and "set_pattern k pat g = Inr g'"
  then obtain nd where nd: "map_of (node_map g) k = Some nd" "g' = set_node k (nd\<lparr>node_pattern := pat\<rparr>) g"
    by (auto simp: set_pattern_def and_then_eq_Inr dict_get_Inr)
  then have "current_node g k = nd" by (simp add: current_node_def)
  then have "\<forall>l \<in> set (node_outputs_of nd). edge_pattern l \<noteq> None \<and> edge_node l \<noteq> TupleClass" using g unfolding links_known_def by blast
  then show "links_known g'" unfolding nd(2) by (intro links_known_set_node[OF g]) simp
qed

lemma links_known_AddNode: "links_known g \<Longrightarrow> AddNode k g = Inr g' \<Longrightarrow> links_known g'"
proof (erule AddNode_Inr)
  fix nd assume g: "links_known g" and nd: "map_of (node_map g) k = Some nd"
    "g' = set_node k (nd\<lparr>node_ref := Some k, node_index := length (post_dfs_order g)\<rparr>) (g\<lparr>post_dfs_order := post_dfs_order g @ [k]\<rparr>)"
  have c: "current_node g k = nd" using nd(1) by (simp add: current_node_def)
  have "\<forall>l \<in> set (node_outputs_of nd). edge_pattern l \<noteq> None \<and> edge_node l \<noteq> TupleClass" using g unfolding links_known_def c[symmetric] by blast
  moreover have "links_known (g\<lparr>post_dfs_order := post_dfs_order g @ [k]\<rparr>)" using g by (simp add: links_known_def current_node_def)
  ultimately show "links_known g'" unfolding nd(2) by (intro links_known_set_node) simp_all
qed

lemma links_known_pre_call:
  assumes g: "links_known g" and R: "\<forall>nm. top_pattern R nm \<noteq> None" and r: "pre_call R e f as g = Inr g'"
  shows "links_known g'"
proof -
  obtain pat g1 g2 rt where 1: "(case f of Op nm \<Rightarrow> and_then (known_type e) (\<lambda>_. Inr (if dyn_dependent R e then Some OPAQUE else top_pattern R nm, g))
      | _ \<Rightarrow> Inr (Some OPAQUE, Update f (Some (NodeOf e)) (Some OPAQUE) g)) = Inr (pat, g1)"
    and 2: "set_pattern e pat g1 = Inr g2"
    and 3: "res_fold (\<lambda>arg g. and_then (known_type arg) (\<lambda>arg_type. Inr (Update arg (Some (NodeOf e)) (call_arg_pattern pat arg_type rt) g)))
       as (extern_use f g2) = Inr g'"
    using r unfolding pre_call_def by (auto simp: and_then_eq_Inr)
  have pat: "pat \<noteq> None" and g1: "links_known g1"
    using 1 R g links_known_Update[OF g, of "Some (NodeOf e)" "Some OPAQUE" f] by (cases f; auto simp: and_then_eq_Inr split: if_splits)+
  have ap: "call_arg_pattern pat t rt \<noteq> None" for t using pat by (auto simp: call_arg_pattern_def split: rtype.splits)
  have "links_known (extern_use f g2)" by (rule links_known_extern[OF links_known_set_pattern[OF g1 2]])
  then show ?thesis
    by (rule res_fold_invariant[OF 3, where P = links_known]) (auto simp: and_then_eq_Inr intro!: links_known_Update ap)
qed

lemma links_known_pre:
  assumes g: "links_known g" and R: "\<forall>nm. top_pattern R nm \<noteq> None" and r: "creator_pre R e g = Inr g'" and t: "\<forall>u es. e \<noteq> Tuple u es"
  shows "links_known g'"
proof (cases e)
  case (Constant u sh dt)
  then obtain h where "AddNode e g = Inr h" "set_pattern e (Some (if is_scalar e then ELEMWISE else OPAQUE)) h = Inr g'"
    using r by (auto simp: creator_pre_def and_then_eq_Inr simp del: is_scalar.simps)
  then show ?thesis using links_known_set_pattern links_known_AddNode[OF g] by blast
next
  case (Call u f as a)
  then show ?thesis using r links_known_pre_call[OF g R, of e f as g'] by (simp add: creator_pre_def)
next
  case (Var u nm ty)
  then show ?thesis using r links_known_AddNode[OF g, of e g'] by (simp add: creator_pre_def)
next
  case (Function u ps b ty at)
  then show ?thesis using r g by (cases "compiled at") (auto simp: creator_pre_def links_known_extern links_known_extern_fold)
qed (use r t g in \<open>auto simp: creator_pre_def links_known_extern links_known_extern_fold\<close>)

lemma links_known_post: "links_known g \<Longrightarrow> creator_post e g = Inr g' \<Longrightarrow> links_known g'"
  using links_known_AddNode by (cases e) (auto simp: creator_post_def)

lemma links_known_visit:
  assumes R: "\<forall>nm. top_pattern R nm \<noteq> None"
  shows "\<forall>u es. Tuple u es \<notin> nodes e \<Longrightarrow> creator_visit R e (M, g) = Inr (M', g') \<Longrightarrow> links_known g \<Longrightarrow> links_known g'"
proof (induction "size e" arbitrary: e M g M' g' rule: less_induct)
  case less
  show ?case
  proof (cases "e \<in> M")
    case True
    then show ?thesis using less.prems by (simp add: creator_visit.simps)
  next
    case False
    obtain g1 M2 g2 where pre: "creator_pre R e g = Inr g1"
      and kids: "res_fold (creator_visit R) (creator_children e) (M, g1) = Inr (M2, g2)" and post: "creator_post e g2 = Inr g'"
      using less.prems(2) False by (auto simp: creator_visit.simps[of R e] and_then_eq_Inr)
    have "\<forall>u es. e \<noteq> Tuple u es" using less.prems(1) by blast
    note g1 = links_known_pre[OF less.prems(3) R pre this]
    have "links_known (snd (M2, g2))"
    proof (rule res_fold_invariant[OF kids, where P = "\<lambda>s. links_known (snd s)"])
      fix c s s' assume c: "c \<in> set (creator_children e)" and s: "links_known (snd s)" and v: "creator_visit R c s = Inr s'"
      have "\<forall>u es. Tuple u es \<notin> nodes c" using less.prems(1) nodes_child[OF creator_children_sub[OF c]] by blast
      then show "links_known (snd s')" using less.hyps[OF creator_children_size[OF c], of "fst s" "snd s" "fst s'" "snd s'"] v s by simp
    qed (simp add: g1)
    then show ?thesis using links_known_post[OF _ post] by simp
  qed
qed

lemma Create_flow_graph:
  assumes c: "creatable body" and t: "\<forall>u es. Tuple u es \<notin> nodes body" and R: "\<forall>nm. top_pattern R nm \<noteq> None"
  shows "\<exists>g. Create R body = Inr g \<and> flow_graph g"
proof -
  obtain g where g: "Create R body = Inr g" "distinct (post_dfs_order g)" "\<forall>i < length (post_dfs_order g). \<exists>nd.
       map_of (node_map g) (post_dfs_order g ! i) = Some nd \<and> node_ref nd = Some (post_dfs_order g ! i) \<and> node_index nd = i \<and>
       (\<forall>l \<in> set (node_outputs_of nd). \<forall>p. edge_node l = NodeOf p \<longrightarrow> (\<exists>j < length (post_dfs_order g). i < j \<and> post_dfs_order g ! j = p))"
    using Create_ordered[OF c, of R] by blast
  obtain M where v: "creator_visit R body ({}, extern_use body empty_ifg) = Inr (M, g)"
    using g(1) by (auto simp: Create_def Prepare_def and_then_eq_Inr)
  have "links_known empty_ifg" by (simp add: links_known_def current_node_def empty_ifg_def new_ifg_node_def)
  then have k: "links_known g" using links_known_visit[OF R t v] links_known_extern by blast
  have "map_of (node_map g) (post_dfs_order g ! i) = Some (node_at g i) \<and> node_index (node_at g i) = i \<and>
     (\<forall>l \<in> set (node_outputs_of (node_at g i)). edge_pattern l \<noteq> None \<and>
        (\<exists>j < length (post_dfs_order g). i < j \<and> edge_node l = NodeOf (post_dfs_order g ! j)))" if i: "i < length (post_dfs_order g)" for i
  proof -
    obtain nd where nd: "map_of (node_map g) (post_dfs_order g ! i) = Some nd" "node_index nd = i"
       "\<forall>l \<in> set (node_outputs_of nd). \<forall>p. edge_node l = NodeOf p \<longrightarrow> (\<exists>j < length (post_dfs_order g). i < j \<and> post_dfs_order g ! j = p)"
      using g(3) i by blast
    have at: "node_at g i = nd" using nd(1) by (simp add: node_at_def current_node_def)
    have "edge_pattern l \<noteq> None \<and> (\<exists>j < length (post_dfs_order g). i < j \<and> edge_node l = NodeOf (post_dfs_order g ! j))"
      if l: "l \<in> set (node_outputs_of nd)" for l
    proof -
      have "edge_pattern l \<noteq> None \<and> edge_node l \<noteq> TupleClass" using k l at unfolding links_known_def node_at_def by metis
      then obtain p where "edge_node l = NodeOf p" "edge_pattern l \<noteq> None" by (cases "edge_node l") auto
      then show ?thesis using nd(3) l by auto
    qed
    then show ?thesis using nd(1,2) at by simp
  qed
  then show ?thesis using g(1,2) by (auto simp: flow_graph_def)
qed


section \<open>Properties\<close>

text \<open>C12: \<^verbatim>\<open>DominatorTree.PostDom\<close> computes the post-dominators. On a dataflow graph whose order is
  topological it returns a tree in which a parent is one level above its children, and the ancestors
  of a node, itself included, are exactly the nodes on every path by which its value leaves the
  graph.\<close>

theorem PostDom_correct:
  assumes "flow_graph g"
  shows "\<exists>T. PostDom g = Some (Inr T) \<and> length T = length (post_dfs_order g) \<and> tree_ok T 0 \<and>
    (\<forall>i < length T. map_option dom_gnode (T ! i) = Some (post_dfs_order g ! i) \<and>
       chain T (Some i) = {x. \<forall>xs. exit_path g i xs \<longrightarrow> x \<in> set xs})"
proof -
  let ?n = "length (post_dfs_order g)"
  have "tree_ok (replicate ?n None) ?n" unfolding tree_ok_def by (metis leD length_replicate)
  from post_dom_from_ok[OF assms order_refl this]
  obtain T where T: "post_dom_from g (replicate ?n None) ?n = Some (Inr T)" "length T = ?n" "tree_ok T 0"
    "\<forall>j < ?n. chain T (Some j) = post_dominators g j \<and> map_option dom_gnode (T ! j) = Some (post_dfs_order g ! j)" by auto
  show ?thesis unfolding PostDom_def by (rule exI[of _ T]) (use T in \<open>simp add: post_dominators_def\<close>)
qed

lemma ex_flow_graph: "\<exists>g. Create ex_registry ex_main = Inr g \<and> flow_graph g"
  by (rule Create_flow_graph)
    (simp_all add: creatable_def ex_defs subs.simps kids_def node_creatable_def stencil_rel_def grid_ops_def ex_registry_def)

theorem PostDom_correct_witness:
  "\<exists>g T. Create ex_registry ex_main = Inr g \<and> PostDom g = Some (Inr T) \<and> length T = length (post_dfs_order g) \<and>
     (\<forall>i < length T. chain T (Some i) = {x. \<forall>xs. exit_path g i xs \<longrightarrow> x \<in> set xs})"
proof -
  obtain g where g: "Create ex_registry ex_main = Inr g" "flow_graph g" using ex_flow_graph by blast
  from PostDom_correct[OF g(2)] g(1) show ?thesis by blast
qed

end
