(* ===== verification/Graph_Partitioner.thy ===== *)
theory Graph_Partitioner
  imports Dominator_Tree
begin

text \<open>
  \<^verbatim>\<open>GraphPartitioner\<close> (\<^verbatim>\<open>relay/transform/custom_fuse_ops.py\<close>): the nodes of the dataflow graph are merged
  into groups with a union-find structure, guided by the post-dominator tree. A group object is its
  position in \<^verbatim>\<open>groups_\<close>. An action reads and writes the partitioner; it may raise, or not return.
\<close>

section \<open>The state\<close>

record uf_group =
  gparent :: "nat option"
  gpattern :: pattern
  root_ref :: "expr option"
  anchor_ref :: "expr option"
  num_nodes :: nat

record partitioner =
  groups :: "uf_group list"
  visited :: "expr set"

type_synonym 'a action = "partitioner \<Rightarrow> ('a \<times> partitioner) res option"

definition ret :: "'a \<Rightarrow> 'a action" where
  "ret x s = Some (Inr (x, s))"

definition lift :: "'a res \<Rightarrow> 'a action" where
  "lift r s = Some (and_then r (\<lambda>x. Inr (x, s)))"

definition bind :: "'a action \<Rightarrow> ('a \<Rightarrow> 'b action) \<Rightarrow> 'b action" where
  "bind m f s = run_then (m s) (\<lambda>(x, s). f x s)"

fun for_each :: "('a \<Rightarrow> unit action) \<Rightarrow> 'a list \<Rightarrow> unit action" where
  "for_each f [] = ret ()"
| "for_each f (x # xs) = bind (f x) (\<lambda>_. for_each f xs)"

text \<open>\<^verbatim>\<open>for x in xs: if not f(x): return False\<close>, then \<^verbatim>\<open>return True\<close>.\<close>

fun for_all :: "('a \<Rightarrow> bool action) \<Rightarrow> 'a list \<Rightarrow> bool action" where
  "for_all f [] = ret True"
| "for_all f (x # xs) = bind (f x) (\<lambda>b. if b then for_all f xs else ret False)"

definition group_at :: "nat \<Rightarrow> uf_group action" where
  "group_at i s = Some (if i < length (groups s) then Inr (groups s ! i, s) else Inl IndexError)"

definition set_group :: "nat \<Rightarrow> uf_group \<Rightarrow> unit action" where
  "set_group i gr s = Some (Inr ((), s\<lparr>groups := (groups s)[i := gr]\<rparr>))"

definition is_visited :: "expr \<Rightarrow> bool action" where
  "is_visited e s = Some (Inr (e \<in> visited s, s))"

definition add_visited :: "expr \<Rightarrow> unit action" where
  "add_visited e s = Some (Inr ((), s\<lparr>visited := insert e (visited s)\<rparr>))"

definition clear_visited :: "unit action" where
  "clear_visited s = Some (Inr ((), s\<lparr>visited := {}\<rparr>))"


section \<open>Union-find\<close>

definition find_up :: "uf_group list \<Rightarrow> nat \<Rightarrow> nat option" where
  "find_up gs i = while_option (\<lambda>r. gparent (gs ! r) \<noteq> None) (\<lambda>r. the (gparent (gs ! r))) i"

definition set_parent :: "nat \<Rightarrow> nat \<Rightarrow> uf_group list \<Rightarrow> uf_group list" where
  "set_parent p q gs = gs[p := (gs ! p)\<lparr>gparent := Some q\<rparr>]"

definition compress :: "nat \<Rightarrow> nat \<Rightarrow> uf_group list \<Rightarrow> (nat \<times> uf_group list) option" where
  "compress root i gs =
     while_option (\<lambda>(p, gs). p \<noteq> root) (\<lambda>(p, gs). (the (gparent (gs ! p)), set_parent p root gs)) (i, gs)"

definition FindRoot :: "nat \<Rightarrow> nat action" where
  "FindRoot i s =
     (case find_up (groups s) i of
        None \<Rightarrow> None
      | Some root \<Rightarrow> map_option (\<lambda>(_, gs). Inr (root, s\<lparr>groups := gs\<rparr>)) (compress root i (groups s)))"

definition CombinePattern :: "pattern \<Rightarrow> pattern \<Rightarrow> pattern res" where
  "CombinePattern lhs rhs =
     (case (lhs, rhs) of (Some l, Some r) \<Rightarrow> Inr (Some (if l > r then l else r)) | _ \<Rightarrow> Inl TypeError)"

definition MergeFromTo :: "nat \<Rightarrow> nat \<Rightarrow> unit action" where
  "MergeFromTo child parent =
     bind (FindRoot child) (\<lambda>child. bind (FindRoot parent) (\<lambda>parent.
       if child = parent then ret ()
       else bind (group_at child) (\<lambda>c. bind (group_at parent) (\<lambda>p.
            bind (set_group parent (p\<lparr>num_nodes := num_nodes p + num_nodes c\<rparr>)) (\<lambda>_.
            bind (set_group child (c\<lparr>gparent := Some parent\<rparr>)) (\<lambda>_.
              if anchor_ref c = None then ret ()
              else bind (lift (py_assert (anchor_ref p = None))) (\<lambda>_.
                   bind (lift (CombinePattern (gpattern c) (gpattern p))) (\<lambda>pat.
                   bind (group_at parent) (\<lambda>p.
                     set_group parent (p\<lparr>anchor_ref := anchor_ref c, gpattern := pat\<rparr>))))))))))"


section \<open>Paths\<close>

type_synonym fcond = "pattern \<Rightarrow> bool \<Rightarrow> bool res"

definition outputs_of :: "ifg \<Rightarrow> expr \<Rightarrow> ifg_edge list" where
  "outputs_of g e = node_outputs_of (current_node g e)"

definition link_node :: "ifg_edge \<Rightarrow> expr res" where
  "link_node l = (case edge_node l of NodeOf p \<Rightarrow> Inr p | TupleClass \<Rightarrow> Inl TypeError)"

fun CheckPath_rec :: "nat \<Rightarrow> ifg \<Rightarrow> expr \<Rightarrow> fcond \<Rightarrow> expr \<Rightarrow> bool action" where
  "CheckPath_rec 0 g sink fcond src = lift (Inl RecursionError)"
| "CheckPath_rec (Suc k) g sink fcond src =
     bind (is_visited src) (\<lambda>v. if v then ret True
     else bind (add_visited src) (\<lambda>_.
          bind (group_at (index_of g src)) (\<lambda>_.
          bind (FindRoot (index_of g src)) (\<lambda>root. bind (group_at root) (\<lambda>gnode.
          bind (lift (fcond (gpattern gnode) (src = sink))) (\<lambda>ok.
            if \<not> ok then ret False
            else if src = sink then ret True
            else for_all (\<lambda>l. bind (lift (link_node l)) (CheckPath_rec k g sink fcond)) (outputs_of g src)))))))"

definition CheckPath :: "nat \<Rightarrow> ifg \<Rightarrow> expr \<Rightarrow> expr \<Rightarrow> fcond \<Rightarrow> bool action" where
  "CheckPath limit g src sink fcond =
     bind (lift (py_assert (\<not> extern_ref (current_node g src)))) (\<lambda>_.
     bind clear_visited (\<lambda>_.
     bind (lift (py_assert (src \<noteq> sink))) (\<lambda>_.
       for_all (\<lambda>l. bind (lift (link_node l)) (CheckPath_rec limit g sink fcond)) (outputs_of g src))))"

fun CommitFuse_rec :: "nat \<Rightarrow> ifg \<Rightarrow> expr \<Rightarrow> nat \<Rightarrow> expr \<Rightarrow> unit action" where
  "CommitFuse_rec 0 g sink target src = lift (Inl RecursionError)"
| "CommitFuse_rec (Suc k) g sink target src =
     (if src = sink then ret ()
      else bind (is_visited src) (\<lambda>v. if v then ret ()
      else bind (add_visited src) (\<lambda>_.
           bind (group_at (index_of g src)) (\<lambda>_.
           bind (MergeFromTo (index_of g src) target) (\<lambda>_.
             for_each (\<lambda>l. bind (lift (link_node l)) (CommitFuse_rec k g sink target)) (outputs_of g src))))))"

definition CommitFuse :: "nat \<Rightarrow> ifg \<Rightarrow> expr \<Rightarrow> expr \<Rightarrow> unit action" where
  "CommitFuse limit g src sink =
     bind (group_at (index_of g sink)) (\<lambda>_.
     bind clear_visited (\<lambda>_.
     bind (lift (py_assert (src \<noteq> sink))) (\<lambda>_.
       CommitFuse_rec limit g sink (index_of g sink) src)))"

fun sum_each :: "('a \<Rightarrow> nat action) \<Rightarrow> 'a list \<Rightarrow> nat \<Rightarrow> nat action" where
  "sum_each f [] acc = ret acc"
| "sum_each f (x # xs) acc = bind (f x) (\<lambda>n. sum_each f xs (acc + n))"

fun CountNodesUptoSink :: "nat \<Rightarrow> ifg \<Rightarrow> expr \<Rightarrow> expr \<Rightarrow> nat action" where
  "CountNodesUptoSink 0 g sink src = lift (Inl RecursionError)"
| "CountNodesUptoSink (Suc k) g sink src =
     bind (is_visited src) (\<lambda>v. if src = sink \<or> v then ret 0
     else bind (add_visited src) (\<lambda>_.
          bind (group_at (index_of g src)) (\<lambda>gnode.
            sum_each (\<lambda>l. bind (lift (link_node l)) (CountNodesUptoSink k g sink)) (outputs_of g src) (num_nodes gnode))))"

definition CountFusedNodesWithNewChild :: "nat \<Rightarrow> ifg \<Rightarrow> expr \<Rightarrow> expr \<Rightarrow> nat action" where
  "CountFusedNodesWithNewChild limit g child dom_par =
     bind (group_at (index_of g dom_par)) (\<lambda>_.
     bind clear_visited (\<lambda>_.
     bind (lift (py_assert (child \<noteq> dom_par))) (\<lambda>_.
     bind (FindRoot (index_of g dom_par)) (\<lambda>root. bind (group_at root) (\<lambda>gr.
     bind (CountNodesUptoSink limit g dom_par child) (\<lambda>n. ret (num_nodes gr + n)))))))"


section \<open>Fusing\<close>

definition new_group :: "ifg_node \<Rightarrow> uf_group" where
  "new_group nd = \<lparr>gparent = None, gpattern = node_pattern nd, root_ref = node_ref nd,
     anchor_ref = (if node_pattern nd = Some OUT_ELEMWISE_FUSABLE then node_ref nd else None), num_nodes = 1\<rparr>"

definition InitGroup :: "ifg \<Rightarrow> uf_group list" where
  "InitGroup g = map (\<lambda>k. new_group (current_node g k)) (post_dfs_order g)"

definition check_and_fuse :: "nat \<Rightarrow> ifg \<Rightarrow> expr \<Rightarrow> expr \<Rightarrow> fcond \<Rightarrow> unit action" where
  "check_and_fuse limit g src sink fcond =
     bind (CheckPath limit g src sink fcond) (\<lambda>ok. if ok then CommitFuse limit g src sink else ret ())"

definition fcond_le :: "int \<Rightarrow> fcond" where
  "fcond_le k kind is_sink = pat_le kind k"

definition fcond_sink :: fcond where
  "fcond_sink kind is_sink =
     (if \<not> is_sink then pat_le kind INJECTIVE
      else and_then (pat_le kind BROADCAST) (\<lambda>b.
        Inr (b \<or> kind \<in> {Some COMM_REDUCE, Some INJECTIVE, Some OUT_ELEMWISE_FUSABLE})))"

text \<open>\<^verbatim>\<open>phase == 2\<close>.\<close>

definition fuse_tuple :: "nat \<Rightarrow> ifg \<Rightarrow> expr \<Rightarrow> expr \<Rightarrow> uf_group \<Rightarrow> unit action" where
  "fuse_tuple limit g node sink group_node =
     bind (lift (pat_le (gpattern group_node) INJECTIVE)) (\<lambda>inj. if \<not> inj then ret ()
     else bind (group_at (index_of g sink)) (\<lambda>_.
          bind (FindRoot (index_of g sink)) (\<lambda>dom_root. bind (group_at dom_root) (\<lambda>dom_root_group.
          if gpattern dom_root_group = Some TUPLE then ret ()
          else bind (group_at (index_of g sink)) (\<lambda>dom_parent_group.
               if gpattern dom_parent_group \<noteq> Some TUPLE then ret ()
               else bind (lift (pat_le (gpattern dom_root_group) INJECTIVE)) (\<lambda>b.
                    if b then check_and_fuse limit g node sink (fcond_le INJECTIVE) else ret ()))))))"

text \<open>The cases on the pattern of the node in the phases 0 and 1.\<close>

definition fuse_by_pattern :: "nat \<Rightarrow> ifg \<Rightarrow> nat \<Rightarrow> expr \<Rightarrow> expr \<Rightarrow> int \<Rightarrow> uf_group \<Rightarrow> unit action" where
  "fuse_by_pattern limit g phase node sink dom_pat group_node =
     (if gpattern group_node = Some OUT_ELEMWISE_FUSABLE then
        if phase \<noteq> 0 then ret ()
        else if dom_pat = ELEMWISE then check_and_fuse limit g node sink (fcond_le BROADCAST) else ret ()
      else bind (lift (pat_le (gpattern group_node) BROADCAST)) (\<lambda>b.
        if b then
          if dom_pat \<le> INJECTIVE \<or> dom_pat = COMM_REDUCE then check_and_fuse limit g node sink fcond_sink else ret ()
        else if gpattern group_node = Some INJECTIVE \<or> gpattern group_node = Some TUPLE then
          if phase \<noteq> 1 then ret () else check_and_fuse limit g node sink (fcond_le INJECTIVE)
        else lift (py_assert (gpattern group_node = Some COMM_REDUCE))))"

definition fuse_node :: "nat \<Rightarrow> nat \<Rightarrow> ifg \<Rightarrow> nat \<Rightarrow> expr \<Rightarrow> nat \<Rightarrow> expr \<Rightarrow> int \<Rightarrow> unit action" where
  "fuse_node limit max_fuse_depth g phase node nid sink dom_pat =
     bind (lift (py_assert (\<not> extern_ref (current_node g node)))) (\<lambda>_.
     bind (CountFusedNodesWithNewChild limit g node sink) (\<lambda>n.
       if n > max_fuse_depth then ret ()
       else bind (group_at nid) (\<lambda>group_node.
         if phase = 2 then fuse_tuple limit g node sink group_node
         else bind (group_at (index_of g sink)) (\<lambda>_. bind (FindRoot nid) (\<lambda>r1.
              bind (FindRoot (index_of g sink)) (\<lambda>r2. if r1 = r2 then ret ()
              else bind (group_at (index_of g sink)) (\<lambda>parent_group.
                if gpattern parent_group = Some TUPLE then ret ()
                else bind (group_at nid) (fuse_by_pattern limit g phase node sink dom_pat))))))))"

definition run_fuse_node :: "nat \<Rightarrow> nat \<Rightarrow> ifg \<Rightarrow> dom_tree \<Rightarrow> nat \<Rightarrow> nat \<Rightarrow> unit action" where
  "run_fuse_node limit max_fuse_depth g T phase nid =
     bind (group_at nid) (\<lambda>group_node.
       if gpattern group_node = Some OPAQUE then ret ()
       else (case T ! nid of
           None \<Rightarrow> lift (Inl AttributeError)
         | Some dom_node \<Rightarrow> (case dom_parent dom_node of
             None \<Rightarrow> ret ()
           | Some p \<Rightarrow> (case T ! p of
               None \<Rightarrow> lift (Inl AttributeError)
             | Some par \<Rightarrow> fuse_node limit max_fuse_depth g phase (post_dfs_order g ! nid) nid (dom_gnode par) (dom_pattern dom_node)))))"

definition RunFuse :: "nat \<Rightarrow> nat \<Rightarrow> ifg \<Rightarrow> dom_tree \<Rightarrow> nat \<Rightarrow> unit action" where
  "RunFuse limit max_fuse_depth g T phase s =
     for_each (run_fuse_node limit max_fuse_depth g T phase) [0..<length (groups s)] s"

definition Partition :: "nat \<Rightarrow> nat \<Rightarrow> nat \<Rightarrow> ifg \<Rightarrow> uf_group list res option" where
  "Partition limit opt_level max_fuse_depth g =
     (if opt_level = 0 then Some (Inr (InitGroup g))
      else run_then (PostDom g) (\<lambda>T.
           run_then (for_each (RunFuse limit max_fuse_depth g T) [0, 1, 2] \<lparr>groups = InitGroup g, visited = {}\<rparr>) (\<lambda>(_, s).
             Some (Inr (groups s)))))"



section \<open>The union-find invariant\<close>

definition up :: "uf_group list \<Rightarrow> (nat \<times> nat) set" where
  "up gs = {(i, p). i < length gs \<and> gparent (gs ! i) = Some p}"

definition uf_ok :: "uf_group list \<Rightarrow> bool" where
  "uf_ok gs \<longleftrightarrow> acyclic (up gs) \<and> (\<forall>(i, p) \<in> up gs. p < length gs)"

definition rooted :: "uf_group list \<Rightarrow> nat \<Rightarrow> nat \<Rightarrow> bool" where
  "rooted gs i r \<longleftrightarrow> (i, r) \<in> (up gs)\<^sup>* \<and> r < length gs \<and> gparent (gs ! r) = None"

definition root_of :: "uf_group list \<Rightarrow> nat \<Rightarrow> nat" where
  "root_of gs i = (THE r. rooted gs i r)"

lemma up_functional: "(i, p) \<in> up gs \<Longrightarrow> (i, q) \<in> up gs \<Longrightarrow> p = q"
  by (simp add: up_def)

lemma up_root: "gparent (gs ! r) = None \<Longrightarrow> (r, x) \<in> (up gs)\<^sup>* \<longleftrightarrow> x = r"
  by (auto elim: converse_rtranclE simp: up_def)

lemma rooted_unique:
  assumes "rooted gs i r" and "rooted gs i r'"
  shows "r = r'"
proof -
  have "(i, r) \<in> (up gs)\<^sup>* \<Longrightarrow> gparent (gs ! r) = None \<Longrightarrow> (i, r') \<in> (up gs)\<^sup>* \<Longrightarrow> gparent (gs ! r') = None \<Longrightarrow> r = r'"
  proof (induction rule: converse_rtrancl_induct)
    case base
    then show ?case using up_root[of gs r r'] by simp
  next
    case (step j k)
    from step.prems(2) show ?case
    proof (cases rule: converse_rtranclE)
      case base
      then show ?thesis using step.hyps(1) step.prems(3) by (simp add: up_def)
    next
      case (step k')
      then show ?thesis using step.IH up_functional[OF step.hyps(1)] \<open>gparent (gs ! r) = None\<close> \<open>gparent (gs ! r') = None\<close> by blast
    qed
  qed
  then show ?thesis using assms by (simp add: rooted_def)
qed

lemma root_ofI: "rooted gs i r \<Longrightarrow> root_of gs i = r"
  unfolding root_of_def using rooted_unique by blast

lemma up_wf: "uf_ok gs \<Longrightarrow> wf ((up gs)\<inverse>)"
proof -
  assume ok: "uf_ok gs"
  have "up gs \<subseteq> {..<length gs} \<times> {..<length gs}" using ok by (auto simp: uf_ok_def up_def)
  then have "finite (up gs)" by (rule finite_subset) simp
  moreover have "acyclic (up gs)" using ok by (simp add: uf_ok_def)
  ultimately show ?thesis by (rule finite_acyclic_wf_converse)
qed

lemma rooted_ex: "uf_ok gs \<Longrightarrow> i < length gs \<Longrightarrow> \<exists>r. rooted gs i r"
proof -
  assume ok: "uf_ok gs"
  show "i < length gs \<Longrightarrow> \<exists>r. rooted gs i r"
  proof (induction i rule: wf_induct_rule[OF up_wf[OF ok]])
    case (1 i)
    show ?case
    proof (cases "gparent (gs ! i)")
      case None
      then show ?thesis using 1(2) by (auto simp: rooted_def)
    next
      case (Some p)
      then have e: "(i, p) \<in> up gs" using 1(2) by (simp add: up_def)
      then obtain r where "rooted gs p r" using 1(1)[of p] ok by (auto simp: uf_ok_def)
      then show ?thesis using e by (auto simp: rooted_def intro: converse_rtrancl_into_rtrancl)
    qed
  qed
qed

lemma rooted_root_of: "uf_ok gs \<Longrightarrow> i < length gs \<Longrightarrow> rooted gs i (root_of gs i)"
  using rooted_ex root_ofI by blast

lemma root_of_root: "r < length gs \<Longrightarrow> gparent (gs ! r) = None \<Longrightarrow> root_of gs r = r"
  by (rule root_ofI) (simp add: rooted_def)

lemma root_of_up: "uf_ok gs \<Longrightarrow> (i, j) \<in> (up gs)\<^sup>* \<Longrightarrow> j < length gs \<Longrightarrow> root_of gs i = root_of gs j"
  using rooted_root_of[of gs j] by (intro root_ofI) (auto simp: rooted_def intro: rtrancl_trans)

text \<open>Hanging a node below a root.\<close>

lemma set_parent_length [simp]: "length (set_parent p q gs) = length gs"
  by (simp add: set_parent_def)

lemma set_parent_nth: "p < length gs \<Longrightarrow> set_parent p q gs ! j = (if j = p then (gs ! p)\<lparr>gparent := Some q\<rparr> else gs ! j)"
  by (simp add: set_parent_def nth_list_update)

lemma up_set_parent: "p < length gs \<Longrightarrow> up (set_parent p q gs) = {(i, j) \<in> up gs. i \<noteq> p} \<union> {(p, q)}"
  by (auto simp: up_def set_parent_nth split: if_splits)

lemma set_parent_ok:
  assumes ok: "uf_ok gs" and p: "p < length gs" and q: "q < length gs" "gparent (gs ! q) = None" "p \<noteq> q"
  shows "uf_ok (set_parent p q gs)"
    and "j < length gs \<Longrightarrow> root_of (set_parent p q gs) j = (if (j, p) \<in> (up gs)\<^sup>* then q else root_of gs j)"
proof -
  let ?gs = "set_parent p q gs"
  let ?R = "{(i, j) \<in> up gs. i \<noteq> p}"
  have u: "up ?gs = insert (p, q) ?R" using up_set_parent[OF p] by simp
  have "(q, p) \<notin> ?R\<^sup>*"
  proof
    assume "(q, p) \<in> ?R\<^sup>*"
    then have "(q, p) \<in> (up gs)\<^sup>*" using rtrancl_mono[of ?R "up gs"] by blast
    then show False using up_root[OF q(2)] q(3) by simp
  qed
  moreover have "acyclic ?R" using ok by (auto simp: uf_ok_def intro: acyclic_subset)
  ultimately have ac: "acyclic (up ?gs)" unfolding u by (simp add: acyclic_insert)
  show ok': "uf_ok ?gs" unfolding uf_ok_def
  proof
    show "\<forall>(i, p') \<in> up ?gs. p' < length ?gs" using ok q(1) unfolding u by (auto simp: uf_ok_def)
  qed (rule ac)
  have qn: "gparent (?gs ! q) = None" using q p by (simp add: set_parent_nth)
  have lift: "(j, x) \<in> (up ?gs)\<^sup>* \<or> (j, p) \<in> (up ?gs)\<^sup>*" if "(j, x) \<in> (up gs)\<^sup>*" for j x
    using that
  proof (induction rule: converse_rtrancl_induct)
    case (step j k)
    then show ?case
    proof (cases "j = p")
      case False
      then have "(j, k) \<in> up ?gs" using step.hyps(1) unfolding u by simp
      then show ?thesis using step.IH by (auto intro: converse_rtrancl_into_rtrancl)
    qed simp
  qed simp
  have drop: "(j, p) \<in> (up gs)\<^sup>*" if "(j, p) \<in> (up ?gs)\<^sup>*" for j
    using that
  proof (induction rule: converse_rtrancl_induct)
    case (step j k)
    then show ?case unfolding u by (cases "j = p") (auto intro: converse_rtrancl_into_rtrancl)
  qed simp
  assume j: "j < length gs"
  show "root_of ?gs j = (if (j, p) \<in> (up gs)\<^sup>* then q else root_of gs j)"
  proof (cases "(j, p) \<in> (up gs)\<^sup>*")
    case True
    then have "(j, p) \<in> (up ?gs)\<^sup>*" using lift by blast
    moreover have "(p, q) \<in> up ?gs" unfolding u by simp
    ultimately have "rooted ?gs j q" using qn q(1) by (auto simp: rooted_def intro: rtrancl_into_rtrancl)
    then show ?thesis using True root_ofI by simp
  next
    case False
    note r = rooted_root_of[OF ok j]
    have "(j, root_of gs j) \<in> (up ?gs)\<^sup>*" using lift[of j "root_of gs j"] drop False r by (auto simp: rooted_def)
    moreover have "root_of gs j \<noteq> p" using False r by (auto simp: rooted_def)
    ultimately have "rooted ?gs j (root_of gs j)" using r p by (simp add: rooted_def set_parent_nth)
    then show ?thesis using False root_ofI by simp
  qed
qed

text \<open>Two structures with the same groups.\<close>

definition same_groups :: "uf_group list \<Rightarrow> uf_group list \<Rightarrow> bool" where
  "same_groups gs gs' \<longleftrightarrow> length gs' = length gs \<and> uf_ok gs' \<and>
     (\<forall>j < length gs. root_of gs' j = root_of gs j \<and> (gs' ! j)\<lparr>gparent := None\<rparr> = (gs ! j)\<lparr>gparent := None\<rparr> \<and>
        (gparent (gs' ! j) = None \<longleftrightarrow> gparent (gs ! j) = None))"

lemma same_groups_refl: "uf_ok gs \<Longrightarrow> same_groups gs gs"
  by (simp add: same_groups_def)

lemma same_groups_trans: "same_groups gs gs' \<Longrightarrow> same_groups gs' gs'' \<Longrightarrow> same_groups gs gs''"
  by (simp add: same_groups_def)

lemma same_groups_compress_step:
  assumes ok: "uf_ok gs" and p: "p < length gs" "p \<noteq> root_of gs p"
  shows "same_groups gs (set_parent p (root_of gs p) gs)"
proof -
  let ?q = "root_of gs p"
  have r: "rooted gs p ?q" by (rule rooted_root_of[OF ok p(1)])
  have q: "?q < length gs" "gparent (gs ! ?q) = None" using r by (auto simp: rooted_def)
  note s = set_parent_ok[OF ok p(1) q p(2)]
  have np: "gparent (gs ! p) \<noteq> None" using p root_of_root[of p gs] by auto
  have same: "root_of gs j = ?q" if "(j, p) \<in> (up gs)\<^sup>*" for j by (rule root_of_up[OF ok that p(1)])
  have "root_of (set_parent p ?q gs) j = root_of gs j" if "j < length gs" for j
    unfolding s(2)[OF that] using same[of j] by (cases "(j, p) \<in> (up gs)\<^sup>*") (simp_all only: if_True if_False)
  moreover have "(gparent (set_parent p ?q gs ! j) = None \<longleftrightarrow> gparent (gs ! j) = None) \<and>
      (set_parent p ?q gs ! j)\<lparr>gparent := None\<rparr> = (gs ! j)\<lparr>gparent := None\<rparr>" for j
    unfolding set_parent_nth[OF p(1)] using np by (cases "j = p") simp_all
  ultimately show ?thesis using s(1) by (simp add: same_groups_def)
qed

lemma find_up_ok:
  assumes ok: "uf_ok gs" and i: "i < length gs"
  shows "find_up gs i = Some (root_of gs i)"
proof -
  let ?b = "\<lambda>r. gparent (gs ! r) \<noteq> None" and ?c = "\<lambda>r. the (gparent (gs ! r))"
  have "\<exists>t. while_option ?b ?c i = Some t"
  proof (rule wf_rel_while_option_Some[where P = "\<lambda>r. r < length gs" and R = "(up gs)\<inverse>"])
    show "wf ((up gs)\<inverse>)" by (rule up_wf[OF ok])
    fix r assume r: "r < length gs \<and> gparent (gs ! r) \<noteq> None"
    then have "(r, ?c r) \<in> up gs" by (auto simp: up_def)
    then show "(?c r, r) \<in> (up gs)\<inverse>" "?c r < length gs" using ok by (auto simp: uf_ok_def)
  qed (rule i)
  then obtain t where t: "while_option ?b ?c i = Some t" by blast
  have "(i, t) \<in> (up gs)\<^sup>* \<and> t < length gs"
  proof (rule while_option_rule[where P = "\<lambda>r. (i, r) \<in> (up gs)\<^sup>* \<and> r < length gs", OF _ t])
    fix r assume r: "(i, r) \<in> (up gs)\<^sup>* \<and> r < length gs" and "gparent (gs ! r) \<noteq> None"
    then have "(r, ?c r) \<in> up gs" by (auto simp: up_def)
    then show "(i, ?c r) \<in> (up gs)\<^sup>* \<and> ?c r < length gs" using r ok by (auto simp: uf_ok_def intro: rtrancl_into_rtrancl)
  qed (use i in simp)
  moreover have "gparent (gs ! t) = None" using while_option_stop[OF t] by simp
  ultimately have "rooted gs i t" by (simp add: rooted_def)
  then show ?thesis using t root_ofI by (simp add: find_up_def)
qed

lemma compress_ok:
  assumes ok: "uf_ok gs" and i: "i < length gs"
  shows "\<exists>p gs'. compress (root_of gs i) i gs = Some (p, gs') \<and> same_groups gs gs'"
proof -
  let ?r = "root_of gs i" and ?c = "\<lambda>(p, gs1). (the (gparent (gs1 ! p)), set_parent p (root_of gs i) gs1)"
  let ?P = "\<lambda>(p, gs1). same_groups gs gs1 \<and> p < length gs \<and> root_of gs p = ?r \<and> (\<forall>x. (p, x) \<in> (up gs)\<^sup>* \<longrightarrow> gs1 ! x = gs ! x)"
  have step: "?P (?c (p, gs1)) \<and> (p, fst (?c (p, gs1))) \<in> up gs" if P: "?P (p, gs1)" and ne: "p \<noteq> ?r" for p gs1
  proof -
    have p: "p < length gs" "root_of gs p = ?r" "gs1 ! p = gs ! p" using P by auto
    have s: "same_groups gs gs1" "length gs1 = length gs" "uf_ok gs1" "root_of gs1 p = ?r" using P by (auto simp: same_groups_def)
    obtain q where q: "gparent (gs ! p) = Some q" using root_of_root[of p gs] p ne by (cases "gparent (gs ! p)") auto
    have pq: "(p, q) \<in> up gs" using p(1) q by (simp add: up_def)
    have ql: "q < length gs" using ok pq by (auto simp: uf_ok_def)
    have "root_of gs q = ?r" using root_of_up[OF ok r_into_rtrancl[OF pq] ql] p(2) by simp
    moreover have "same_groups gs (set_parent p ?r gs1)"
      using same_groups_trans[OF s(1) same_groups_compress_step[OF s(3), of p]] s p(1) ne by simp
    moreover have "set_parent p ?r gs1 ! x = gs ! x" if x: "(q, x) \<in> (up gs)\<^sup>*" for x
    proof -
      have "x \<noteq> p"
      proof
        assume "x = p"
        then have "(p, p) \<in> (up gs)\<^sup>+" using pq x by simp
        then show False using ok by (auto simp: uf_ok_def acyclic_def)
      qed
      then show ?thesis using P pq x s(2) p(1) by (auto simp: set_parent_nth intro: converse_rtrancl_into_rtrancl)
    qed
    ultimately show ?thesis using p(3) q pq ql by simp
  qed
  have "\<exists>t. while_option (\<lambda>(p, gs). p \<noteq> ?r) ?c (i, gs) = Some t"
  proof (rule wf_rel_while_option_Some[where P = ?P and R = "inv_image ((up gs)\<inverse>) fst"])
    show "wf (inv_image ((up gs)\<inverse>) fst)" by (rule wf_inv_image[OF up_wf[OF ok]])
  qed (use step same_groups_refl[OF ok] i in \<open>auto simp: case_prod_beta\<close>)
  then obtain t where t: "while_option (\<lambda>(p, gs). p \<noteq> ?r) ?c (i, gs) = Some t" by blast
  have "?P t" by (rule while_option_rule[where P = ?P, OF _ t]) (use step same_groups_refl[OF ok] i in \<open>auto simp: case_prod_beta\<close>)
  then show ?thesis using t by (cases t) (auto simp: compress_def)
qed

lemma FindRoot_ok:
  assumes "uf_ok (groups s)" and "i < length (groups s)"
  shows "\<exists>gs'. FindRoot i s = Some (Inr (root_of (groups s) i, s\<lparr>groups := gs'\<rparr>)) \<and> same_groups (groups s) gs'"
  using find_up_ok[OF assms] compress_ok[OF assms] by (auto simp: FindRoot_def)


section \<open>Triples\<close>

text \<open>Total up to exceptions: from a state of \<open>P\<close> an action returns or raises, and returns in \<open>Q\<close>.\<close>

definition hoare :: "(partitioner \<Rightarrow> bool) \<Rightarrow> 'a action \<Rightarrow> ('a \<Rightarrow> partitioner \<Rightarrow> bool) \<Rightarrow> bool" where
  "hoare P m Q \<longleftrightarrow> (\<forall>s. P s \<longrightarrow> (\<exists>r. m s = Some r \<and> (\<forall>x s'. r = Inr (x, s') \<longrightarrow> Q x s')))"

named_theorems hoare_rules \<open>rules of the methods of the partitioner\<close>

lemma hoare_bind:
  assumes m: "hoare P m R" and f: "\<And>x. hoare (R x) (f x) Q"
  shows "hoare P (bind m f) Q"
  unfolding hoare_def
proof (intro allI impI)
  fix s assume "P s"
  then obtain r where r: "m s = Some r" "\<forall>x s'. r = Inr (x, s') \<longrightarrow> R x s'" using m unfolding hoare_def by blast
  show "\<exists>r. bind m f s = Some r \<and> (\<forall>x s'. r = Inr (x, s') \<longrightarrow> Q x s')"
  proof (cases r)
    case (Inr y)
    obtain x s' where y: "y = (x, s')" by (cases y)
    then have "R x s'" using r(2) Inr by simp
    then show ?thesis using f[of x] r(1) Inr y unfolding hoare_def by (auto simp: bind_def)
  qed (use r(1) in \<open>simp add: bind_def\<close>)
qed

lemma hoare_pre: "hoare P m Q \<Longrightarrow> (\<And>s. P' s \<Longrightarrow> P s) \<Longrightarrow> hoare P' m Q"
  unfolding hoare_def by blast

lemma hoare_post: "hoare P m Q \<Longrightarrow> (\<And>x s. Q x s \<Longrightarrow> Q' x s) \<Longrightarrow> hoare P m Q'"
  unfolding hoare_def by blast

lemma hoare_fact: "(b \<Longrightarrow> hoare P m Q) \<Longrightarrow> hoare (\<lambda>s. P s \<and> b) m Q"
  unfolding hoare_def by blast

lemma hoare_ret [hoare_rules]: "hoare (Q x) (ret x) Q"
  by (simp add: hoare_def ret_def)

lemma hoare_lift [hoare_rules]: "hoare (\<lambda>s. \<forall>x. r = Inr x \<longrightarrow> Q x s) (lift r) Q"
  by (auto simp: hoare_def lift_def and_then_eq_Inr)

lemma hoare_group_at [hoare_rules]: "hoare (\<lambda>s. i < length (groups s) \<longrightarrow> Q (groups s ! i) s) (group_at i) Q"
  by (simp add: hoare_def group_at_def)

lemma hoare_set_group [hoare_rules]: "hoare (\<lambda>s. Q () (s\<lparr>groups := (groups s)[i := gr]\<rparr>)) (set_group i gr) Q"
  by (simp add: hoare_def set_group_def)

lemma hoare_is_visited [hoare_rules]: "hoare (\<lambda>s. Q (e \<in> visited s) s) (is_visited e) Q"
  by (simp add: hoare_def is_visited_def)

lemma hoare_add_visited [hoare_rules]: "hoare (\<lambda>s. Q () (s\<lparr>visited := insert e (visited s)\<rparr>)) (add_visited e) Q"
  by (simp add: hoare_def add_visited_def)

lemma hoare_clear_visited [hoare_rules]: "hoare (\<lambda>s. Q () (s\<lparr>visited := {}\<rparr>)) clear_visited Q"
  by (simp add: hoare_def clear_visited_def)

lemma hoare_if: "hoare P m Q \<Longrightarrow> hoare P' m' Q \<Longrightarrow> hoare (\<lambda>s. if b then P s else P' s) (if b then m else m') Q"
  by (cases b) simp_all

lemma hoare_for_each:
  assumes "\<And>x. x \<in> set xs \<Longrightarrow> hoare I (f x) (\<lambda>_. I)"
  shows "hoare I (for_each f xs) (\<lambda>_. I)"
  using assms
proof (induction xs)
  case Nil
  show ?case using hoare_ret[of "\<lambda>_. I" "()"] by simp
next
  case (Cons x xs)
  then show ?case by (simp add: hoare_bind[where R = "\<lambda>_. I"])
qed


section \<open>The invariant of the partition\<close>

text \<open>
  The groups are a union-find structure, a root counts the nodes of its group, and a node of \<open>opq\<close>
  (an opaque node of the graph) is alone in its group.
\<close>

definition members :: "uf_group list \<Rightarrow> nat \<Rightarrow> nat set" where
  "members gs r = {j. j < length gs \<and> root_of gs j = r}"

definition part_ok :: "nat \<Rightarrow> nat set \<Rightarrow> uf_group list \<Rightarrow> bool" where
  "part_ok n opq gs \<longleftrightarrow> length gs = n \<and> uf_ok gs \<and>
     (\<forall>r < n. gparent (gs ! r) = None \<longrightarrow> num_nodes (gs ! r) = card (members gs r)) \<and>
     (\<forall>i < n. i \<in> opq \<longrightarrow> gpattern (gs ! i) = Some OPAQUE \<and> members gs (root_of gs i) = {i})"

lemma members_same: "same_groups gs gs' \<Longrightarrow> members gs' r = members gs r"
  by (auto simp: members_def same_groups_def)

lemma part_ok_same:
  assumes "part_ok n opq gs" and s: "same_groups gs gs'"
  shows "part_ok n opq gs'"
proof -
  have l: "length gs' = n" "length gs = n" "uf_ok gs'" using assms by (simp_all add: part_ok_def same_groups_def)
  have f: "gpattern (gs' ! j) = gpattern (gs ! j)" "num_nodes (gs' ! j) = num_nodes (gs ! j)" "root_of gs' j = root_of gs j"
    "gparent (gs' ! j) = None \<longleftrightarrow> gparent (gs ! j) = None" if "j < n" for j
  proof -
    have "(gs' ! j)\<lparr>gparent := None\<rparr> = (gs ! j)\<lparr>gparent := None\<rparr>" using s that l by (simp add: same_groups_def)
    then show "gpattern (gs' ! j) = gpattern (gs ! j)" "num_nodes (gs' ! j) = num_nodes (gs ! j)"
      by (metis uf_group.select_convs(2) uf_group.surjective uf_group.update_convs(1), metis uf_group.select_convs(5) uf_group.surjective uf_group.update_convs(1))
    show "root_of gs' j = root_of gs j" "gparent (gs' ! j) = None \<longleftrightarrow> gparent (gs ! j) = None" using s that l by (simp_all add: same_groups_def)
  qed
  show ?thesis using assms(1) l f unfolding part_ok_def members_same[OF s] by simp
qed

lemma hoare_FindRoot:
  "hoare (\<lambda>s. part_ok n opq (groups s) \<and> i < n \<and>
      (\<forall>gs'. same_groups (groups s) gs' \<and> part_ok n opq gs' \<longrightarrow> Q (root_of (groups s) i) (s\<lparr>groups := gs'\<rparr>))) (FindRoot i) Q"
  unfolding hoare_def
proof (intro allI impI, elim conjE)
  fix s assume p: "part_ok n opq (groups s)" and i: "i < n"
    and Q: "\<forall>gs'. same_groups (groups s) gs' \<and> part_ok n opq gs' \<longrightarrow> Q (root_of (groups s) i) (s\<lparr>groups := gs'\<rparr>)"
  obtain gs' where f: "FindRoot i s = Some (Inr (root_of (groups s) i, s\<lparr>groups := gs'\<rparr>))" "same_groups (groups s) gs'"
    using FindRoot_ok[of s i] p i by (auto simp: part_ok_def)
  then show "\<exists>r. FindRoot i s = Some r \<and> (\<forall>x s'. r = Inr (x, s') \<longrightarrow> Q x s')" using Q part_ok_same[OF p f(2)] by auto
qed

lemma root_of_fields:
  assumes "gparent gr = gparent (gs ! p)"
  shows "up (gs[p := gr]) = up gs" "uf_ok (gs[p := gr]) = uf_ok gs" "root_of (gs[p := gr]) = root_of gs" "members (gs[p := gr]) = members gs"
proof -
  have g: "gparent (gs[p := gr] ! i) = gparent (gs ! i)" for i
    using assms by (simp add: upd_nth)
  show u: "up (gs[p := gr]) = up gs" by (simp add: up_def g)
  show "uf_ok (gs[p := gr]) = uf_ok gs" by (simp add: uf_ok_def u)
  show r: "root_of (gs[p := gr]) = root_of gs" by (rule ext) (simp add: root_of_def rooted_def u g)
  show "members (gs[p := gr]) = members gs" by (rule ext) (simp add: members_def r)
qed

lemma part_ok_fields:
  assumes "part_ok n opq gs" and "gparent gr = gparent (gs ! p)" and "num_nodes gr = num_nodes (gs ! p)" and "p \<notin> opq"
  shows "part_ok n opq (gs[p := gr])"
  using assms(1,3,4) unfolding part_ok_def root_of_fields[OF assms(2)]
  by (auto simp: upd_nth assms(2))

text \<open>Merging the group of the root \<open>c\<close> into that of the root \<open>p\<close>.\<close>

lemma part_ok_merge:
  assumes ok: "part_ok n opq gs" and c: "c < n" "gparent (gs ! c) = None" and p: "p < n" "gparent (gs ! p) = None" and ne: "c \<noteq> p"
    and opq: "\<forall>i < n. i \<in> opq \<longrightarrow> root_of gs i \<noteq> c \<and> root_of gs i \<noteq> p"
  shows "part_ok n opq ((gs[p := (gs ! p)\<lparr>num_nodes := num_nodes (gs ! p) + num_nodes (gs ! c)\<rparr>])[c := (gs ! c)\<lparr>gparent := Some p\<rparr>])"
proof -
  let ?g1 = "gs[p := (gs ! p)\<lparr>num_nodes := num_nodes (gs ! p) + num_nodes (gs ! c)\<rparr>]"
  let ?gs = "set_parent c p ?g1"
  have g1: "up ?g1 = up gs" "uf_ok ?g1 = uf_ok gs" "root_of ?g1 = root_of gs" "members ?g1 = members gs"
    by (rule root_of_fields; simp)+
  have len: "length gs = n" and uf: "uf_ok gs" using ok by (simp_all add: part_ok_def)
  have eq: "?g1[c := (gs ! c)\<lparr>gparent := Some p\<rparr>] = ?gs" using ne by (simp add: set_parent_def)
  have sp: "uf_ok ?gs" "\<And>j. j < n \<Longrightarrow> root_of ?gs j = (if (j, c) \<in> (up gs)\<^sup>* then p else root_of gs j)"
    using set_parent_ok[of ?g1 c p] uf c p ne len by (auto simp: g1)
  have "(j, c) \<in> (up gs)\<^sup>* \<longleftrightarrow> root_of gs j = c" if "j < n" for j
  proof
    assume "(j, c) \<in> (up gs)\<^sup>*"
    then show "root_of gs j = c" using c len by (intro root_ofI) (simp add: rooted_def)
  next
    assume "root_of gs j = c"
    then show "(j, c) \<in> (up gs)\<^sup>*" using rooted_root_of[OF uf] that len by (auto simp: rooted_def)
  qed
  then have root: "root_of ?gs j = (if root_of gs j = c then p else root_of gs j)" if "j < n" for j using sp(2) that by simp
  have mem: "members ?gs r = (if r = p then members gs p \<union> members gs c else if r = c then {} else members gs r)" for r
    using root ne len by (auto simp: members_def split: if_splits)
  have fin: "finite (members gs r)" for r by (simp add: members_def)
  have dis: "members gs p \<inter> members gs c = {}" using ne by (auto simp: members_def)
  have nth: "?gs ! j = (if j = c then (gs ! c)\<lparr>gparent := Some p\<rparr> else if j = p then (gs ! p)\<lparr>num_nodes := num_nodes (gs ! p) + num_nodes (gs ! c)\<rparr> else gs ! j)" for j
    using set_parent_nth[of c ?g1 p j] c p ne len by (auto simp: nth_list_update)
  have num: "num_nodes (gs ! r) = card (members gs r)" if "r < n" "gparent (gs ! r) = None" for r using ok that by (simp add: part_ok_def)
  have "num_nodes (?gs ! r) = card (members ?gs r)" if r: "r < n" "gparent (?gs ! r) = None" for r
  proof (cases "r = p")
    case True
    have "num_nodes (?gs ! p) = num_nodes (gs ! p) + num_nodes (gs ! c)" unfolding nth using ne by simp
    also have "\<dots> = card (members gs p \<union> members gs c)" using num[OF p] num[OF c] card_Un_disjoint[OF fin fin dis] by simp
    also have "\<dots> = card (members ?gs p)" unfolding mem by simp
    finally show ?thesis using True by simp
  next
    case False
    then have "r \<noteq> c" "gparent (gs ! r) = None" using r(2) by (auto simp: nth split: if_splits)
    then show ?thesis using num[OF r(1)] False by (simp add: nth mem)
  qed
  moreover have "gpattern (?gs ! i) = Some OPAQUE \<and> members ?gs (root_of ?gs i) = {i}" if i: "i < n" "i \<in> opq" for i
  proof -
    have o: "gpattern (gs ! i) = Some OPAQUE" "members gs (root_of gs i) = {i}" "root_of gs i \<noteq> c" "root_of gs i \<noteq> p"
      using ok opq i by (auto simp: part_ok_def)
    have "i \<noteq> c" "i \<noteq> p" using o(3,4) root_of_root[of c gs] root_of_root[of p gs] c p len by auto
    then show ?thesis using o root[OF i(1)] by (simp add: nth mem)
  qed
  ultimately show ?thesis using sp(1) len unfolding eq part_ok_def by simp
qed

lemma part_ok_not_opaque:
  assumes "part_ok n opq gs" and "i < n" "i \<notin> opq" and "j < n" "j \<in> opq"
  shows "root_of gs j \<noteq> root_of gs i"
proof
  assume "root_of gs j = root_of gs i"
  then have "i \<in> members gs (root_of gs j)" using assms(1,2) by (simp add: members_def part_ok_def)
  then have "i = j" using assms(1,4,5) by (simp add: part_ok_def)
  then show False using assms(3,5) by simp
qed

lemma hoare_MergeFromTo:
  assumes c: "c < n" "c \<notin> opq" and t: "t < n" "t \<notin> opq"
  shows "hoare (\<lambda>s. part_ok n opq (groups s) \<and> V (visited s)) (MergeFromTo c t) (\<lambda>_ s. part_ok n opq (groups s) \<and> V (visited s))"
proof -
  let ?Q = "\<lambda>(_ :: unit) s. part_ok n opq (groups s) \<and> V (visited s)"
  let ?ready = "\<lambda>x y s. part_ok n opq (groups s) \<and> V (visited s) \<and> x < n \<and> y < n \<and> gparent (groups s ! x) = None \<and> gparent (groups s ! y) = None \<and>
      (\<forall>i < n. i \<in> opq \<longrightarrow> root_of (groups s) i \<noteq> x \<and> root_of (groups s) i \<noteq> y)"
  have rt: "root_of gs i < n \<and> gparent (gs ! root_of gs i) = None" if "part_ok n opq gs" "i < n" for gs i
    using rooted_root_of[of gs i] that by (auto simp: part_ok_def rooted_def)
  have keep: "root_of gs' i = root_of gs i \<and> (gparent (gs' ! i) = None \<longleftrightarrow> gparent (gs ! i) = None)" if "same_groups gs gs'" "i < length gs" for gs gs' i
    using that by (simp add: same_groups_def)
  have body: "hoare (?ready x y)
      (if x = y then ret () else bind (group_at x) (\<lambda>cg. bind (group_at y) (\<lambda>pg.
            bind (set_group y (pg\<lparr>num_nodes := num_nodes pg + num_nodes cg\<rparr>)) (\<lambda>_.
            bind (set_group x (cg\<lparr>gparent := Some y\<rparr>)) (\<lambda>_.
              if anchor_ref cg = None then ret ()
              else bind (lift (py_assert (anchor_ref pg = None))) (\<lambda>_.
                   bind (lift (CombinePattern (gpattern cg) (gpattern pg))) (\<lambda>pat.
                   bind (group_at y) (\<lambda>p. set_group y (p\<lparr>anchor_ref := anchor_ref cg, gpattern := pat\<rparr>))))))))) ?Q" for x y
  proof (cases "x = y")
    case True
    then show ?thesis using hoare_pre[OF hoare_ret[of ?Q "()"], of "?ready x y"] by simp
  next
    case False
    let ?m = "\<lambda>cg pg s. part_ok n opq (groups s) \<and> V (visited s) \<and> y \<notin> opq"
    show ?thesis unfolding if_not_P[OF False]
      apply (rule hoare_pre)
       apply (rule hoare_bind[OF hoare_group_at], rule hoare_bind[OF hoare_group_at], rule hoare_bind[OF hoare_set_group], rule hoare_bind[OF hoare_set_group])
       apply (rule hoare_if)
        apply (rule hoare_ret)
       apply (rule hoare_bind[OF hoare_lift], rule hoare_bind[OF hoare_lift], rule hoare_bind[OF hoare_group_at], rule hoare_set_group)
      subgoal for s
        using part_ok_merge[of n opq "groups s" x y] False root_of_root[of y "groups s"]
        by (auto simp: part_ok_def[of n opq "groups s"] intro!: part_ok_fields)
      done
  qed
  have ready: "?ready (root_of gs c) (root_of gs' t) (s\<lparr>groups := gs''\<rparr>)"
    if "part_ok n opq gs" "same_groups gs gs'" "same_groups gs' gs''" "part_ok n opq gs''" "V (visited s)" for gs gs' gs'' s
  proof -
    have "length gs = n" "length gs' = n" using that(1,2) by (simp_all add: part_ok_def same_groups_def)
    then have r: "root_of gs c = root_of gs'' c" "root_of gs' t = root_of gs'' t"
      using keep[OF same_groups_trans[OF that(2,3)], of c] keep[OF that(3), of t] c t by simp_all
    show ?thesis unfolding r using that(4,5) rt[OF that(4) c(1)] rt[OF that(4) t(1)] part_ok_not_opaque[OF that(4) c] part_ok_not_opaque[OF that(4) t] by simp
  qed
  show ?thesis unfolding MergeFromTo_def
  proof (rule hoare_pre[OF hoare_bind[OF hoare_FindRoot[where n = n and opq = opq] hoare_bind[OF hoare_FindRoot[where n = n and opq = opq] body]]])
    fix s assume s: "part_ok n opq (groups s) \<and> V (visited s)"
    show "part_ok n opq (groups s) \<and> c < n \<and> (\<forall>gs'. same_groups (groups s) gs' \<and> part_ok n opq gs' \<longrightarrow>
        part_ok n opq (groups (s\<lparr>groups := gs'\<rparr>)) \<and> t < n \<and> (\<forall>gs''. same_groups (groups (s\<lparr>groups := gs'\<rparr>)) gs'' \<and> part_ok n opq gs'' \<longrightarrow>
          ?ready (root_of (groups s) c) (root_of (groups (s\<lparr>groups := gs'\<rparr>)) t) (s\<lparr>groups := gs', groups := gs''\<rparr>)))"
      using s c(1) t(1) ready[of "groups s" _ _ s] by (simp, blast)
  qed
qed


section \<open>Paths to the sink\<close>

definition targets :: "ifg \<Rightarrow> expr \<Rightarrow> expr set" where
  "targets g e = {p. NodeOf p \<in> edge_node ` set (outputs_of g e)}"

lemma link_node_Inr: "link_node l = Inr p \<longleftrightarrow> edge_node l = NodeOf p"
  by (auto simp: link_node_def split: link_target.splits)

text \<open>Conditions that reject opaque groups.\<close>

definition rejects_opaque :: "fcond \<Rightarrow> bool" where
  "rejects_opaque fc \<longleftrightarrow> (\<forall>b. fc (Some OPAQUE) b = Inr False)"

lemma rejects_opaque_fconds: "k < OPAQUE \<Longrightarrow> rejects_opaque (fcond_le k)" "rejects_opaque fcond_sink"
  by (auto simp: rejects_opaque_def fcond_le_def fcond_sink_def pat_le_def pattern_defs)

text \<open>
  The search has checked the visited nodes; those whose visit has ended, not in \<open>S\<close>, have only
  visited successors. The first component bounds the visited set from below.
\<close>

definition searched :: "nat \<Rightarrow> nat set \<Rightarrow> ifg \<Rightarrow> expr \<Rightarrow> expr set \<Rightarrow> expr set \<Rightarrow> partitioner \<Rightarrow> bool" where
  "searched n opq g sink V S s \<longleftrightarrow> part_ok n opq (groups s) \<and> V \<subseteq> visited s \<and> S \<subseteq> visited s \<and>
     (\<forall>x \<in> visited s. index_of g x < n \<and> index_of g x \<notin> opq) \<and>
     (\<forall>x \<in> visited s - S. x \<noteq> sink \<longrightarrow> targets g x \<subseteq> visited s)"

definition part_of :: "nat \<Rightarrow> nat set \<Rightarrow> partitioner \<Rightarrow> bool" where
  "part_of n opq s \<longleftrightarrow> part_ok n opq (groups s)"

lemma for_all_searched:
  assumes f: "\<And>l p V. l \<in> set ls \<Longrightarrow> link_node l = Inr p \<Longrightarrow>
      hoare (searched n opq g sink V S) (f p) (\<lambda>b s. part_of n opq s \<and> (b \<longrightarrow> searched n opq g sink (insert p V) S s))"
  shows "hoare (searched n opq g sink V S) (for_all (\<lambda>l. bind (lift (link_node l)) f) ls)
    (\<lambda>b s. part_of n opq s \<and> (b \<longrightarrow> searched n opq g sink (V \<union> {p. NodeOf p \<in> edge_node ` set ls}) S s))"
  using f
proof (induction ls arbitrary: V)
  case Nil
  show ?case by (auto simp: hoare_def ret_def searched_def part_of_def)
next
  case (Cons l ls)
  show ?case unfolding for_all.simps
  proof (rule hoare_bind)
    show "hoare (searched n opq g sink V S) (bind (lift (link_node l)) f)
        (\<lambda>b s. part_of n opq s \<and> (b \<longrightarrow> searched n opq g sink (V \<union> {p. edge_node l = NodeOf p}) S s))"
    proof (cases "link_node l")
      case (Inl e)
      then show ?thesis by (simp add: hoare_def bind_def lift_def)
    next
      case (Inr p)
      have "V \<union> {q. edge_node l = NodeOf q} = insert p V" using Inr by (auto simp: link_node_Inr)
      then show ?thesis using Cons.prems[OF _ Inr, of V] Inr by (simp add: hoare_def bind_def lift_def)
    qed
    fix b
    show "hoare (\<lambda>s. part_of n opq s \<and> (b \<longrightarrow> searched n opq g sink (V \<union> {p. edge_node l = NodeOf p}) S s))
        (if b then for_all (\<lambda>l. bind (lift (link_node l)) f) ls else ret False)
        (\<lambda>b s. part_of n opq s \<and> (b \<longrightarrow> searched n opq g sink (V \<union> {p. NodeOf p \<in> edge_node ` set (l # ls)}) S s))"
    proof (cases b)
      case True
      have "V \<union> {p. NodeOf p \<in> edge_node ` set (l # ls)} = (V \<union> {p. edge_node l = NodeOf p}) \<union> {p. NodeOf p \<in> edge_node ` set ls}" by auto
      moreover have "hoare (searched n opq g sink (V \<union> {p. edge_node l = NodeOf p}) S) (for_all (\<lambda>l. bind (lift (link_node l)) f) ls)
        (\<lambda>b s. part_of n opq s \<and> (b \<longrightarrow> searched n opq g sink ((V \<union> {p. edge_node l = NodeOf p}) \<union> {p. NodeOf p \<in> edge_node ` set ls}) S s))"
        by (rule Cons.IH) (rule Cons.prems, simp_all)
      ultimately show ?thesis using hoare_pre True by fastforce
    next
      case False
      then show ?thesis by (auto simp: hoare_def ret_def)
    qed
  qed
qed

lemma CheckPath_rec_ok:
  assumes fc: "rejects_opaque fc"
  shows "hoare (searched n opq g sink V S) (CheckPath_rec k g sink fc src)
    (\<lambda>b s. part_of n opq s \<and> (b \<longrightarrow> searched n opq g sink (insert src V) S s))"
proof (induction k arbitrary: src V S)
  case 0
  show ?case by (simp add: hoare_def lift_def)
next
  case (Suc k)
  let ?Q = "\<lambda>b s. part_of n opq s \<and> (b \<longrightarrow> searched n opq g sink (insert src V) S s)"
  have loop: "hoare (searched n opq g sink V (insert src S)) (for_all (\<lambda>l. bind (lift (link_node l)) (CheckPath_rec k g sink fc)) (outputs_of g src)) ?Q"
  proof (rule hoare_post[OF for_all_searched])
    fix p V' show "hoare (searched n opq g sink V' (insert src S)) (CheckPath_rec k g sink fc p)
      (\<lambda>b s. part_of n opq s \<and> (b \<longrightarrow> searched n opq g sink (insert p V') (insert src S) s))" by (rule Suc.IH)
  next
    fix b s assume "part_of n opq s \<and> (b \<longrightarrow> searched n opq g sink (V \<union> {p. NodeOf p \<in> edge_node ` set (outputs_of g src)}) (insert src S) s)"
    then have b: "part_of n opq s" "b \<Longrightarrow> searched n opq g sink (V \<union> targets g src) (insert src S) s" by (simp_all add: targets_def)
    then show "?Q b s" unfolding searched_def by blast
  qed
  let ?body = "bind (add_visited src) (\<lambda>_. bind (group_at (index_of g src)) (\<lambda>_. bind (FindRoot (index_of g src)) (\<lambda>root. bind (group_at root) (\<lambda>gnode.
          bind (lift (fc (gpattern gnode) (src = sink))) (\<lambda>ok.
            if \<not> ok then ret False
            else if src = sink then ret True
            else for_all (\<lambda>l. bind (lift (link_node l)) (CheckPath_rec k g sink fc)) (outputs_of g src))))))"
  let ?after = "\<lambda>ok s. part_ok n opq (groups s) \<and> (ok \<longrightarrow> (if src = sink then searched n opq g sink (insert src V) S s
      else searched n opq g sink V (insert src S) s))"
  let ?before = "\<lambda>s. index_of g src < length (groups s) \<longrightarrow> part_ok n opq (groups s) \<and> index_of g src < n \<and>
        (\<forall>gs'. same_groups (groups s) gs' \<and> part_ok n opq gs' \<longrightarrow> root_of (groups s) (index_of g src) < length gs' \<longrightarrow>
          (\<forall>ok. fc (gpattern (gs' ! root_of (groups s) (index_of g src))) (src = sink) = Inr ok \<longrightarrow>
            ?after ok (s\<lparr>visited := insert src (visited s), groups := gs'\<rparr>)))"
  have "hoare (?after ok) (if \<not> ok then ret False else if src = sink then ret True
        else for_all (\<lambda>l. bind (lift (link_node l)) (CheckPath_rec k g sink fc)) (outputs_of g src)) ?Q" for ok
  proof (cases "ok \<and> src \<noteq> sink")
    case True
    then have "?after ok s \<Longrightarrow> searched n opq g sink V (insert src S) s" for s by simp
    from hoare_pre[OF loop this] show ?thesis using True by simp
  next
    case False
    then show ?thesis by (auto simp: hoare_def ret_def part_of_def)
  qed
  note rules = hoare_bind[OF hoare_add_visited hoare_bind[OF hoare_group_at hoare_bind[OF hoare_FindRoot[where n = n and opq = opq]
          hoare_bind[OF hoare_group_at hoare_bind[OF hoare_lift this]]]]]
  have W: "hoare ?before ?body ?Q" by (rule hoare_pre[OF rules]) (simp split del: if_split, blast)
  have new: "hoare (\<lambda>s. searched n opq g sink V S s \<and> src \<notin> visited s) ?body ?Q"
  proof (rule hoare_pre[OF W], intro impI)
    fix s assume s: "searched n opq g sink V S s \<and> src \<notin> visited s" and i: "index_of g src < length (groups s)"
    let ?i = "index_of g src" and ?r = "root_of (groups s) (index_of g src)"
    have p: "part_ok n opq (groups s)" "length (groups s) = n" "uf_ok (groups s)" using s by (simp_all add: searched_def part_ok_def)
    have "?after ok (s\<lparr>visited := insert src (visited s), groups := gs'\<rparr>)"
      if gs': "same_groups (groups s) gs'" "part_ok n opq gs'" and f: "fc (gpattern (gs' ! ?r)) (src = sink) = Inr ok" for gs' ok
    proof -
      have "?i \<notin> opq" if ok
      proof
        assume "?i \<in> opq"
        then have m: "members (groups s) ?r = {?i}" "gpattern (gs' ! ?i) = Some OPAQUE" using p(1) gs'(2) i p(2) by (simp_all add: part_ok_def)
        have "rooted (groups s) ?i ?r" by (rule rooted_root_of[OF p(3) i])
        then have "?r < length (groups s)" "gparent (groups s ! ?r) = None" by (simp_all add: rooted_def)
        then have "?r \<in> members (groups s) ?r" using root_of_root by (simp add: members_def)
        then have "?r = ?i" using m(1) by simp
        then show False using f fc m(2) \<open>ok\<close> by (simp add: rejects_opaque_def)
      qed
      then show ?thesis using s gs'(2) i p(2) by (auto simp: searched_def)
    qed
    then show "part_ok n opq (groups s) \<and> ?i < n \<and> (\<forall>gs'. same_groups (groups s) gs' \<and> part_ok n opq gs' \<longrightarrow> ?r < length gs' \<longrightarrow>
          (\<forall>ok. fc (gpattern (gs' ! ?r)) (src = sink) = Inr ok \<longrightarrow> ?after ok (s\<lparr>visited := insert src (visited s), groups := gs'\<rparr>)))"
      using p i by blast
  qed
  have vis: "hoare (\<lambda>s. searched n opq g sink V S s \<and> v = (src \<in> visited s)) (if v then ret True else ?body) ?Q" for v
  proof (cases v)
    case True
    then show ?thesis by (auto simp: hoare_def ret_def searched_def part_of_def)
  next
    case False
    then show ?thesis using hoare_pre[OF new] by simp
  qed
  show ?case unfolding CheckPath_rec.simps by (rule hoare_pre[OF hoare_bind[OF hoare_is_visited[where e = src] vis]]) simp
qed

text \<open>A successful check: the nodes between the source and the sink are a set closed under successors.\<close>

definition between_ok :: "nat \<Rightarrow> nat set \<Rightarrow> ifg \<Rightarrow> expr \<Rightarrow> expr \<Rightarrow> expr set \<Rightarrow> bool" where
  "between_ok n opq g src sink A \<longleftrightarrow> targets g src \<subseteq> A \<and> (\<forall>x \<in> A. index_of g x < n \<and> index_of g x \<notin> opq \<and> (x \<noteq> sink \<longrightarrow> targets g x \<subseteq> A))"

lemma CheckPath_ok:
  assumes "rejects_opaque fc"
  shows "hoare (part_of n opq) (CheckPath limit g src sink fc) (\<lambda>b s. part_of n opq s \<and> (b \<longrightarrow> (\<exists>A. between_ok n opq g src sink A)))"
proof -
  have "hoare (searched n opq g sink {} {}) (for_all (\<lambda>l. bind (lift (link_node l)) (CheckPath_rec limit g sink fc)) (outputs_of g src))
    (\<lambda>b s. part_of n opq s \<and> (b \<longrightarrow> (\<exists>A. between_ok n opq g src sink A)))"
  proof (rule hoare_post[OF for_all_searched])
    fix p V' show "hoare (searched n opq g sink V' {}) (CheckPath_rec limit g sink fc p)
      (\<lambda>b s. part_of n opq s \<and> (b \<longrightarrow> searched n opq g sink (insert p V') {} s))" by (rule CheckPath_rec_ok[OF assms])
  next
    fix b s assume "part_of n opq s \<and> (b \<longrightarrow> searched n opq g sink ({} \<union> {p. NodeOf p \<in> edge_node ` set (outputs_of g src)}) {} s)"
    then have b: "part_of n opq s" "b \<Longrightarrow> searched n opq g sink (targets g src) {} s" by (simp_all add: targets_def)
    have "between_ok n opq g src sink (visited s)" if b using b(2)[OF that] unfolding searched_def between_ok_def by simp
    then show "part_of n opq s \<and> (b \<longrightarrow> (\<exists>A. between_ok n opq g src sink A))" using b(1) by blast
  qed
  note loop = this
  show ?thesis unfolding CheckPath_def
    by (rule hoare_pre[OF hoare_bind[OF hoare_lift hoare_bind[OF hoare_clear_visited hoare_bind[OF hoare_lift loop]]]])
      (simp add: part_of_def searched_def)
qed

lemma hoare_MergeFromTo': "c < n \<Longrightarrow> c \<notin> opq \<Longrightarrow> t < n \<Longrightarrow> t \<notin> opq \<Longrightarrow> hoare (part_of n opq) (MergeFromTo c t) (\<lambda>_. part_of n opq)"
  using hoare_MergeFromTo[of c n opq t "\<lambda>_. True"] unfolding part_of_def by simp

lemma for_each_links:
  assumes "\<And>p. p \<in> {p. NodeOf p \<in> edge_node ` set ls} \<Longrightarrow> hoare I (f p) (\<lambda>_. I)"
  shows "hoare I (for_each (\<lambda>l. bind (lift (link_node l)) f) ls) (\<lambda>_. I)"
proof (rule hoare_for_each)
  fix l assume l: "l \<in> set ls"
  show "hoare I (bind (lift (link_node l)) f) (\<lambda>_. I)"
  proof (cases "link_node l")
    case (Inl e)
    then show ?thesis by (simp add: hoare_def bind_def lift_def)
  next
    case (Inr p)
    then have "p \<in> {p. NodeOf p \<in> edge_node ` set ls}" using l by (force simp: link_node_Inr)
    then show ?thesis using assms[of p] Inr by (simp add: hoare_def bind_def lift_def)
  qed
qed

lemma CommitFuse_rec_ok:
  assumes A: "\<forall>x \<in> A. index_of g x \<notin> opq \<and> (x \<noteq> sink \<longrightarrow> targets g x \<subseteq> A)" and t: "t < n" "t \<notin> opq"
  shows "src \<in> A \<Longrightarrow> hoare (part_of n opq) (CommitFuse_rec k g sink t src) (\<lambda>_. part_of n opq)"
proof (induction k arbitrary: src)
  case 0
  show ?case by (simp add: hoare_def lift_def)
next
  case (Suc k)
  show ?case
  proof (cases "src = sink")
    case True
    then show ?thesis using hoare_ret[of "\<lambda>_. part_of n opq" "()"] by simp
  next
    case False
    have idx: "index_of g src \<notin> opq" using A Suc.prems by blast
    have "hoare (part_of n opq) (for_each (\<lambda>l. bind (lift (link_node l)) (CommitFuse_rec k g sink t)) (outputs_of g src)) (\<lambda>_. part_of n opq)"
    proof (rule for_each_links)
      fix p assume "p \<in> {p. NodeOf p \<in> edge_node ` set (outputs_of g src)}"
      then have "p \<in> A" using A Suc.prems False unfolding targets_def by blast
      then show "hoare (part_of n opq) (CommitFuse_rec k g sink t p) (\<lambda>_. part_of n opq)" by (rule Suc.IH)
    qed
    note each = this
    have "hoare (\<lambda>s. part_of n opq s \<and> index_of g src < n) (bind (MergeFromTo (index_of g src) t) (\<lambda>_.
        for_each (\<lambda>l. bind (lift (link_node l)) (CommitFuse_rec k g sink t)) (outputs_of g src))) (\<lambda>_. part_of n opq)"
      by (rule hoare_fact, rule hoare_bind[OF hoare_MergeFromTo'[OF _ idx t] each])
    note rest = hoare_bind[OF hoare_add_visited[where e = src] hoare_bind[OF hoare_group_at[where i = "index_of g src"] this]]
    have "hoare (part_of n opq) (if v then ret () else bind (add_visited src) (\<lambda>_. bind (group_at (index_of g src)) (\<lambda>_.
        bind (MergeFromTo (index_of g src) t) (\<lambda>_. for_each (\<lambda>l. bind (lift (link_node l)) (CommitFuse_rec k g sink t)) (outputs_of g src))))) (\<lambda>_. part_of n opq)" for v
      using hoare_ret[of "\<lambda>_. part_of n opq" "()"] hoare_pre[OF rest, of "part_of n opq"] by (cases v) (auto simp: part_of_def part_ok_def)
    from hoare_bind[OF hoare_is_visited this] show ?thesis using False by simp
  qed
qed

lemma CommitFuse_ok:
  assumes A: "between_ok n opq g src sink A" and sink: "sink \<in> A" and src: "index_of g src \<notin> opq"
  shows "hoare (part_of n opq) (CommitFuse limit g src sink) (\<lambda>_. part_of n opq)"
proof -
  have B: "\<forall>x \<in> insert src A. index_of g x \<notin> opq \<and> (x \<noteq> sink \<longrightarrow> targets g x \<subseteq> insert src A)"
    and t: "index_of g sink < n" "index_of g sink \<notin> opq" using A sink src by (auto simp: between_ok_def)
  have c: "hoare (part_of n opq) (CommitFuse_rec limit g sink (index_of g sink) src) (\<lambda>_. part_of n opq)"
    by (rule CommitFuse_rec_ok[OF B t]) simp
  show ?thesis unfolding CommitFuse_def
    by (rule hoare_pre[OF hoare_bind[OF hoare_group_at hoare_bind[OF hoare_clear_visited hoare_bind[OF hoare_lift c]]]])
      (simp add: part_of_def)
qed

lemma hoare_FindRoot': "i < n \<Longrightarrow> hoare (part_of n opq) (FindRoot i) (\<lambda>_. part_of n opq)"
  by (rule hoare_pre[OF hoare_FindRoot[where n = n and opq = opq]]) (simp add: part_of_def)

lemma hoare_keep_group_at: "hoare (part_of n opq) (group_at i) (\<lambda>_ s. part_of n opq s \<and> i < n)"
  by (rule hoare_pre[OF hoare_group_at]) (simp add: part_of_def part_ok_def)

lemma hoare_sum_each:
  assumes "\<And>x. x \<in> set xs \<Longrightarrow> hoare I (f x) (\<lambda>_. I)"
  shows "hoare I (sum_each f xs acc) (\<lambda>_. I)"
  using assms
proof (induction xs arbitrary: acc)
  case Nil
  show ?case using hoare_ret[of "\<lambda>_. I" acc] by simp
next
  case (Cons x xs)
  then show ?case by (simp add: hoare_bind[where R = "\<lambda>_. I"])
qed

lemma CountNodesUptoSink_ok: "hoare (part_of n opq) (CountNodesUptoSink k g sink src) (\<lambda>_. part_of n opq)"
proof (induction k arbitrary: src)
  case 0
  show ?case by (simp add: hoare_def lift_def)
next
  case (Suc k)
  have l: "hoare (part_of n opq) (bind (lift (link_node l)) (CountNodesUptoSink k g sink)) (\<lambda>_. part_of n opq)" for l
    by (rule hoare_pre[OF hoare_bind[OF hoare_lift Suc.IH]]) simp
  have "hoare (part_of n opq) (sum_each (\<lambda>l. bind (lift (link_node l)) (CountNodesUptoSink k g sink)) (outputs_of g src) acc) (\<lambda>_. part_of n opq)" for acc
    by (rule hoare_sum_each) (rule l)
  note rest = hoare_bind[OF hoare_add_visited[where e = src] hoare_bind[OF hoare_group_at[where i = "index_of g src"] this]]
  have "hoare (part_of n opq) (if src = sink \<or> v then ret 0 else bind (add_visited src) (\<lambda>_. bind (group_at (index_of g src)) (\<lambda>gnode.
      sum_each (\<lambda>l. bind (lift (link_node l)) (CountNodesUptoSink k g sink)) (outputs_of g src) (num_nodes gnode)))) (\<lambda>_. part_of n opq)" for v
    using hoare_ret[of "\<lambda>_. part_of n opq" 0] hoare_pre[OF rest, of "part_of n opq"] by (cases "src = sink \<or> v") (auto simp: part_of_def)
  from hoare_bind[OF hoare_is_visited this] show ?case by simp
qed

lemma CountFused_ok: "hoare (part_of n opq) (CountFusedNodesWithNewChild limit g child par) (\<lambda>_. part_of n opq)"
proof -
  have c: "hoare (part_of n opq) (bind (CountNodesUptoSink limit g par child) (\<lambda>m. ret (k + m))) (\<lambda>_. part_of n opq)" for k
    by (rule hoare_bind[OF CountNodesUptoSink_ok]) (rule hoare_ret)
  have f: "hoare (\<lambda>s. part_of n opq s \<and> index_of g par < n) (bind (FindRoot (index_of g par)) (\<lambda>root. bind (group_at root) (\<lambda>gr.
      bind (CountNodesUptoSink limit g par child) (\<lambda>m. ret (num_nodes gr + m))))) (\<lambda>_. part_of n opq)"
    by (rule hoare_fact, rule hoare_bind[OF hoare_FindRoot'], assumption)
      (rule hoare_bind[OF hoare_post[OF hoare_keep_group_at, of n opq _ "\<lambda>_. part_of n opq"] c], simp)
  show ?thesis unfolding CountFusedNodesWithNewChild_def
    by (rule hoare_bind[OF hoare_keep_group_at], rule hoare_pre[OF hoare_bind[OF hoare_clear_visited hoare_bind[OF hoare_lift f]]])
      (simp add: part_of_def)
qed


section \<open>The phases\<close>

abbreviation keeps :: "nat \<Rightarrow> nat set \<Rightarrow> 'a action \<Rightarrow> bool" where
  "keeps n opq m \<equiv> hoare (part_of n opq) m (\<lambda>_. part_of n opq)"

lemma keeps_bind: "keeps n opq m \<Longrightarrow> (\<And>x. keeps n opq (f x)) \<Longrightarrow> keeps n opq (bind m f)"
  by (rule hoare_bind)

lemma keeps_ret: "keeps n opq (ret x)"
  by (rule hoare_ret)

lemma keeps_lift: "keeps n opq (lift r)"
  by (rule hoare_pre[OF hoare_lift]) simp

lemma keeps_group_at: "keeps n opq (group_at i)"
  by (rule hoare_pre[OF hoare_group_at]) simp

lemma keeps_if: "(b \<Longrightarrow> keeps n opq m) \<Longrightarrow> (\<not> b \<Longrightarrow> keeps n opq m') \<Longrightarrow> keeps n opq (if b then m else m')"
  by simp

lemmas keeps_rules = keeps_bind keeps_ret keeps_lift keeps_group_at keeps_if

text \<open>The sink post-dominates the source, so the nodes of a successful check include it.\<close>

lemma sink_between:
  assumes g: "flow_graph g" and i: "i < length (post_dfs_order g)" and p: "p \<in> post_dominators g i" "p \<noteq> i" "p < length (post_dfs_order g)"
    and A: "between_ok n opq g (post_dfs_order g ! i) (post_dfs_order g ! p) A"
  shows "post_dfs_order g ! p \<in> A"
proof (rule ccontr)
  assume no: "post_dfs_order g ! p \<notin> A"
  let ?o = "post_dfs_order g" and ?B = "insert (post_dfs_order g ! i) A"
  have inside: "exit_path h j xs \<Longrightarrow> h = g \<Longrightarrow> ?o ! j \<in> ?B \<Longrightarrow> \<forall>x \<in> set xs. ?o ! x \<in> ?B" for h j xs
  proof (induction rule: exit_path.induct)
    case (go j h j' xs)
    have "?o ! j' \<in> targets g (?o ! j)" using go.hyps(2) go.prems(1) by (force simp: succs_def targets_def outputs_of_def node_at_def)
    moreover have "targets g (?o ! j) \<subseteq> A" using A no go.prems unfolding between_ok_def by auto
    ultimately have "?o ! j' \<in> ?B" by blast
    then show ?case using go by simp
  qed simp
  obtain xs where xs: "exit_path g i xs" using exit_path_ex[OF g i] by blast
  then have "p \<in> set xs" using p(1) by (simp add: post_dominators_def)
  then have "?o ! p \<in> ?B" using inside[OF xs refl] by simp
  moreover have "?o ! p \<noteq> ?o ! i" using g i p(2,3) by (simp add: flow_graph_def nth_eq_iff_index_eq)
  ultimately show False using no by simp
qed

lemma check_and_fuse_ok:
  assumes "rejects_opaque fc" and "index_of g src \<notin> opq" and "\<And>A. between_ok n opq g src sink A \<Longrightarrow> sink \<in> A"
  shows "keeps n opq (check_and_fuse limit g src sink fc)"
  unfolding check_and_fuse_def
proof (rule hoare_bind[OF CheckPath_ok[OF assms(1)]])
  fix ok
  show "hoare (\<lambda>s. part_of n opq s \<and> (ok \<longrightarrow> (\<exists>A. between_ok n opq g src sink A))) (if ok then CommitFuse limit g src sink else ret ()) (\<lambda>_. part_of n opq)"
  proof (cases ok)
    case True
    have "hoare (\<lambda>s. part_of n opq s \<and> (\<exists>A. between_ok n opq g src sink A)) (CommitFuse limit g src sink) (\<lambda>_. part_of n opq)"
    proof (rule hoare_fact)
      assume "\<exists>A. between_ok n opq g src sink A"
      then obtain A where A: "between_ok n opq g src sink A" ..
      show "keeps n opq (CommitFuse limit g src sink)" by (rule CommitFuse_ok[OF A assms(3)[OF A] assms(2)])
    qed
    then show ?thesis using True by (simp only: if_True simp_thms)
  next
    case False
    then show ?thesis using keeps_ret[of n opq "()"] by simp
  qed
qed

lemma fuse_node_ok:
  assumes src: "index_of g node \<notin> opq" and sink: "index_of g sink < n" "\<And>A. between_ok n opq g node sink A \<Longrightarrow> sink \<in> A" and nid: "nid < n"
  shows "keeps n opq (fuse_node limit depth g phase node nid sink dom_pat)"
proof -
  have cf: "keeps n opq (check_and_fuse limit g node sink fc)" if "rejects_opaque fc" for fc
    by (rule check_and_fuse_ok[OF that src sink(2)])
  have le: "rejects_opaque (fcond_le INJECTIVE)" "rejects_opaque (fcond_le BROADCAST)" "rejects_opaque fcond_sink"
    by (auto intro!: rejects_opaque_fconds simp: pattern_defs)
  have pat: "keeps n opq (fuse_by_pattern limit g phase node sink dom_pat gr)" for gr
    unfolding fuse_by_pattern_def by (intro keeps_rules cf le)
  have tup: "keeps n opq (fuse_tuple limit g node sink gr)" for gr
    unfolding fuse_tuple_def by (intro keeps_rules cf le hoare_FindRoot' sink(1))
  show ?thesis
    unfolding fuse_node_def by (intro keeps_rules CountFused_ok tup hoare_FindRoot' nid sink(1) pat)
qed

lemma run_fuse_node_ok:
  assumes g: "flow_graph g" and n: "n = length (post_dfs_order g)" and nid: "nid < n"
    and T: "length T = n" "tree_ok T 0" "\<forall>i < n. map_option dom_gnode (T ! i) = Some (post_dfs_order g ! i) \<and> chain T (Some i) = post_dominators g i"
  shows "keeps n opq (run_fuse_node limit depth g T phase nid)"
proof -
  have nid': "nid < length (post_dfs_order g)" using n nid by simp
  have idx: "index_of g (post_dfs_order g ! j) = j" if "j < n" for j using g that n by (simp add: flow_graph_def index_of_def)
  obtain t where t: "T ! nid = Some t" "valid T 0 (dom_parent t)" "\<forall>p. dom_parent t = Some p \<longrightarrow> nid < p"
    by (rule tree_okD[OF T(2) le0, of nid]) (use nid T(1) in auto)
  let ?rest = "case T ! nid of None \<Rightarrow> lift (Inl AttributeError) | Some dom_node \<Rightarrow> (case dom_parent dom_node of
      None \<Rightarrow> ret () | Some p \<Rightarrow> (case T ! p of None \<Rightarrow> lift (Inl AttributeError)
        | Some par \<Rightarrow> fuse_node limit depth g phase (post_dfs_order g ! nid) nid (dom_gnode par) (dom_pattern dom_node)))"
  have rest: "keeps n opq ?rest" if nopq: "nid \<notin> opq"
  proof (cases "dom_parent t")
    case None
    then show ?thesis using t(1) keeps_ret by simp
  next
    case (Some p)
    then have p: "nid < p" "p < n" using t(2,3) T(1) by (auto simp: valid_def)
    have "p \<in> chain T (Some nid)" using chain_unfold[of nid T t] t(1) nid T(1) Some by simp
    then have dom: "p \<in> post_dominators g nid" using T(3) nid by simp
    obtain par where par: "T ! p = Some par" "dom_gnode par = post_dfs_order g ! p" using T(3) p(2) by auto
    have "keeps n opq (fuse_node limit depth g phase (post_dfs_order g ! nid) nid (post_dfs_order g ! p) (dom_pattern t))"
    proof (rule fuse_node_ok[OF _ _ _ nid])
      show "index_of g (post_dfs_order g ! nid) \<notin> opq" using idx[OF nid] nopq by simp
      show "index_of g (post_dfs_order g ! p) < n" using idx[OF p(2)] p(2) by simp
      show "post_dfs_order g ! p \<in> A" if "between_ok n opq g (post_dfs_order g ! nid) (post_dfs_order g ! p) A" for A
        by (rule sink_between[OF g nid' dom _ _ that]) (use p n in auto)
    qed
    then show ?thesis using t(1) Some par by simp
  qed
  show ?thesis unfolding run_fuse_node_def
  proof (rule hoare_bind[where R = "\<lambda>gr s. part_of n opq s \<and> (gpattern gr \<noteq> Some OPAQUE \<longrightarrow> nid \<notin> opq)"])
    show "hoare (part_of n opq) (group_at nid) (\<lambda>gr s. part_of n opq s \<and> (gpattern gr \<noteq> Some OPAQUE \<longrightarrow> nid \<notin> opq))"
      by (rule hoare_pre[OF hoare_group_at]) (use nid in \<open>auto simp: part_of_def part_ok_def\<close>)
    fix gr
    have "hoare (\<lambda>s. part_of n opq s \<and> nid \<notin> opq) ?rest (\<lambda>_. part_of n opq)" by (rule hoare_fact[OF rest])
    then show "hoare (\<lambda>s. part_of n opq s \<and> (gpattern gr \<noteq> Some OPAQUE \<longrightarrow> nid \<notin> opq)) (if gpattern gr = Some OPAQUE then ret () else ?rest) (\<lambda>_. part_of n opq)"
      using hoare_pre[OF keeps_ret[of n opq "()"]] by simp
  qed
qed

definition opaque_nodes :: "ifg \<Rightarrow> nat set" where
  "opaque_nodes g = {i. i < length (post_dfs_order g) \<and> node_pattern (node_at g i) = Some OPAQUE}"

lemma InitGroup_ok: "part_ok (length (post_dfs_order g)) (opaque_nodes g) (InitGroup g)"
proof -
  let ?gs = "InitGroup g"
  have nth: "?gs ! i = new_group (node_at g i)" if "i < length (post_dfs_order g)" for i
    using that by (simp add: InitGroup_def node_at_def)
  have len: "length ?gs = length (post_dfs_order g)" by (simp add: InitGroup_def)
  have up: "up ?gs = {}" using nth len by (auto simp: up_def new_group_def)
  have root: "root_of ?gs i = i" if "i < length (post_dfs_order g)" for i
    by (rule root_of_root) (use that nth[OF that] len in \<open>simp_all add: new_group_def\<close>)
  have "members ?gs r = {r}" if "r < length (post_dfs_order g)" for r using root that len by (auto simp: members_def)
  then show ?thesis using len up root nth by (simp add: part_ok_def uf_ok_def new_group_def opaque_nodes_def acyclic_def)
qed

lemma Partition_keeps:
  assumes g: "flow_graph g"
  shows "\<exists>r. Partition limit opt_level depth g = Some r \<and>
    (\<forall>gs. r = Inr gs \<longrightarrow> part_ok (length (post_dfs_order g)) (opaque_nodes g) gs)"
proof (cases "opt_level = 0")
  case True
  then show ?thesis using InitGroup_ok by (simp add: Partition_def)
next
  case False
  let ?n = "length (post_dfs_order g)" and ?opq = "opaque_nodes g"
  have "tree_ok (replicate ?n None) ?n" unfolding tree_ok_def by (metis leD length_replicate)
  from post_dom_from_ok[OF g order_refl this]
  obtain T where T: "PostDom g = Some (Inr T)" "length T = ?n" "tree_ok T 0"
    "\<forall>i < ?n. map_option dom_gnode (T ! i) = Some (post_dfs_order g ! i) \<and> chain T (Some i) = post_dominators g i"
    by (auto simp: PostDom_def)
  have phase: "keeps ?n ?opq (RunFuse limit depth g T phase)" for phase
    unfolding hoare_def
  proof (intro allI impI)
    fix s assume s: "part_of ?n ?opq s"
    have "keeps ?n ?opq (for_each (run_fuse_node limit depth g T phase) [0..<?n])"
      by (rule hoare_for_each, rule run_fuse_node_ok[OF g refl _ T(2-4)]) simp
    moreover have "length (groups s) = ?n" using s by (simp add: part_of_def part_ok_def)
    ultimately show "\<exists>r. RunFuse limit depth g T phase s = Some r \<and> (\<forall>x s'. r = Inr (x, s') \<longrightarrow> part_of ?n ?opq s')"
      using s unfolding RunFuse_def hoare_def by simp
  qed
  have "keeps ?n ?opq (for_each (RunFuse limit depth g T) [0, 1, 2])" by (rule hoare_for_each, rule phase)
  moreover have "part_of ?n ?opq \<lparr>groups = InitGroup g, visited = {}\<rparr>" using InitGroup_ok by (simp add: part_of_def)
  ultimately obtain r where r: "for_each (RunFuse limit depth g T) [0, 1, 2] \<lparr>groups = InitGroup g, visited = {}\<rparr> = Some r"
    "\<forall>x s'. r = Inr (x, s') \<longrightarrow> part_of ?n ?opq s'" unfolding hoare_def by blast
  show ?thesis using False T(1) r by (cases r) (auto simp: Partition_def part_of_def)
qed


section \<open>Properties\<close>

text \<open>C11: \<^verbatim>\<open>GraphPartitioner.Partition\<close> keeps a partition of the dataflow graph. On a graph whose edges go to listed
  nodes of higher index it never loops: it raises an exception or returns, and the groups
  it returns form a union-find structure over the nodes (no cycle of parents), the root of a group counts its
  nodes exactly, and an opaque node is never fused: its group is itself alone.\<close>

theorem Partition_sound:
  assumes "flow_graph g"
  shows "\<exists>r. Partition limit opt_level max_fuse_depth g = Some r \<and>
    (\<forall>gs. r = Inr gs \<longrightarrow> length gs = length (post_dfs_order g) \<and> uf_ok gs \<and>
      (\<forall>i < length gs. rooted gs i (root_of gs i) \<and> num_nodes (gs ! root_of gs i) = card {j. j < length gs \<and> root_of gs j = root_of gs i} \<and>
         (node_pattern (node_at g i) = Some OPAQUE \<longrightarrow> {j. j < length gs \<and> root_of gs j = root_of gs i} = {i})))"
proof -
  obtain r where r: "Partition limit opt_level max_fuse_depth g = Some r"
    "\<forall>gs. r = Inr gs \<longrightarrow> part_ok (length (post_dfs_order g)) (opaque_nodes g) gs" using Partition_keeps[OF assms] by blast
  have "length gs = length (post_dfs_order g) \<and> uf_ok gs \<and>
      (\<forall>i < length gs. rooted gs i (root_of gs i) \<and> num_nodes (gs ! root_of gs i) = card {j. j < length gs \<and> root_of gs j = root_of gs i} \<and>
         (node_pattern (node_at g i) = Some OPAQUE \<longrightarrow> {j. j < length gs \<and> root_of gs j = root_of gs i} = {i}))" if gs: "r = Inr gs" for gs
  proof -
    have p: "part_ok (length (post_dfs_order g)) (opaque_nodes g) gs" using r(2) gs by blast
    have l: "length gs = length (post_dfs_order g)" "uf_ok gs" using p by (simp_all add: part_ok_def)
    have "num_nodes (gs ! root_of gs i) = card (members gs (root_of gs i)) \<and> (i \<in> opaque_nodes g \<longrightarrow> members gs (root_of gs i) = {i})"
      if i: "i < length gs" for i
      using p rooted_root_of[OF l(2) i] l(1) i by (auto simp: part_ok_def rooted_def)
    then show ?thesis using l rooted_root_of[OF l(2)] unfolding members_def opaque_nodes_def by auto
  qed
  then show ?thesis using r(1) by blast
qed


definition ex_chain :: expr where
  "ex_chain = Function 5 [ex_in] ex_b None None"

lemma ex_chain_graph: "\<exists>g. Create ex_registry ex_chain = Inr g \<and> flow_graph g"
  by (rule Create_flow_graph)
    (simp_all add: creatable_def ex_chain_def ex_defs subs.simps kids_def node_creatable_def stencil_rel_def grid_ops_def ex_registry_def)

theorem Partition_sound_witness:
  "\<exists>g gs. Create ex_registry ex_chain = Inr g \<and> Partition 9 1 256 g = Some (Inr gs) \<and> map num_nodes gs = [1, 1, 2] \<and> uf_ok gs"
proof -
  obtain g where g: "Create ex_registry ex_chain = Inr g" "flow_graph g" using ex_chain_graph by blast
  have "(case Create ex_registry ex_chain of Inr g \<Rightarrow> (case Partition 9 1 256 g of Some (Inr gs) \<Rightarrow> map num_nodes gs = [1, 1, 2] | _ \<Rightarrow> False) | _ \<Rightarrow> False)"
    by code_simp
  then obtain gs where "Partition 9 1 256 g = Some (Inr gs)" "map num_nodes gs = [1, 1, 2]"
    using g(1) by (auto split: option.splits sum.splits)
  then show ?thesis using Partition_sound[OF g(2), of 9 1 256] g(1) by auto
qed

end
