(* ===== verification/Fuse_Mutator.thy ===== *)
theory Fuse_Mutator
  imports Graph_Partitioner
begin

text \<open>
  \<^verbatim>\<open>MixedModeMutator\<close> (\<^verbatim>\<open>relay/expr_functor.py\<close>) and its subclass \<^verbatim>\<open>FuseMutator\<close>
  (\<^verbatim>\<open>relay/transform/custom_fuse_ops.py\<close>): every group of the partition becomes a primitive function. The
  first argument of the visits is the number of nested calls the interpreter still grants.

  \<^verbatim>\<open>FindRoot\<close> is \<^const>\<open>find_up\<close> here: on the groups of a partition it returns, and its path compression
  does not change what it finds (\<open>find_up_ok\<close>, \<open>compress_ok\<close>).
\<close>

section \<open>The state\<close>

record fm_state = mstate +
  ginfo :: "(nat, expr list \<times> expr list) dict"

record fm_env =
  fm_groups :: "uf_group list"
  fm_gmap :: "(expr, nat) dict"
  fm_link_params :: bool
  reshape_op :: "string \<Rightarrow> bool"
  non_computational :: "string \<Rightarrow> bool"

definition group_root :: "fm_env \<Rightarrow> expr \<Rightarrow> nat res" where
  "group_root G e = and_then (dict_get (fm_gmap G) e) (\<lambda>i.
     Inr (case find_up (fm_groups G) i of Some r \<Rightarrow> r | None \<Rightarrow> i))"

definition group_root_ref :: "fm_env \<Rightarrow> nat \<Rightarrow> expr option" where
  "group_root_ref G r = root_ref (fm_groups G ! r)"

text \<open>\<^verbatim>\<open>GroupInfo\<close>: the parameters of a group and the arguments they stand for.\<close>

definition GetOrAllocParam :: "nat \<Rightarrow> expr \<Rightarrow> rtype \<Rightarrow> fm_state \<Rightarrow> expr \<times> fm_state" where
  "GetOrAllocParam grp e dtype s =
     (let info = dict_get_default (ginfo s) grp ([], [])
      in case map_of (zip (snd info) (fst info)) e of
           Some v \<Rightarrow> (v, s\<lparr>ginfo := AList.update grp info (ginfo s)\<rparr>)
         | None \<Rightarrow>
             let v = Var (next_addr s) (''p'' @ str_of_nat (length (fst info))) (Some dtype)
             in (v, s\<lparr>next_addr := Suc (next_addr s), ginfo := AList.update grp (fst info @ [v], snd info @ [e]) (ginfo s)\<rparr>))"


section \<open>The primitive function of a group\<close>

text \<open>\<^verbatim>\<open>CheckReshapeOnly\<close>: the flags are \<^verbatim>\<open>reshape_only\<close> and \<^verbatim>\<open>has_call\<close>.\<close>

definition reshape_pre :: "fm_env \<Rightarrow> expr \<Rightarrow> bool \<times> bool \<Rightarrow> (bool \<times> bool) res" where
  "reshape_pre G e s =
     (case e of
        Call u f as a \<Rightarrow> (case f of
            Op nm \<Rightarrow> Inr (fst s \<and> reshape_op G nm, True)
          | _ \<Rightarrow> Inl AttributeError)
      | Var u nm t \<Rightarrow> Inr (fst s \<and> (case t of Some ty \<Rightarrow> is_tensor ty | None \<Rightarrow> False), snd s)
      | _ \<Rightarrow> Inr s)"

definition reshape_children :: "bool \<times> bool \<Rightarrow> expr \<Rightarrow> expr list" where
  "reshape_children s e = (if is_Call e \<and> \<not> fst s then [] else children True e)"

lemma reshape_children_size: "k \<in> set (reshape_children s e) \<Longrightarrow> size k < size e"
  by (auto simp: reshape_children_def children_size split: if_splits)

function CheckReshapeOnly :: "fm_env \<Rightarrow> expr \<Rightarrow> expr set \<times> bool \<times> bool \<Rightarrow> (expr set \<times> bool \<times> bool) res" where
  "CheckReshapeOnly G e (memo, s) =
     (if e \<in> memo then Inr (memo, s)
      else and_then (reshape_pre G e s) (\<lambda>s.
           and_then (res_fold (CheckReshapeOnly G) (reshape_children s e) (memo, s)) (\<lambda>(memo, s).
             Inr (insert e memo, s))))"
  by pat_completeness auto
termination
  by (relation "measure (\<lambda>(G, e, st). size e)") (auto simp: reshape_children_size)

declare CheckReshapeOnly.simps [simp del]

definition MakeNewFunction :: "fm_env \<Rightarrow> nat \<Rightarrow> rtype \<Rightarrow> expr \<Rightarrow> fm_state \<Rightarrow> (expr \<times> fm_state) res" where
  "MakeNewFunction G grp ret_type body s =
     and_then (CheckReshapeOnly G body ({}, True, False)) (\<lambda>(_, reshape_only, has_call).
       let info = dict_get_default (ginfo s) grp ([], []);
           n = next_addr s;
           at = (''Primitive'', IntVal (if has_call then 1 else 0)) #
             (if has_call \<and> reshape_only then [(''relay.reshape_only'', IntVal 1)] else []);
           k = n + 1 + length at
       in Inr (Call k (Function (k - 1) (fst info) body (Some ret_type) (Some at)) (snd info) None,
            s\<lparr>next_addr := Suc k, ginfo := AList.update grp info (ginfo s)\<rparr>))"


section \<open>The mutator\<close>

definition is_primitive :: "dict_attrs \<Rightarrow> bool" where
  "is_primitive at \<longleftrightarrow> (case at of None \<Rightarrow> False | Some d \<Rightarrow>
     (case map_of d ''Primitive'' of None \<Rightarrow> False | Some v \<Rightarrow> v \<noteq> IntVal 0))"

text \<open>\<^verbatim>\<open>GetNewArguments\<close>, with \<^verbatim>\<open>self.visit\<close> as a parameter.\<close>

definition new_argument :: "fm_env \<Rightarrow> (expr \<Rightarrow> fm_state \<Rightarrow> (expr \<times> fm_state) res) \<Rightarrow> nat \<Rightarrow> expr \<Rightarrow> fm_state \<Rightarrow> (expr \<times> fm_state) res" where
  "new_argument G rec current_group arg s =
     and_then (group_root G arg) (\<lambda>arg_group.
     and_then (known_type arg) (\<lambda>dtype.
     and_then (rec arg s) (\<lambda>(new_arg, s).
       if current_group \<noteq> arg_group \<and> (\<not> fm_link_params G \<or> \<not> (case new_arg of Constant u sh dt \<Rightarrow> True | _ \<Rightarrow> False))
       then Inr (GetOrAllocParam current_group new_arg dtype s)
       else Inr (new_arg, s))))"

definition GetNewArguments :: "fm_env \<Rightarrow> (expr \<Rightarrow> fm_state \<Rightarrow> (expr \<times> fm_state) res) \<Rightarrow> expr list \<Rightarrow> nat \<Rightarrow> fm_state \<Rightarrow> (expr list \<times> fm_state) res" where
  "GetNewArguments G rec args current_group s = visit_list (new_argument G rec current_group) args s"

text \<open>
  \<^verbatim>\<open>rewrite_call\<close> and \<^verbatim>\<open>rewrite_tuple\<close> with \<^verbatim>\<open>self.visit\<close> and \<^verbatim>\<open>self.rewrite\<close> as parameters: \<^verbatim>\<open>super().visit_call\<close> is
  \<^verbatim>\<open>MixedModeMutator.visit_call\<close>, which calls \<^verbatim>\<open>self.rewrite\<close>. \<^verbatim>\<open>with_fields\<close> reads a method Python tuples of Relay
  do not have, as \<^verbatim>\<open>rewrite_tuple_getitem\<close> reads \<^verbatim>\<open>tuple_get.tuple\<close>.
\<close>

definition rewrite_call :: "fm_env \<Rightarrow> (expr \<Rightarrow> fm_state \<Rightarrow> (expr \<times> fm_state) res) \<Rightarrow> (expr \<Rightarrow> fm_state \<Rightarrow> (expr \<times> fm_state) res) \<Rightarrow>
    expr \<Rightarrow> expr \<Rightarrow> expr list \<Rightarrow> call_attrs option \<Rightarrow> fm_state \<Rightarrow> (expr \<times> fm_state) res" where
  "rewrite_call G rec rew call f args a s =
     (case f of
        Op nm \<Rightarrow>
          if non_computational G nm then rew call s
          else and_then (py_assert (call \<in> set (dict_keys (fm_gmap G)))) (\<lambda>_.
            if nm = ''annotation.stop_fusion'' then and_then (py_nth args 0) (\<lambda>x. rew x s)
            else and_then (group_root G call) (\<lambda>ret_group.
                 and_then (GetNewArguments G rec args ret_group s) (\<lambda>(new_args, s).
                 and_then (new_node (\<lambda>n. Call n f new_args a) s) (\<lambda>(new_call, s).
                   if group_root_ref G ret_group = Some call
                   then and_then (known_type call) (\<lambda>t. MakeNewFunction G ret_group t new_call s)
                   else Inr (new_call, s)))))
      | _ \<Rightarrow> rew call s)"

definition rewrite_tuple :: "fm_env \<Rightarrow> (expr \<Rightarrow> fm_state \<Rightarrow> (expr \<times> fm_state) res) \<Rightarrow> (expr \<Rightarrow> fm_state \<Rightarrow> (expr \<times> fm_state) res) \<Rightarrow>
    expr \<Rightarrow> expr list \<Rightarrow> fm_state \<Rightarrow> (expr \<times> fm_state) res" where
  "rewrite_tuple G rec rew tup flds s =
     and_then (group_root G tup) (\<lambda>ret_group.
       if group_root_ref G ret_group = Some tup then rew tup s
       else and_then (GetNewArguments G rec flds ret_group s) (\<lambda>_. Inl AttributeError))"

definition rewrite_tuple_getitem :: "fm_env \<Rightarrow> expr \<Rightarrow> (expr \<times> fm_state) res" where
  "rewrite_tuple_getitem G e = and_then (group_root G e) (\<lambda>_. Inl AttributeError)"

text \<open>\<^verbatim>\<open>rewrite\<close>: a fresh \<^verbatim>\<open>ExprMutator\<close> visits the expression first; its result is used for other classes only.\<close>

definition rewrite_body :: "nat \<Rightarrow> fm_env \<Rightarrow> (expr \<Rightarrow> fm_state \<Rightarrow> (expr \<times> fm_state) res) \<Rightarrow> (expr \<Rightarrow> fm_state \<Rightarrow> (expr \<times> fm_state) res) \<Rightarrow>
    expr \<Rightarrow> fm_state \<Rightarrow> (expr \<times> fm_state) res" where
  "rewrite_body k G rec rew e s =
     and_then (visit_new k no_override e (next_addr s)) (\<lambda>(post, n).
       let s = s\<lparr>next_addr := n\<rparr>
       in case e of
            Tuple u es \<Rightarrow> rewrite_tuple G rec rew e es s
          | Call u f as a \<Rightarrow> rewrite_call G rec rew e f as a s
          | TupleGetItem u tv i \<Rightarrow> rewrite_tuple_getitem G e
          | _ \<Rightarrow> Inr (post, s))"

text \<open>
  \<^verbatim>\<open>ExpandANormalForm\<close> raises as soon as \<^verbatim>\<open>pre_visit\<close> has returned for the first binding: \<^verbatim>\<open>isinstance\<close> is called
  with one argument. \<^verbatim>\<open>post_visit\<close> is never reached.
\<close>

definition ExpandANormalForm :: "expr \<Rightarrow> (expr \<Rightarrow> fm_state \<Rightarrow> fm_state res) \<Rightarrow> fm_state \<Rightarrow> (expr \<times> fm_state) res" where
  "ExpandANormalForm let_node pre_visit s = and_then (pre_visit let_node s) (\<lambda>_. Inl TypeError)"

definition let_pre_visit :: "(expr \<Rightarrow> fm_state \<Rightarrow> (expr \<times> fm_state) res) \<Rightarrow> expr \<Rightarrow> fm_state \<Rightarrow> fm_state res" where
  "let_pre_visit rec e s =
     (case e of LetExpr u x v b \<Rightarrow> and_then (rec x s) (\<lambda>(_, s). and_then (rec v s) (\<lambda>(_, s). Inr s)) | _ \<Rightarrow> Inl AttributeError)"

definition visit_body :: "fm_env \<Rightarrow> (expr \<Rightarrow> fm_state \<Rightarrow> (expr \<times> fm_state) res) \<Rightarrow> (expr \<Rightarrow> fm_state \<Rightarrow> (expr \<times> fm_state) res) \<Rightarrow>
    expr \<Rightarrow> fm_state \<Rightarrow> (expr \<times> fm_state) res" where
  "visit_body G rec rew e s =
     (case e of
        Function u ps b t at \<Rightarrow> if is_primitive at then Inr (e, s) else rebuild rec e s
      | Call u f as a \<Rightarrow> rew e s
      | Tuple u es \<Rightarrow> rew e s
      | TupleGetItem u tv i \<Rightarrow> rew e s
      | LetExpr u x v b \<Rightarrow> ExpandANormalForm e (let_pre_visit rec) s
      | _ \<Rightarrow> rebuild rec e s)"

fun fm_visit :: "nat \<Rightarrow> fm_env \<Rightarrow> expr \<Rightarrow> fm_state \<Rightarrow> (expr \<times> fm_state) res"
  and fm_rewrite :: "nat \<Rightarrow> fm_env \<Rightarrow> expr \<Rightarrow> fm_state \<Rightarrow> (expr \<times> fm_state) res" where
  "fm_visit 0 G e s = Inl RecursionError"
| "fm_visit (Suc k) G e s =
     (case map_of (memo_map s) e of
        Some r \<Rightarrow> Inr (r, s)
      | None \<Rightarrow> and_then (visit_body G (fm_visit k G) (fm_rewrite k G) e s) (\<lambda>(r, s).
          Inr (r, s\<lparr>memo_map := AList.update e r (memo_map s)\<rparr>)))"
| "fm_rewrite 0 G e s = Inl RecursionError"
| "fm_rewrite (Suc k) G e s = rewrite_body k G (fm_visit k G) (fm_rewrite k G) e s"


section \<open>The pass\<close>

definition build_gmap :: "ifg \<Rightarrow> (expr, nat) dict res" where
  "build_gmap g = res_fold (\<lambda>nid d. and_then (dict_get (node_map g) (post_dfs_order g ! nid)) (\<lambda>nd.
     case node_ref nd of None \<Rightarrow> Inl AssertionError | Some r \<Rightarrow> Inr (AList.update r nid d))) [0..<length (post_dfs_order g)] []"

definition Transform :: "nat \<Rightarrow> op_registry \<Rightarrow> (string \<Rightarrow> bool) \<Rightarrow> (string \<Rightarrow> bool) \<Rightarrow> expr \<Rightarrow> nat \<Rightarrow> nat \<Rightarrow> bool \<Rightarrow> nat \<Rightarrow> (expr \<times> nat) res option" where
  "Transform limit R reshape noncomp body fuse_opt_level max_fuse_depth link_params n =
     run_then (Some (Create R body)) (\<lambda>g.
     run_then (Partition limit fuse_opt_level max_fuse_depth g) (\<lambda>gs.
     run_then (Some (build_gmap g)) (\<lambda>gmap.
       Some (and_then (fm_visit limit
           \<lparr>fm_groups = gs, fm_gmap = gmap, fm_link_params = link_params, reshape_op = reshape, non_computational = noncomp\<rparr>
           body \<lparr>memo_map = [], next_addr = n, ginfo = []\<rparr>) (\<lambda>(r, s). Inr (r, next_addr s))))))"

definition CustomFuseOps :: "nat \<Rightarrow> op_registry \<Rightarrow> (string \<Rightarrow> bool) \<Rightarrow> (string \<Rightarrow> bool) \<Rightarrow> nat \<Rightarrow> expr \<Rightarrow> nat \<Rightarrow> (expr \<times> nat) res option" where
  "CustomFuseOps limit R reshape noncomp fuse_opt_level func n = Transform limit R reshape noncomp func fuse_opt_level 256 False n"


section \<open>The parameters of a group\<close>

text \<open>
  The two lists of a \<^verbatim>\<open>GroupInfo\<close> run in parallel: no argument occurs twice, and the parameter at position \<open>i\<close>
  is named \<^verbatim>\<open>p\<close>\<open>i\<close>.
\<close>

definition info_of :: "fm_state \<Rightarrow> nat \<Rightarrow> expr list \<times> expr list" where
  "info_of s grp = dict_get_default (ginfo s) grp ([], [])"

definition info_ok :: "expr list \<times> expr list \<Rightarrow> bool" where
  "info_ok info \<longleftrightarrow> length (fst info) = length (snd info) \<and> distinct (snd info) \<and>
     (\<forall>i<length (fst info). \<exists>u t. fst info ! i = Var u (''p'' @ str_of_nat i) t)"

lemma info_ok_Nil [simp]: "info_ok ([], [])"
  by (simp add: info_ok_def)

lemma info_ok_snoc:
  assumes "info_ok (ps, es)" "e \<notin> set es"
  shows "info_ok (ps @ [Var u (''p'' @ str_of_nat (length ps)) t], es @ [e])"
  using assms by (auto simp: info_ok_def nth_append less_Suc_eq)

lemma map_of_zip_at:
  assumes "length ks = length vs" "map_of (zip ks vs) k = Some v"
  shows "\<exists>i<length ks. ks ! i = k \<and> vs ! i = v"
  using assms by (auto dest!: map_of_SomeD simp: in_set_zip)

lemma update_same [simp]: "map_of d k = Some v \<Longrightarrow> AList.update k v d = d"
  by (induction d) (auto split: if_splits)

lemma info_of_update [simp]:
  "info_of (s\<lparr>ginfo := AList.update grp info (ginfo s)\<rparr>) g = (if g = grp then info else info_of s g)"
  "info_of (s\<lparr>next_addr := n, ginfo := AList.update grp info (ginfo s)\<rparr>) g = (if g = grp then info else info_of s g)"
  by (auto simp: info_of_def dict_get_default_def update_conv')

lemma GetOrAllocParam_found:
  assumes "map_of (zip (snd (info_of s grp)) (fst (info_of s grp))) e = Some v"
  shows "GetOrAllocParam grp e t s = (v, s\<lparr>ginfo := AList.update grp (info_of s grp) (ginfo s)\<rparr>)"
  using assms by (simp add: GetOrAllocParam_def info_of_def Let_def)

lemma GetOrAllocParam_new:
  assumes "map_of (zip (snd (info_of s grp)) (fst (info_of s grp))) e = None"
  shows "GetOrAllocParam grp e t s = (let info = info_of s grp;
      v = Var (next_addr s) (''p'' @ str_of_nat (length (fst info))) (Some t)
    in (v, s\<lparr>next_addr := Suc (next_addr s), ginfo := AList.update grp (fst info @ [v], snd info @ [e]) (ginfo s)\<rparr>))"
  using assms by (simp add: GetOrAllocParam_def info_of_def Let_def)

text \<open>C15: The parameters of a fused group. If the two lists of every group run in parallel (as they do when both
  are empty), asking for the parameter of an expression keeps this for every group, extends the lists of the
  group at the end only and leaves every other group alone; the returned parameter stands at the position of the
  expression, and asking for the expression again, whatever its type, gives the same parameter and changes
  nothing.
\<close>

theorem GetOrAllocParam_stable:
  assumes ok: "\<forall>g. info_ok (info_of s g)" and got: "GetOrAllocParam grp e t s = (v, s')"
  shows "(\<forall>g. info_ok (info_of s' g)) \<and> (\<forall>g. g \<noteq> grp \<longrightarrow> info_of s' g = info_of s g) \<and>
    (\<exists>ps es. info_of s' grp = (fst (info_of s grp) @ ps, snd (info_of s grp) @ es)) \<and>
    (\<exists>i<length (fst (info_of s' grp)). snd (info_of s' grp) ! i = e \<and> fst (info_of s' grp) ! i = v) \<and>
    GetOrAllocParam grp e t' s' = (v, s')"
proof (cases "map_of (zip (snd (info_of s grp)) (fst (info_of s grp))) e")
  case (Some w)
  have len: "length (snd (info_of s grp)) = length (fst (info_of s grp))"
    using ok[rule_format, of grp] by (simp add: info_ok_def)
  have s': "s' = s\<lparr>ginfo := AList.update grp (info_of s grp) (ginfo s)\<rparr>" "w = v"
    using got GetOrAllocParam_found[OF Some, of t] by auto
  have at: "\<exists>i<length (fst (info_of s grp)). snd (info_of s grp) ! i = e \<and> fst (info_of s grp) ! i = v"
    using map_of_zip_at[OF len Some] s'(2) len by simp
  have again: "GetOrAllocParam grp e t' s' = (v, s')"
    using GetOrAllocParam_found[of s' grp e v t'] Some by (simp add: s' update_conv')
  have "\<exists>ps es. info_of s grp = (fst (info_of s grp) @ ps, snd (info_of s grp) @ es)"
    by (intro exI[of _ "[]"]) simp
  with ok at again show ?thesis by (simp add: s')
next
  case None
  let ?v = "Var (next_addr s) (''p'' @ str_of_nat (length (fst (info_of s grp)))) (Some t)"
  have ok1: "info_ok (fst (info_of s grp), snd (info_of s grp))" using ok by simp
  then have len: "length (snd (info_of s grp)) = length (fst (info_of s grp))" by (simp add: info_ok_def)
  have s': "s' = s\<lparr>next_addr := Suc (next_addr s),
      ginfo := AList.update grp (fst (info_of s grp) @ [?v], snd (info_of s grp) @ [e]) (ginfo s)\<rparr>" "?v = v"
    using got GetOrAllocParam_new[OF None, of t] by (auto simp: Let_def)
  have fresh: "e \<notin> set (snd (info_of s grp))" using None len by (simp add: map_of_zip_is_None)
  have grp': "info_of s' grp = (fst (info_of s grp) @ [v], snd (info_of s grp) @ [e])"
    by (simp add: s'(1)[unfolded s'(2)])
  have found: "map_of (zip (snd (info_of s' grp)) (fst (info_of s' grp))) e = Some v"
    using None len by (simp add: grp' map_add_def del: map_of_zip_is_None)
  have upd: "AList.update grp (info_of s' grp) (ginfo s') = ginfo s'"
    by (simp add: grp' s'(1)[unfolded s'(2)] update_conv')
  have again: "GetOrAllocParam grp e t' s' = (v, s')"
    using GetOrAllocParam_found[OF found, of t'] by (simp add: upd)
  have at: "\<exists>i<length (fst (info_of s' grp)). snd (info_of s' grp) ! i = e \<and> fst (info_of s' grp) ! i = v"
    using len by (intro exI[of _ "length (fst (info_of s grp))"]) (simp add: grp' nth_append)
  have oks: "\<forall>g. info_ok (info_of s' g)"
    using ok info_ok_snoc[OF ok1 fresh, of "next_addr s" "Some t"] by (auto simp: s'(1) s'(2))
  have other: "\<forall>g. g \<noteq> grp \<longrightarrow> info_of s' g = info_of s g" by (simp add: s'(1))
  show ?thesis using oks other at again grp' by blast
qed

theorem GetOrAllocParam_stable_witness:
  "\<exists>s'. GetOrAllocParam 0 (Op ''a'') (TensorType [] ''f'') \<lparr>memo_map = [], next_addr = 7, ginfo = []\<rparr> = (Var 7 ''p0'' (Some (TensorType [] ''f'')), s') \<and>
     (\<forall>g. info_ok (info_of s' g))"
proof -
  let ?s = "\<lparr>memo_map = [], next_addr = 7, ginfo = []\<rparr> :: fm_state"
  obtain v s' where got: "GetOrAllocParam 0 (Op ''a'') (TensorType [] ''f'') ?s = (v, s')" by fastforce
  moreover have "v = Var 7 ''p0'' (Some (TensorType [] ''f''))"
    using got by (auto simp: GetOrAllocParam_def dict_get_default_def str_of_nat.simps digit_char_def Let_def)
  moreover have "\<forall>g. info_ok (info_of ?s g)" by (simp add: info_of_def dict_get_default_def)
  ultimately show ?thesis using GetOrAllocParam_stable by blast
qed


section \<open>Calls that are never rewritten\<close>

text \<open>
  \<^verbatim>\<open>super().visit_call(call)\<close> is \<^verbatim>\<open>self.rewrite(call)\<close>, which dispatches to \<^verbatim>\<open>self.rewrite_call(call, post)\<close> again.
\<close>

definition loops :: "fm_env \<Rightarrow> expr \<Rightarrow> bool" where
  "loops G f \<longleftrightarrow> (case f of Op nm \<Rightarrow> non_computational G nm | _ \<Rightarrow> True)"

lemma rewrite_loops:
  assumes "loops G f"
  shows "\<exists>x. fm_rewrite k G (Call u f as a) s = Inl x"
proof (induction k arbitrary: s)
  case (Suc k)
  then show ?case using assms
    by (cases "visit_new k no_override (Call u f as a) (next_addr s)"; cases f)
      (auto simp: rewrite_body_def rewrite_call_def loops_def)
qed simp

text \<open>C28: A call whose callee is not an operator, such as a call of a stencil function, or is an operator marked
  non-computational, is never rewritten: whatever the recursion limit, the groups and the state, visiting a
  call that is not memoised raises.
\<close>

theorem rewrite_call_never_returns:
  assumes "case f of Op nm \<Rightarrow> non_computational G nm | _ \<Rightarrow> True"
    and "map_of (memo_map s) (Call u f as a) = None"
  shows "\<exists>x. fm_visit limit G (Call u f as a) s = Inl x"
proof (cases limit)
  case (Suc k)
  have "loops G f" using assms(1) by (simp add: loops_def)
  from rewrite_loops[OF this, of k u as a s] show ?thesis
    using assms(2) by (auto simp: Suc visit_body_def)
qed simp

theorem rewrite_call_never_returns_witness:
  "\<exists>x. fm_visit 1000 \<lparr>fm_groups = [], fm_gmap = [], fm_link_params = False, reshape_op = \<lambda>_. False, non_computational = \<lambda>_. False\<rparr>
     (Call 1 (Function 0 [] (Op ''a'') None None) [] None) \<lparr>memo_map = [], next_addr = 2, ginfo = []\<rparr> = Inl x"
  by (rule rewrite_call_never_returns) simp_all

end
