(* ===== verification/Relay_Subst.thy ===== *)
theory Relay_Subst
  imports Relay_Mutator Samples
begin

text \<open>
  The result of the mutators up to the addresses of the nodes they allocate: \<^verbatim>\<open>ReplaceParams\<close> is a
  substitution, \<^verbatim>\<open>EmitTuple\<close> a rewriting. Types, values and the shape of an expression do not depend
  on addresses, so what the fusion passes need of the mutators is shown for the substitution.
\<close>

section \<open>Expressions without addresses\<close>

fun erase :: "expr \<Rightarrow> expr" where
  "erase (Call u f as a) = Call 0 (erase f) (map erase as) a"
| "erase (Function u ps b t a) = Function 0 ps (erase b) t a"
| "erase (LetExpr u x v e) = LetExpr 0 (erase x) (erase v) (erase e)"
| "erase (IfExpr u c t e) = IfExpr 0 (erase c) (erase t) (erase e)"
| "erase (Tuple u es) = Tuple 0 (map erase es)"
| "erase (TupleGetItem u e i) = TupleGetItem 0 (erase e) i"
| "erase (RefCreate u e) = RefCreate 0 (erase e)"
| "erase (RefRead u e) = RefRead 0 (erase e)"
| "erase (RefWrite u r v) = RefWrite 0 (erase r) (erase v)"
| "erase (Match u d cs) = Match 0 (erase d) (map erase cs)"
| "erase e = e"

lemma erase_kinds [simp]:
  "is_Function (erase e) = is_Function e" "is_Op (erase e) = is_Op e" "is_Var (erase e) = is_Var e"
  "is_Call (erase e) = is_Call e" "is_TupleGetItem (erase e) = is_TupleGetItem e"
  by (cases e; simp)+

lemma checked_type_erase [simp]: "checked_type (erase e) = checked_type e"
proof (induction "size e" arbitrary: e rule: less_induct)
  case less
  have kid: "checked_type (erase k) = checked_type k" if "k \<in> set (children True e)" for k
    using less[OF children_size[OF that]] .
  show ?case
  proof (cases e)
    case (Call u f as a)
    have args: "map checked_type (map erase as) = map checked_type as" using kid by (simp add: Call)
    show ?thesis
    proof (cases f)
      case (Function w ps b t at)
      have "size b < size e" using children_size[of b True f] children_size[of f True e] by (simp add: Function Call)
      then show ?thesis using less by (simp add: Call Function)
    qed (simp_all add: Call args del: map_map)
  next
    case (Tuple u es)
    then have "map checked_type (map erase es) = map checked_type es" using kid by simp
    then show ?thesis by (simp add: Tuple del: map_map)
  qed (use kid in simp_all)
qed

lemma eval_erase [simp]: "eval I env (erase e) = eval I env e"
proof (induction "size e" arbitrary: e env rule: less_induct)
  case less
  have kid: "eval I env (erase k) = eval I env k" if "k \<in> set (children True e)" for k env
    using less[OF children_size[OF that]] .
  show ?case
  proof (cases e)
    case (Call u f as a)
    have args: "map (eval I env) (map erase as) = map (eval I env) as" using kid by (simp add: Call)
    show ?thesis
    proof (cases f)
      case (Function w ps b t at)
      have "size b < size e" using children_size[of b True f] children_size[of f True e] by (simp add: Function Call)
      then show ?thesis using less by (simp add: Call Function args del: map_map)
    qed (simp_all add: Call args del: map_map)
  qed (use kid in simp_all)
qed


section \<open>Substitution\<close>

fun subst :: "(expr, expr) dict \<Rightarrow> expr \<Rightarrow> expr" where
  "subst m (Call u f as a) =
     (case map_of m (Call u f as a) of Some y \<Rightarrow> y | None \<Rightarrow> Call u (subst m f) (map (subst m) as) a)"
| "subst m (Var u nm t) = (case map_of m (Var u nm t) of Some y \<Rightarrow> y | None \<Rightarrow> Var u nm t)"
| "subst m (Constant u sh d) = (case map_of m (Constant u sh d) of Some y \<Rightarrow> y | None \<Rightarrow> Constant u sh d)"
| "subst m (TupleGetItem u e i) =
     (case map_of m (TupleGetItem u e i) of Some y \<Rightarrow> y | None \<Rightarrow> TupleGetItem u (subst m e) i)"
| "subst m (Function u ps b t a) = Function u (map (subst m) ps) (subst m b) t a"
| "subst m (LetExpr u x v e) = LetExpr u (subst m x) (subst m v) (subst m e)"
| "subst m (IfExpr u c t e) = IfExpr u (subst m c) (subst m t) (subst m e)"
| "subst m (Tuple u es) = Tuple u (map (subst m) es)"
| "subst m (RefCreate u e) = RefCreate u (subst m e)"
| "subst m (RefRead u e) = RefRead u (subst m e)"
| "subst m (RefWrite u r v) = RefWrite u (subst m r) (subst m v)"
| "subst m (Match u d cs) = Match u (subst m d) (map (subst m) cs)"
| "subst m e = e"

lemma subst_Nil [simp]: "subst [] e = e"
  by (induction e) (simp_all add: map_idI)

fun emit :: "expr \<Rightarrow> expr" where
  "emit (Call u f as a) = Call u (emit f) (map emit as) a"
| "emit (Function u ps b t a) = Function u (map emit ps) (emit b) t a"
| "emit (LetExpr u x v e) = LetExpr u (emit x) (emit v) (emit e)"
| "emit (IfExpr u c t e) = IfExpr u (emit c) (emit t) (emit e)"
| "emit (Tuple u es) = Tuple u (map emit es)"
| "emit (TupleGetItem u e i) =
     (case e of Tuple v es \<Rightarrow> if i < length es then map emit es ! i else TupleGetItem u (emit e) i
      | _ \<Rightarrow> TupleGetItem u (emit e) i)"
| "emit (RefCreate u e) = RefCreate u (emit e)"
| "emit (RefRead u e) = RefRead u (emit e)"
| "emit (RefWrite u r v) = RefWrite u (emit r) (emit v)"
| "emit (Match u d cs) = Match u (emit d) (map emit cs)"
| "emit e = e"


section \<open>Relating a visited expression with the result\<close>

text \<open>\<open>rebuilt R e r\<close>: \<open>r\<close> is \<open>e\<close> with its children replaced by related ones, at some address.\<close>

fun rebuilt :: "(expr \<Rightarrow> expr \<Rightarrow> bool) \<Rightarrow> expr \<Rightarrow> expr \<Rightarrow> bool" where
  "rebuilt R (Function u ps b t a) r \<longleftrightarrow>
     (\<exists>w ps' b'. r = Function w ps' b' t a \<and> list_all2 R ps ps' \<and> R b b')"
| "rebuilt R (LetExpr u x v e) r \<longleftrightarrow> (\<exists>w x' v' e'. r = LetExpr w x' v' e' \<and> R x x' \<and> R v v' \<and> R e e')"
| "rebuilt R (Call u f as a) r \<longleftrightarrow> (\<exists>w f' as'. r = Call w f' as' a \<and> R f f' \<and> list_all2 R as as')"
| "rebuilt R (IfExpr u x v e) r \<longleftrightarrow> (\<exists>w x' v' e'. r = IfExpr w x' v' e' \<and> R x x' \<and> R v v' \<and> R e e')"
| "rebuilt R (Tuple u es) r \<longleftrightarrow> (\<exists>w es'. r = Tuple w es' \<and> list_all2 R es es')"
| "rebuilt R (TupleGetItem u e i) r \<longleftrightarrow> (\<exists>w e'. r = TupleGetItem w e' i \<and> R e e')"
| "rebuilt R (Match u d cs) r \<longleftrightarrow> (\<exists>w d' cs'. r = Match w d' cs' \<and> R d d' \<and> list_all2 R cs cs')"
| "rebuilt R (RefCreate u e) r \<longleftrightarrow> (\<exists>w e'. r = RefCreate w e' \<and> R e e')"
| "rebuilt R (RefWrite u x v) r \<longleftrightarrow> (\<exists>w x' v'. r = RefWrite w x' v' \<and> R x x' \<and> R v v')"
| "rebuilt R (RefRead u e) r \<longleftrightarrow> (\<exists>w e'. r = RefRead w e' \<and> R e e')"
| "rebuilt R e r \<longleftrightarrow> r = e"

text \<open>Related memo maps; \<open>K\<close> are expressions that have been visited already.\<close>

definition memo_rel :: "expr set \<Rightarrow> (expr \<Rightarrow> expr \<Rightarrow> bool) \<Rightarrow> mstate \<Rightarrow> bool" where
  "memo_rel K R s \<longleftrightarrow> K \<subseteq> dom (map_of (memo_map s)) \<and> (\<forall>x r. map_of (memo_map s) x = Some r \<longrightarrow> R x r)"

definition rec_rel :: "expr set \<Rightarrow> (expr \<Rightarrow> bool) \<Rightarrow> (expr \<Rightarrow> expr \<Rightarrow> bool) \<Rightarrow> (expr \<Rightarrow> mstate \<Rightarrow> (expr \<times> mstate) res) \<Rightarrow> bool" where
  "rec_rel K D R rec \<longleftrightarrow> (\<forall>e s r s'. D e \<and> memo_rel K R s \<and> rec e s = Inr (r, s') \<longrightarrow> R e r \<and> memo_rel K R s')"

lemma memo_rel_next_addr [simp]: "memo_rel K R (s\<lparr>next_addr := n\<rparr>) = memo_rel K R s"
  by (simp add: memo_rel_def)

lemma rec_relD:
  assumes "rec_rel K D R rec" and "D e" and "memo_rel K R s" and "rec e s = Inr (r, s')"
  shows "R e r" "memo_rel K R s'"
  using assms unfolding rec_rel_def by blast+

lemma visit_list_rel:
  assumes "rec_rel K D R rec" and "\<forall>e \<in> set es. D e" and "memo_rel K R s" and "visit_list rec es s = Inr (rs, s')"
  shows "list_all2 R es rs" "memo_rel K R s'"
proof -
  have "list_all2 R es rs \<and> memo_rel K R s'"
    using assms(2-4)
  proof (induction es arbitrary: s rs)
    case (Cons e es)
    then obtain r s1 rs' where r: "rec e s = Inr (r, s1)" "visit_list rec es s1 = Inr (rs', s')" "rs = r # rs'"
      by (auto simp: and_then_eq_Inr)
    with rec_relD[OF assms(1) _ _ r(1)] Cons show ?case by simp
  qed auto
  then show "list_all2 R es rs" "memo_rel K R s'" by auto
qed

lemma rebuild_rel:
  assumes rec: "rec_rel K D R rec" and D: "\<forall>k \<in> set (children True e). D k" and memo: "memo_rel K R s"
    and r: "rebuild rec e s = Inr (r, s')"
  shows "rebuilt R e r \<and> memo_rel K R s'"
proof -
  note V = rec_relD[OF rec] and L = visit_list_rel[OF rec]
  show ?thesis
  proof (cases e)
    case (Function u ps b t a)
    then obtain ps' s1 b' s2 where v: "visit_list rec ps s = Inr (ps', s1)" "rec b s1 = Inr (b', s2)"
      "r = Function (next_addr s2) ps' b' t a" "s' = s2\<lparr>next_addr := Suc (next_addr s2)\<rparr>"
      using r by (auto simp: and_then_eq_Inr)
    have d: "\<forall>p \<in> set ps. D p" "D b" using D by (auto simp: Function)
    note 1 = L[OF d(1) memo v(1)] note 2 = V[OF d(2) 1(2) v(2)]
    show ?thesis using 1 2 v(3,4) by (simp add: Function)
  next
    case (LetExpr u x w b)
    then obtain r1 s1 r2 s2 r3 s3 where v: "rec x s = Inr (r1, s1)" "rec w s1 = Inr (r2, s2)" "rec b s2 = Inr (r3, s3)"
      "r = LetExpr (next_addr s3) r1 r2 r3" "s' = s3\<lparr>next_addr := Suc (next_addr s3)\<rparr>"
      using r by (auto simp: and_then_eq_Inr)
    have d: "D x" "D w" "D b" using D by (auto simp: LetExpr)
    note 1 = V[OF d(1) memo v(1)] note 2 = V[OF d(2) 1(2) v(2)] note 3 = V[OF d(3) 2(2) v(3)]
    show ?thesis using 1 2 3 v(4,5) by (simp add: LetExpr)
  next
    case (IfExpr u x w b)
    then obtain r1 s1 r2 s2 r3 s3 where v: "rec x s = Inr (r1, s1)" "rec w s1 = Inr (r2, s2)" "rec b s2 = Inr (r3, s3)"
      "r = IfExpr (next_addr s3) r1 r2 r3" "s' = s3\<lparr>next_addr := Suc (next_addr s3)\<rparr>"
      using r by (auto simp: and_then_eq_Inr)
    have d: "D x" "D w" "D b" using D by (auto simp: IfExpr)
    note 1 = V[OF d(1) memo v(1)] note 2 = V[OF d(2) 1(2) v(2)] note 3 = V[OF d(3) 2(2) v(3)]
    show ?thesis using 1 2 3 v(4,5) by (simp add: IfExpr)
  next
    case (Call u f as a)
    then obtain f' s1 as' s2 where v: "rec f s = Inr (f', s1)" "visit_list rec as s1 = Inr (as', s2)"
      "r = Call (next_addr s2) f' as' a" "s' = s2\<lparr>next_addr := Suc (next_addr s2)\<rparr>"
      using r by (auto simp: and_then_eq_Inr)
    have d: "D f" "\<forall>x \<in> set as. D x" using D by (auto simp: Call)
    note 1 = V[OF d(1) memo v(1)] note 2 = L[OF d(2) 1(2) v(2)]
    show ?thesis using 1 2 v(3,4) by (simp add: Call)
  next
    case (Match u f as)
    then obtain f' s1 as' s2 where v: "rec f s = Inr (f', s1)" "visit_list rec as s1 = Inr (as', s2)"
      "r = Match (next_addr s2) f' as'" "s' = s2\<lparr>next_addr := Suc (next_addr s2)\<rparr>"
      using r by (auto simp: and_then_eq_Inr)
    have d: "D f" "\<forall>x \<in> set as. D x" using D by (auto simp: Match)
    note 1 = V[OF d(1) memo v(1)] note 2 = L[OF d(2) 1(2) v(2)]
    show ?thesis using 1 2 v(3,4) by (simp add: Match)
  next
    case (RefWrite u x w)
    then obtain r1 s1 r2 s2 where v: "rec x s = Inr (r1, s1)" "rec w s1 = Inr (r2, s2)"
      "r = RefWrite (next_addr s2) r1 r2" "s' = s2\<lparr>next_addr := Suc (next_addr s2)\<rparr>"
      using r by (auto simp: and_then_eq_Inr)
    have d: "D x" "D w" using D by (auto simp: RefWrite)
    note 1 = V[OF d(1) memo v(1)] note 2 = V[OF d(2) 1(2) v(2)]
    show ?thesis using 1 2 v(3,4) by (simp add: RefWrite)
  next
    case (TupleGetItem u x i)
    then obtain x' s1 where v: "rec x s = Inr (x', s1)" "memo_rel K R s' = memo_rel K R s1" "\<exists>w. r = TupleGetItem w x' i"
      using r by (auto simp: and_then_eq_Inr split: if_splits)
    with V[OF _ memo v(1)] D show ?thesis by (auto simp: TupleGetItem)
  next
    case (Tuple u es)
    then obtain es' s1 where v: "visit_list rec es s = Inr (es', s1)"
      "r = Tuple (next_addr s1) es'" "s' = s1\<lparr>next_addr := Suc (next_addr s1)\<rparr>"
      using r by (auto simp: and_then_eq_Inr)
    with L[OF _ memo v(1)] D show ?thesis by (simp add: Tuple)
  next
    case (RefCreate u x)
    then obtain x' s1 where v: "rec x s = Inr (x', s1)"
      "r = RefCreate (next_addr s1) x'" "s' = s1\<lparr>next_addr := Suc (next_addr s1)\<rparr>"
      using r by (auto simp: and_then_eq_Inr)
    with V[OF _ memo v(1)] D show ?thesis by (simp add: RefCreate)
  next
    case (RefRead u x)
    then obtain x' s1 where v: "rec x s = Inr (x', s1)"
      "r = RefRead (next_addr s1) x'" "s' = s1\<lparr>next_addr := Suc (next_addr s1)\<rparr>"
      using r by (auto simp: and_then_eq_Inr)
    with V[OF _ memo v(1)] D show ?thesis by (simp add: RefRead)
  qed (use r memo in auto)
qed

lemma mutate_rel:
  assumes kids: "\<forall>e. D e \<longrightarrow> (\<forall>k \<in> set (children True e). D k)"
    and dflt: "\<forall>e r. D e \<and> e \<notin> K \<and> ov e = Inr Default \<and> rebuilt R e r \<longrightarrow> R e r"
    and vis: "\<forall>e y. D e \<and> ov e = Inr (Visit y) \<longrightarrow> D y \<and> (\<forall>r. R y r \<longrightarrow> R e r)"
    and ret: "\<forall>e y. D e \<and> ov e = Inr (Return y) \<longrightarrow> R e y"
  shows "rec_rel K D R (mutate k ov)"
proof (induction k)
  case (Suc k)
  show ?case
    unfolding rec_rel_def
  proof (intro allI impI, elim conjE)
    fix e s r s' assume e: "D e" "memo_rel K R s" and r: "mutate (Suc k) ov e s = Inr (r, s')"
    show "R e r \<and> memo_rel K R s'"
    proof (cases "map_of (memo_map s) e")
      case None
      then obtain a s1 where a: "ov e = Inr a" and s': "s' = s1\<lparr>memo_map := AList.update e r (memo_map s1)\<rparr>"
        and d: "dispatch ov (mutate k ov) e s = Inr (r, s1)"
        using r by (cases "ov e") (auto simp: dispatch_def and_then_eq_Inr)
      have "R e r \<and> memo_rel K R s1"
      proof (cases a)
        case Default
        have "e \<notin> K" using None e(2) by (auto simp: memo_rel_def)
        moreover have "rebuilt R e r \<and> memo_rel K R s1"
          using rebuild_rel[OF Suc.IH, of e s r s1] kids e a d Default by (simp add: dispatch_def)
        ultimately show ?thesis using dflt e(1) a Default by blast
      next
        case (Visit y)
        then show ?thesis using rec_relD[OF Suc.IH, of y s r s1] vis e a d by (auto simp: dispatch_def)
      next
        case (Return y)
        then show ?thesis using ret e a d by (auto simp: dispatch_def)
      qed
      then show ?thesis using s' by (auto simp: memo_rel_def update_conv')
    qed (use e r in \<open>auto simp: memo_rel_def\<close>)
  qed
qed (simp add: rec_rel_def)

lemma visit_new_rel:
  assumes "\<forall>e. D e \<longrightarrow> (\<forall>k \<in> set (children True e). D k)"
    and "\<forall>e r. D e \<and> ov e = Inr Default \<and> rebuilt R e r \<longrightarrow> R e r"
    and "\<forall>e y. D e \<and> ov e = Inr (Visit y) \<longrightarrow> D y \<and> (\<forall>r. R y r \<longrightarrow> R e r)"
    and "\<forall>e y. D e \<and> ov e = Inr (Return y) \<longrightarrow> R e y"
    and "D e" and "visit_new limit ov e n = Inr (r, n')"
  shows "R e r"
proof -
  obtain s' where "mutate limit ov e \<lparr>memo_map = [], next_addr = n\<rparr> = Inr (r, s')"
    using assms(6) by (auto simp: visit_new_def and_then_eq_Inr)
  then show ?thesis by (rule rec_relD(1)[OF mutate_rel[where K = "{}", OF assms(1) _ assms(3,4)] assms(5), rotated 2]) (use assms(2) in \<open>auto simp: memo_rel_def\<close>)
qed


section \<open>The mutators compute the substitution\<close>

text \<open>The expressions that are put in place are left alone when they are visited, and parameters of
  functions are not replaced.\<close>

definition params_kept :: "(expr, expr) dict \<Rightarrow> expr \<Rightarrow> bool" where
  "params_kept m e \<longleftrightarrow> (\<forall>f \<in> nodes e. case f of
     Function u ps b t a \<Rightarrow> (\<forall>p \<in> set ps. is_Var p \<and> map_of m p = None) | _ \<Rightarrow> True)"

definition stable_map :: "(expr, expr) dict \<Rightarrow> bool" where
  "stable_map m \<longleftrightarrow> (\<forall>x y. map_of m x = Some y \<and> (is_Call x \<or> is_TupleGetItem x) \<longrightarrow> subst m y = y \<and> params_kept m y)"

lemma params_kept_child: "params_kept m e \<Longrightarrow> k \<in> set (children True e) \<Longrightarrow> params_kept m k"
  using nodes_child by (fastforce simp: params_kept_def)

lemma subst_None:
  "map_of m (Call u f as a) = None \<Longrightarrow> subst m (Call u f as a) = Call u (subst m f) (map (subst m) as) a"
  "map_of m (TupleGetItem u e i) = None \<Longrightarrow> subst m (TupleGetItem u e i) = TupleGetItem u (subst m e) i"
  by simp_all

lemma subst_replaced:
  "replace_override m e = Inr (Visit y) \<or> replace_override m e = Inr (Return y) \<Longrightarrow> subst m e = y"
  by (cases e) (auto split: option.splits)

definition is_subst :: "(expr, expr) dict \<Rightarrow> expr \<Rightarrow> expr \<Rightarrow> bool" where
  "is_subst m e r \<longleftrightarrow> erase r = erase (subst m e) \<and> (is_Var e \<and> map_of m e = None \<longrightarrow> r = e)"

lemma list_all2_is_subst: "list_all2 (is_subst m) es rs \<Longrightarrow> map erase rs = map erase (map (subst m) es)"
  by (induction rule: list_all2_induct) (simp_all add: is_subst_def)

lemma list_all2_kept:
  "list_all2 (is_subst m) ps rs \<Longrightarrow> \<forall>p \<in> set ps. is_Var p \<and> map_of m p = None \<Longrightarrow> rs = ps \<and> map (subst m) ps = ps"
proof (induction rule: list_all2_induct)
  case (Cons p ps r rs)
  then show ?case by (cases p) (auto simp: is_subst_def)
qed simp

lemma rebuilt_subst:
  assumes "params_kept m e" and "replace_override m e = Inr Default" and "rebuilt (is_subst m) e r"
  shows "is_subst m e r"
proof (cases e)
  case (Function u ps b t a)
  then have "\<forall>p \<in> set ps. is_Var p \<and> map_of m p = None"
    using assms(1) by (auto simp: params_kept_def dest: bspec[OF _ subs_self])
  with assms(3) list_all2_kept[of m ps] show ?thesis by (auto simp: Function is_subst_def)
qed (use assms list_all2_is_subst[of m] in \<open>auto simp: is_subst_def split: option.splits simp del: map_map\<close>)

theorem ReplaceParams_subst:
  assumes "stable_map m" and "params_kept m e" and "ReplaceParams limit m e n = Inr (r, n')"
  shows "erase r = erase (subst m e)"
proof -
  have "is_subst m e r"
  proof (rule visit_new_rel[where D = "params_kept m", OF _ _ _ _ assms(2) assms(3)[unfolded ReplaceParams_def]])
    show "\<forall>e y. params_kept m e \<and> replace_override m e = Inr (Visit y) \<longrightarrow>
        params_kept m y \<and> (\<forall>r. is_subst m y r \<longrightarrow> is_subst m e r)"
    proof (intro allI impI, elim conjE)
      fix e y assume e: "replace_override m e = Inr (Visit y)"
      then have "map_of m e = Some y" "is_Call e \<or> is_TupleGetItem e" by (simp_all add: replace_override_Visit)
      then have "subst m y = y" "params_kept m y" "\<not> is_Var e"
        using assms(1) unfolding stable_map_def by (blast, blast, cases e, auto)
      then show "params_kept m y \<and> (\<forall>r. is_subst m y r \<longrightarrow> is_subst m e r)"
        using subst_replaced[of m e y] e by (simp add: is_subst_def)
    qed
    show "\<forall>e y. params_kept m e \<and> replace_override m e = Inr (Return y) \<longrightarrow> is_subst m e y"
      using subst_replaced replace_override_Return by (auto simp: is_subst_def)
  qed (use params_kept_child rebuilt_subst in blast)+
  then show ?thesis by (simp add: is_subst_def)
qed

lemma erase_Var: "erase r = Var u nm t \<Longrightarrow> r = Var u nm t"
  by (cases r) auto

definition is_emit :: "expr \<Rightarrow> expr \<Rightarrow> bool" where
  "is_emit e r \<longleftrightarrow> erase r = erase (emit e)"

lemma list_all2_is_emit: "list_all2 is_emit es rs \<Longrightarrow> map erase rs = map erase (map emit es)"
  by (induction rule: list_all2_induct) (simp_all add: is_emit_def)

lemma list_all2_emit_Vars: "list_all2 is_emit ps rs \<Longrightarrow> list_all is_Var ps \<Longrightarrow> rs = ps \<and> map emit ps = ps"
proof (induction rule: list_all2_induct)
  case (Cons p ps r rs)
  then show ?case by (cases p) (auto simp: is_emit_def dest: erase_Var)
qed simp

lemma rebuilt_emit:
  assumes "well_formed e" and "emit_override e = Inr Default" and "rebuilt is_emit e r"
  shows "is_emit e r"
proof (cases e)
  case (Function u ps b t a)
  then have "list_all is_Var ps" using assms(1) by (auto simp: well_formed_def dest: bspec[OF _ subs_self])
  with assms(3) list_all2_emit_Vars[of ps] show ?thesis by (auto simp: Function is_emit_def)
next
  case (TupleGetItem u x i)
  then have "emit e = TupleGetItem u (emit x) i" using assms(2) by (cases x) (auto simp: and_then_eq_Inr)
  then show ?thesis using assms(3) by (auto simp: TupleGetItem is_emit_def)
qed (use assms(3) list_all2_is_emit in \<open>auto simp: is_emit_def simp del: map_map\<close>)

theorem EmitTuple_emit:
  assumes "well_formed e" and "EmitTuple limit e n = Inr (r, n')"
  shows "erase r = erase (emit e)"
proof -
  have "is_emit e r"
  proof (rule visit_new_rel[where D = well_formed, OF _ _ _ _ assms(1) assms(2)[unfolded EmitTuple_def]])
    show "\<forall>e y. well_formed e \<and> emit_override e = Inr (Visit y) \<longrightarrow>
        well_formed y \<and> (\<forall>r. is_emit y r \<longrightarrow> is_emit e r)"
    proof (intro allI impI, elim conjE)
      fix e y assume wf: "well_formed e" and "emit_override e = Inr (Visit y)"
      then obtain u v es i where e: "e = TupleGetItem u (Tuple v es) i" "i < length es" "y = es ! i"
        by (auto simp: emit_override_Visit)
      have "well_formed y" using well_formed_child[OF well_formed_child[OF wf, of "Tuple v es"], of y] e by simp
      then show "well_formed y \<and> (\<forall>r. is_emit y r \<longrightarrow> is_emit e r)" using e by (simp add: is_emit_def)
    qed
  qed (use well_formed_child rebuilt_emit emit_override_no_Return in blast)+
  then show ?thesis by (simp add: is_emit_def)
qed



section \<open>Properties\<close>

lemma subst_no_keys: "\<forall>z \<in> nodes e. map_of m z = None \<Longrightarrow> subst m e = e"
proof (induction "size e" arbitrary: e rule: less_induct)
  case less
  have kid: "subst m k = k" if "k \<in> set (children True e)" for k
    by (rule less.hyps[OF children_size[OF that]]) (use less.prems nodes_child[OF that] in blast)
  have "map_of m e = None" using less.prems by blast
  then show ?case using kid by (cases e) (auto intro: map_idI)
qed

definition in_range :: "expr \<Rightarrow> bool" where
  "in_range e \<longleftrightarrow> (\<forall>x \<in> nodes e. emit_override x \<noteq> Inl IndexError)"

lemma in_range_child: "in_range e \<Longrightarrow> k \<in> set (children True e) \<Longrightarrow> in_range k"
  using nodes_child unfolding in_range_def by blast

lemma emit_override_total: "in_range e \<Longrightarrow> \<exists>a. emit_override e = Inr a"
  by (drule in_range_def[THEN iffD1], drule bspec[OF _ subs_self], cases e rule: emit_override.cases)
    (auto split: if_splits)

lemma emit_mutate_returns: "in_range e \<Longrightarrow> size e < k \<Longrightarrow> returns (mutate k emit_override) e"
proof (induction k arbitrary: e)
  case (Suc k)
  show ?case
  proof (rule mutate_returns_step)
    show "\<exists>a. emit_override e = Inr a" by (rule emit_override_total[OF Suc.prems(1)])
    show "\<forall>y. emit_override e = Inr (Visit y) \<longrightarrow> returns (mutate k emit_override) y"
    proof (intro allI impI)
      fix y assume "emit_override e = Inr (Visit y)"
      then obtain u v es i where e: "e = TupleGetItem u (Tuple v es) i" "y \<in> set es" by (auto simp: emit_override_Visit)
      have t: "Tuple v es \<in> set (children True e)" "y \<in> set (children True (Tuple v es))" using e by simp_all
      have "in_range y" by (rule in_range_child[OF in_range_child[OF Suc.prems(1) t(1)] t(2)])
      then show "returns (mutate k emit_override) y"
        using Suc.IH[of y] children_size[OF t(1)] children_size[OF t(2)] Suc.prems(2) by simp
    qed
    show "emit_override e = Inr Default \<longrightarrow> (\<forall>c \<in> set (children True e). returns (mutate k emit_override) c)"
      using Suc.IH in_range_child[OF Suc.prems(1)] children_size Suc.prems(2) by (meson less_le_trans less_Suc_eq_le)
  qed
qed simp

text \<open>C18: \<^verbatim>\<open>ReplaceParams\<close> is simultaneous substitution. With replacements that contain no replaced node, and
  on an expression whose function parameters are kept, it returns within a recursion depth of the
  size of the expression and of the largest replacement, and its memoised result is, up to the
  addresses of rebuilt nodes, the expression with every occurrence replaced.\<close>

theorem ReplaceParams_is_substitution:
  assumes "\<forall>x y. map_of m x = Some y \<longrightarrow> (\<forall>z \<in> nodes y. map_of m z = None) \<and> params_kept m y \<and> size y \<le> B"
    and "params_kept m e" and "size e + B + 1 < limit"
  shows "\<exists>r n'. ReplaceParams limit m e n = Inr (r, n') \<and> n \<le> n' \<and> erase r = erase (subst m e)"
proof -
  have "\<forall>x. \<exists>a. replace_override m x = Inr a"
  proof
    fix x show "\<exists>a. replace_override m x = Inr a" by (cases x) auto
  qed
  moreover have "untouched (replace_override m) y \<and> size y \<le> B" if "replace_override m x = Inr (Visit y)" for x y
  proof -
    have y: "map_of m x = Some y" using that by (simp add: replace_override_Visit)
    have "replace_override m z = Inr Default" if "z \<in> nodes y" for z
      using assms(1) y that by (cases z) (auto split: option.splits)
    then show ?thesis using assms(1) y by (auto simp: untouched_def)
  qed
  ultimately obtain r n' where r: "ReplaceParams limit m e n = Inr (r, n')"
    using visit_new_returns[of "replace_override m" B e limit n] assms(3) unfolding ReplaceParams_def by blast
  have "stable_map m" using assms(1) subst_no_keys unfolding stable_map_def by blast
  then show ?thesis using ReplaceParams_subst[OF _ assms(2) r] r visit_new_grows unfolding ReplaceParams_def by blast
qed

theorem ReplaceParams_is_substitution_witness:
  "\<exists>r n'. ReplaceParams 60 [(ex_a, ex_in)] ex_d 6 = Inr (r, n') \<and> 6 \<le> n' \<and> erase r = erase (subst [(ex_a, ex_in)] ex_d)"
proof (rule ReplaceParams_is_substitution[where B = 4])
  have n: "nodes ex_in = {ex_in}" by (simp add: ex_defs subs.simps kids_def)
  show "\<forall>x y. map_of [(ex_a, ex_in)] x = Some y \<longrightarrow> (\<forall>z \<in> nodes y. map_of [(ex_a, ex_in)] z = None) \<and> params_kept [(ex_a, ex_in)] y \<and> size y \<le> 4"
  proof (intro allI impI)
    fix x y assume "map_of [(ex_a, ex_in)] x = Some y"
    then have "y = ex_in" by (simp split: if_splits)
    then show "(\<forall>z \<in> nodes y. map_of [(ex_a, ex_in)] z = None) \<and> params_kept [(ex_a, ex_in)] y \<and> size y \<le> 4"
      using n by (simp add: params_kept_def) (simp add: ex_defs)
  qed
  have "\<not> is_Function f" if "f \<in> nodes ex_d" for f
    using that by (auto simp: ex_defs subs.simps kids_def)
  then show "params_kept [(ex_a, ex_in)] ex_d"
    unfolding params_kept_def by (intro ballI) (fastforce split: expr.splits)
  show "size ex_d + 4 + 1 < 60" by (simp add: ex_defs)
qed

text \<open>C19: \<^verbatim>\<open>EmitTuple\<close> returns on every expression whose projections of literal tuples are in range, within
  a recursion depth of the size of the expression, and its result is, up to the addresses of rebuilt
  nodes, the expression with each such projection replaced by the component it takes.\<close>

theorem EmitTuple_projects:
  assumes "well_formed e" and "in_range e" and "size e < limit"
  shows "\<exists>r n'. EmitTuple limit e n = Inr (r, n') \<and> n \<le> n' \<and> erase r = erase (emit e)"
proof -
  obtain r s' where "mutate limit emit_override e \<lparr>memo_map = [], next_addr = n\<rparr> = Inr (r, s')"
    using emit_mutate_returns[OF assms(2,3)] unfolding returns_def by blast
  then have "EmitTuple limit e n = Inr (r, next_addr s')" by (simp add: EmitTuple_def visit_new_def)
  then show ?thesis using EmitTuple_emit[OF assms(1)] visit_new_grows unfolding EmitTuple_def by blast
qed

theorem EmitTuple_projects_witness:
  "\<exists>r n'. EmitTuple 9 (TupleGetItem 7 (Tuple 6 [ex_in]) 0) 8 = Inr (r, n') \<and> erase r = erase ex_in"
proof -
  have "well_formed (TupleGetItem 7 (Tuple 6 [ex_in]) 0)" by (simp add: well_formed_def ex_defs subs.simps kids_def)
  moreover have "in_range (TupleGetItem 7 (Tuple 6 [ex_in]) 0)" by (simp add: in_range_def ex_defs subs.simps kids_def py_nth_def)
  moreover note EmitTuple_projects[of "TupleGetItem 7 (Tuple 6 [ex_in]) 0" 9 8]
  ultimately show ?thesis by (auto simp: ex_defs)
qed

end
