(* ===== verification/Fusion_Fragment.thy ===== *)
theory Fusion_Fragment
  imports Relay_Subst Group_Op
begin

text \<open>
  The fragment of Relay the fusion passes work on, as predicates that do not look at addresses:
  \<open>body_ok\<close> for the body of a fused function (operator calls over the parameters), \<open>outer_ok\<close> for the
  body of the main function, where a call may also call a fused function. What substitution and
  \<^verbatim>\<open>EmitTuple\<close> do to the predicates, to types and to values is shown here for all the fusion steps.
\<close>

section \<open>The fragment\<close>

text \<open>The variables and the array constants an expression is computed from.\<close>

fun anchors :: "expr \<Rightarrow> expr set" where
  "anchors (Var u nm t) = {Var u nm t}"
| "anchors (Constant u sh dt) = (if is_scalar (Constant u sh dt) then {} else {Constant u sh dt})"
| "anchors (Call u f as a) = \<Union> (set (map anchors as))"
| "anchors (Tuple u es) = \<Union> (set (map anchors es))"
| "anchors (TupleGetItem u e i) = anchors e"
| "anchors _ = {}"

fun body_ok :: "expr \<Rightarrow> bool" where
  "body_ok (Var u nm t) \<longleftrightarrow> True"
| "body_ok (Constant u sh dt) \<longleftrightarrow> True"
| "body_ok (Call u f as a) \<longleftrightarrow> is_Op f \<and> list_all body_ok as \<and> list_ex (\<lambda>x. anchors x \<noteq> {}) as"
| "body_ok (Tuple u es) \<longleftrightarrow> list_all body_ok es \<and> list_all (\<lambda>x. anchors x \<noteq> {}) es"
| "body_ok (TupleGetItem u e i) \<longleftrightarrow> body_ok e \<and> anchors e \<noteq> {}"
| "body_ok _ \<longleftrightarrow> False"

text \<open>A fused function: operators over its parameters, which are variables of their own.\<close>

fun function_ok :: "expr set \<Rightarrow> expr \<Rightarrow> expr list \<Rightarrow> bool" where
  "function_ok P (Function w ps b t at) as \<longleftrightarrow>
     list_all is_Var ps \<and> set ps \<inter> P = {} \<and> length ps = length as \<and>
     list_all2 (\<lambda>p x. checked_type p = checked_type x) ps as \<and> list_all (\<lambda>x. anchors x \<noteq> {}) as \<and>
     body_ok b \<and> anchors b \<noteq> {} \<and> anchors b \<subseteq> set ps"
| "function_ok P f as \<longleftrightarrow> is_Op f"

fun outer_ok :: "expr set \<Rightarrow> expr \<Rightarrow> bool" where
  "outer_ok P (Var u nm t) \<longleftrightarrow> Var u nm t \<in> P"
| "outer_ok P (Constant u sh dt) \<longleftrightarrow> True"
| "outer_ok P (Call u f as a) \<longleftrightarrow>
     list_all (outer_ok P) as \<and> list_ex (\<lambda>x. anchors x \<noteq> {}) as \<and> function_ok P f as"
| "outer_ok P (Tuple u es) \<longleftrightarrow> list_all (outer_ok P) es \<and> list_all (\<lambda>x. anchors x \<noteq> {}) es"
| "outer_ok P (TupleGetItem u e i) \<longleftrightarrow> outer_ok P e \<and> anchors e \<noteq> {}"
| "outer_ok P _ \<longleftrightarrow> False"

lemma function_ok_cases:
  assumes "function_ok P f as"
  obtains nm where "f = Op nm"
  | w ps b t at where "f = Function w ps b t at" "list_all is_Var ps" "set ps \<inter> P = {}" "length ps = length as"
    "list_all2 (\<lambda>p x. checked_type p = checked_type x) ps as" "list_all (\<lambda>x. anchors x \<noteq> {}) as"
    "body_ok b" "anchors b \<noteq> {}" "anchors b \<subseteq> set ps"
  using assms by (cases f) auto

lemma anchors_erase [simp]: "anchors (erase e) = anchors e"
proof (induction "size e" arbitrary: e rule: less_induct)
  case less
  have kid: "anchors (erase k) = anchors k" if "k \<in> set (children True e)" for k
    using less[OF children_size[OF that]] .
  show ?case using kid by (cases e) auto
qed

lemma body_ok_erase [simp]: "body_ok (erase e) = body_ok e"
proof (induction "size e" arbitrary: e rule: less_induct)
  case less
  have kid: "body_ok (erase k) = body_ok k" if "k \<in> set (children True e)" for k
    using less[OF children_size[OF that]] .
  show ?case using kid by (cases e) (auto simp: list_all_iff list_ex_iff)
qed

lemma function_ok_erase [simp]: "function_ok P (erase f) (map erase as) = function_ok P f as"
  by (cases f) (auto simp: list_all2_map2 list_all_iff comp_def)

lemma outer_ok_erase [simp]: "outer_ok P (erase e) = outer_ok P e"
proof (induction "size e" arbitrary: e rule: less_induct)
  case less
  have kid: "outer_ok P (erase k) = outer_ok P k" if "k \<in> set (children True e)" for k
    using less[OF children_size[OF that]] .
  show ?case
  proof (cases e)
    case (Call u f as a)
    have "list_all (outer_ok P) (map erase as) = list_all (outer_ok P) as"
      using kid by (auto simp: Call list_all_iff)
    then show ?thesis by (simp add: Call list_ex_iff)
  qed (use kid in \<open>auto simp: list_all_iff\<close>)
qed

text \<open>Transfer along equality up to addresses.\<close>

lemma erase_eqD:
  assumes "erase r = erase e"
  shows "eval I env r = eval I env e" "checked_type r = checked_type e" "anchors r = anchors e"
    "body_ok r = body_ok e" "outer_ok P r = outer_ok P e"
  using eval_erase[of I env r] eval_erase[of I env e] checked_type_erase[of r] checked_type_erase[of e]
    anchors_erase[of r] anchors_erase[of e] body_ok_erase[of r] body_ok_erase[of e]
    outer_ok_erase[of P r] outer_ok_erase[of P e] assms by simp_all

lemma anchors_leaf: "v \<in> anchors e \<Longrightarrow> is_Var v \<or> (\<exists>u sh dt. v = Constant u sh dt \<and> \<not> is_scalar v)"
proof (induction e rule: anchors.induct)
  case (2 u sh dt)
  then show ?case by (simp split: if_splits)
qed auto

lemma anchors_outer: "outer_ok P e \<Longrightarrow> v \<in> anchors e \<Longrightarrow> is_Var v \<Longrightarrow> v \<in> P"
  by (induction e rule: anchors.induct) (auto simp: list_all_iff split: if_splits)

lemma body_is_outer: "body_ok e \<Longrightarrow> anchors e \<subseteq> P \<Longrightarrow> outer_ok P e"
proof (induction e rule: anchors.induct)
  case (3 u f as a)
  have "function_ok P f as" using 3(2) by (cases f) auto
  with 3 show ?case by (auto simp: list_all_iff)
qed (auto simp: list_all_iff)

lemma body_cong: "body_ok e \<Longrightarrow> \<forall>v \<in> anchors e. env v = env' v \<Longrightarrow> eval I env e = eval I env' e"
proof (induction e rule: anchors.induct)
  case (3 u f as a)
  then have "map (eval I env) as = map (eval I env') as" by (auto simp: list_all_iff)
  then show ?case using 3(2) by (cases f) (simp_all del: map_eq_conv)
next
  case (4 u es)
  then show ?case by (auto simp: list_all_iff)
qed auto

lemma bind_lookup: "bind ps vs env p = (case map_of (rev (zip ps vs)) p of Some v \<Rightarrow> v | None \<Rightarrow> env p)"
  by (induction ps vs env rule: bind.induct) (simp_all add: map_add_def fun_upd_def split: option.splits)

lemma map_of_zip_dict: "map_of (zip_dict ks vs) k = map_of (rev (zip ks vs)) k"
proof -
  have "map_of (fold (\<lambda>(k, v). AList.update k v) kvs d) k = (case map_of (rev kvs) k of Some v \<Rightarrow> Some v | None \<Rightarrow> map_of d k)"
    for kvs :: "(expr \<times> expr) list" and d
    by (induction kvs arbitrary: d) (auto simp: update_conv' map_add_def split: option.splits)
  then show ?thesis by (simp add: zip_dict_def split: option.splits)
qed

lemma bind_inside: "length ps = length vs \<Longrightarrow> p \<in> set ps \<Longrightarrow> bind ps vs env p = bind ps vs env' p"
proof -
  assume "length ps = length vs" "p \<in> set ps"
  then have "p \<in> fst ` set (rev (zip ps vs))" by (metis map_fst_zip set_map set_rev)
  then obtain v where "map_of (rev (zip ps vs)) p = Some v" by (metis map_of_eq_None_iff option.exhaust)
  then show ?thesis by (simp add: bind_lookup)
qed


section \<open>Substitution in the fragment\<close>

text \<open>What is replaced is part of the main function, so it does not occur in a fused function.\<close>

definition outer_keys :: "expr set \<Rightarrow> (expr, expr) dict \<Rightarrow> bool" where
  "outer_keys P m \<longleftrightarrow> (\<forall>x y. map_of m x = Some y \<longrightarrow> outer_ok P x \<and> anchors x \<noteq> {})"

lemma no_key:
  assumes "outer_keys P m" and "anchors x \<subseteq> set ps" and "list_all is_Var ps" and "set ps \<inter> P = {}"
  shows "map_of m x = None"
proof (rule ccontr)
  assume "map_of m x \<noteq> None"
  then have "outer_ok P x" "anchors x \<noteq> {}" using assms(1) unfolding outer_keys_def by auto
  then show False using assms(2-4) anchors_outer[of P x] by (fastforce simp: list_all_iff)
qed

lemma subst_body_id:
  assumes "outer_keys P m" and "list_all is_Var ps" and "set ps \<inter> P = {}"
  shows "body_ok b \<Longrightarrow> anchors b \<subseteq> set ps \<Longrightarrow> subst m b = b"
proof (induction b rule: anchors.induct)
  case (3 u f as a)
  have "map (subst m) as = as" by (rule map_idI) (use 3 in \<open>auto simp: list_all_iff\<close>)
  moreover have "subst m f = f" using 3(2) by (cases f) auto
  ultimately show ?case using no_key[OF assms(1) 3(3) assms(2,3)] by (simp add: subst_None)
next
  case (4 u es)
  have "map (subst m) es = es" by (rule map_idI) (use 4 in \<open>auto simp: list_all_iff\<close>)
  then show ?case by simp
qed (use no_key[OF assms(1) _ assms(2,3)] in \<open>auto simp del: anchors.simps simp add: anchors.simps(5)\<close>)

lemma subst_function_id:
  assumes "outer_keys P m" and "function_ok P f as"
  shows "subst m f = f"
  using assms(2)
proof (cases rule: function_ok_cases)
  case (2 w ps b t at)
  have "map (subst m) ps = ps"
  proof (rule map_idI)
    fix p assume p: "p \<in> set ps"
    then have v: "is_Var p" using 2(2) by (simp add: list_all_iff)
    then have "anchors p = {p}" by (cases p) auto
    then have "map_of m p = None" using no_key[OF assms(1) _ 2(2,3), of p] p by simp
    with v show "subst m p = p" by (cases p) auto
  qed
  then show ?thesis using 2 subst_body_id[OF assms(1) 2(2,3,7,9)] by simp
qed simp

theorem subst_eval:
  assumes keys: "outer_keys P m" and img: "\<forall>x y. map_of m x = Some y \<longrightarrow> eval I tgt y = eval I src x"
    and other: "\<forall>v \<in> P. map_of m v = None \<longrightarrow> tgt v = src v"
  shows "outer_ok P e \<Longrightarrow> eval I tgt (subst m e) = eval I src e"
proof (induction e rule: anchors.induct)
  case (3 u f as a)
  show ?case
  proof (cases "map_of m (Call u f as a)")
    case None
    have args: "map (eval I tgt) (map (subst m) as) = map (eval I src) as" using 3 by (auto simp: list_all_iff)
    have "function_ok P f as" using 3(2) by simp
    then show ?thesis
    proof (cases rule: function_ok_cases)
      case (1 nm)
      then show ?thesis using None args by (simp add: subst_None del: map_map)
    next
      case (2 w ps b t at)
      have "eval I (bind ps (map (eval I src) as) tgt) b = eval I (bind ps (map (eval I src) as) src) b"
        by (rule body_cong) (use 2 in \<open>auto intro!: bind_inside\<close>)
      then show ?thesis
        using None args 2(1) subst_function_id[OF keys \<open>function_ok P f as\<close>] by (simp add: subst_None del: map_map)
    qed
  qed (use img in auto)
next
  case (4 u es)
  then show ?case by (auto simp: list_all_iff)
qed (use img other in \<open>auto split: option.splits\<close>)

theorem subst_type:
  assumes keys: "outer_keys P m" and img: "\<forall>x y. map_of m x = Some y \<longrightarrow> checked_type y = checked_type x"
  shows "outer_ok P e \<Longrightarrow> checked_type (subst m e) = checked_type e"
proof (induction e rule: anchors.induct)
  case (3 u f as a)
  show ?case
  proof (cases "map_of m (Call u f as a)")
    case None
    have args: "map checked_type (map (subst m) as) = map checked_type as" using 3 by (auto simp: list_all_iff)
    have f: "subst m f = f" using subst_function_id[OF keys, of f as] 3(2) by simp
    have "checked_type (Call u f (map (subst m) as) a) = checked_type (Call u f as a)"
      unfolding checked_type.simps args ..
    then show ?thesis using None f by (simp add: subst_None del: checked_type.simps)
  qed (use img in auto)
next
  case (4 u es)
  then have "map checked_type (map (subst m) es) = map checked_type es" by (auto simp: list_all_iff)
  then show ?case by (simp del: map_map)
qed (use img in \<open>auto split: option.splits\<close>)

fun fparams :: "expr \<Rightarrow> expr set" where
  "fparams (Call u f as a) = (case f of Function w ps b t at \<Rightarrow> set ps | _ \<Rightarrow> {}) \<union> \<Union> (set (map fparams as))"
| "fparams (Tuple u es) = \<Union> (set (map fparams es))"
| "fparams (TupleGetItem u e i) = fparams e"
| "fparams _ = {}"

lemma fparams_outer: "outer_ok P e \<Longrightarrow> fparams e \<inter> P = {}"
proof (induction e rule: fparams.induct)
  case (1 u f as a)
  have "function_ok P f as" using 1(2) by simp
  moreover have "\<forall>x \<in> set as. fparams x \<inter> P = {}" using 1 by (simp add: list_all_iff)
  ultimately show ?case by (cases rule: function_ok_cases) auto
qed (auto simp: list_all_iff)

lemma fparams_erase [simp]: "fparams (erase e) = fparams e"
proof (induction "size e" arbitrary: e rule: less_induct)
  case less
  have kid: "fparams (erase k) = fparams k" if "k \<in> set (children True e)" for k
    using less[OF children_size[OF that]] .
  show ?case
  proof (cases e)
    case (Call u f as a)
    have "fparams (erase k) = fparams k" if "k \<in> set as" for k using kid that by (simp add: Call)
    then show ?thesis by (cases f) (simp_all add: Call)
  qed (use kid in auto)
qed

lemma subst_anchors_nonempty:
  assumes "\<forall>x y. map_of m x = Some y \<longrightarrow> anchors y \<noteq> {}"
  shows "anchors e \<noteq> {} \<Longrightarrow> anchors (subst m e) \<noteq> {}"
proof (induction e rule: anchors.induct)
  case (3 u f as a)
  obtain x where x: "x \<in> set as" "anchors x \<noteq> {}" using 3(2) by auto
  with 3(1)[OF x] show ?case using assms by (auto split: option.splits)
next
  case (4 u es)
  obtain x where x: "x \<in> set es" "anchors x \<noteq> {}" using 4(2) by auto
  with 4(1)[OF x] show ?case by auto
qed (use assms in \<open>auto split: option.splits\<close>)

lemma subst_function_ok:
  assumes "function_ok P f as" and "fparams (Call u f as a) \<inter> Q = {}"
    and "list_all2 (\<lambda>x y. checked_type y = checked_type x \<and> (anchors x \<noteq> {} \<longrightarrow> anchors y \<noteq> {})) as as'"
  shows "function_ok Q f as'"
  using assms(1)
proof (cases rule: function_ok_cases)
  case (2 w ps b t at)
  then show ?thesis using assms(2,3) by (auto simp: list_all2_conv_all_nth list_all_length)
qed simp

theorem subst_outer:
  assumes keys: "outer_keys P m"
    and img: "\<forall>x y. map_of m x = Some y \<longrightarrow> outer_ok Q y \<and> anchors y \<noteq> {} \<and> checked_type y = checked_type x"
    and other: "\<forall>v \<in> P. map_of m v = None \<longrightarrow> v \<in> Q"
  shows "outer_ok P e \<Longrightarrow> fparams e \<inter> Q = {} \<Longrightarrow> outer_ok Q (subst m e)"
proof (induction e rule: anchors.induct)
  case (3 u f as a)
  show ?case
  proof (cases "map_of m (Call u f as a)")
    case None
    have ne: "anchors x \<noteq> {} \<longrightarrow> anchors (subst m x) \<noteq> {}" for x
      using subst_anchors_nonempty[of m x] img by blast
    have as: "\<forall>x \<in> set as. outer_ok P x" and f: "function_ok P f as" and ex: "list_ex (\<lambda>x. anchors x \<noteq> {}) as"
      using 3(2) by (auto simp: list_all_iff)
    have ty: "checked_type (subst m x) = checked_type x" if "x \<in> set as" for x
      using subst_type[OF keys, of x] img as that by blast
    have "list_all2 (\<lambda>x y. checked_type y = checked_type x \<and> (anchors x \<noteq> {} \<longrightarrow> anchors y \<noteq> {})) as (map (subst m) as)"
      using ty ne by (simp add: list_all2_conv_all_nth)
    then have "function_ok Q f (map (subst m) as)" by (rule subst_function_ok[OF f 3(3)])
    moreover have "outer_ok Q (subst m x)" if "x \<in> set as" for x
      using 3(1)[OF that] as that 3(3) by auto
    ultimately show ?thesis
      using None subst_function_id[OF keys f] ex ne by (auto simp: subst_None list_all_iff list_ex_iff)
  qed (use img in auto)
next
  case (4 u es)
  then show ?case using subst_anchors_nonempty[of m] img by (auto simp: list_all_iff)
next
  case (5 u e i)
  then show ?case using subst_anchors_nonempty[of m e] img by (auto split: option.splits)
qed (use img other in \<open>auto split: option.splits\<close>)

text \<open>Unfolding a function: its parameters are replaced in its body.\<close>

lemma subst_body:
  assumes img: "\<forall>x y. map_of m x = Some y \<longrightarrow> body_ok y \<and> anchors y \<noteq> {}"
  shows "body_ok b \<Longrightarrow> body_ok (subst m b)"
proof (induction b rule: anchors.induct)
  case (3 u f as a)
  have f: "is_Op (subst m f)" using 3(2) by (cases f) auto
  show ?case
  proof (cases "map_of m (Call u f as a)")
    case None
    obtain x where "x \<in> set as" "anchors x \<noteq> {}" using 3(2) unfolding list_ex_iff body_ok.simps by blast
    moreover from this have "anchors (subst m x) \<noteq> {}" using subst_anchors_nonempty[of m] img by blast
    ultimately obtain x where "x \<in> set as" "anchors (subst m x) \<noteq> {}" by blast
    then show ?thesis using None 3 f by (auto simp: subst_None list_all_iff list_ex_iff simp del: ex_in_conv)
  qed (use img in auto)
next
  case (4 u es)
  then show ?case using subst_anchors_nonempty[of m] img by (auto simp: list_all_iff)
next
  case (5 u e i)
  then show ?case using subst_anchors_nonempty[of m e] img by (auto split: option.splits)
qed (use img in \<open>auto split: option.splits\<close>)

text \<open>Every path of the expression ends at something that is replaced, or at a scalar.\<close>

fun covered :: "(expr, expr) dict \<Rightarrow> expr \<Rightarrow> bool" where
  "covered m (Call u f as a) \<longleftrightarrow> map_of m (Call u f as a) \<noteq> None \<or> list_all (covered m) as"
| "covered m (Tuple u es) \<longleftrightarrow> list_all (covered m) es"
| "covered m (TupleGetItem u e i) \<longleftrightarrow> map_of m (TupleGetItem u e i) \<noteq> None \<or> covered m e"
| "covered m (Constant u sh dt) \<longleftrightarrow> map_of m (Constant u sh dt) \<noteq> None \<or> is_scalar (Constant u sh dt)"
| "covered m (Var u nm t) \<longleftrightarrow> map_of m (Var u nm t) \<noteq> None"
| "covered m _ \<longleftrightarrow> True"

lemma subst_anchors:
  assumes "\<forall>x y. map_of m x = Some y \<longrightarrow> anchors y \<subseteq> A"
  shows "covered m e \<Longrightarrow> anchors (subst m e) \<subseteq> A"
proof (induction e rule: anchors.induct)
  case (3 u f as a)
  show ?case
  proof (cases "map_of m (Call u f as a)")
    case None
    then have "anchors (subst m x) \<subseteq> A" if "x \<in> set as" for x using 3 that by (simp add: list_all_iff)
    then show ?thesis using None by (auto simp: subst_None)
  qed (use assms in simp)
next
  case (4 u es)
  then have "anchors (subst m x) \<subseteq> A" if "x \<in> set es" for x using that by (simp add: list_all_iff)
  then show ?case by auto
qed (use assms in \<open>auto split: option.splits simp del: is_scalar.simps\<close>)

lemma covered_anchors: "anchors e \<subseteq> dom (map_of m) \<Longrightarrow> covered m e"
proof (induction e rule: anchors.induct)
  case (3 u f as a)
  then have "covered m x" if "x \<in> set as" for x using that by (auto simp: UN_subset_iff)
  then show ?case by (simp add: list_all_iff)
next
  case (4 u es)
  then have "covered m x" if "x \<in> set es" for x using that by (auto simp: UN_subset_iff)
  then show ?case by (simp add: list_all_iff)
qed (auto split: if_splits simp del: is_scalar.simps)


section \<open>EmitTuple in the fragment\<close>

text \<open>Induction over a body; a projection also has the elements of the tuple it projects.\<close>

lemma body_induct [consumes 1, case_names Var Constant Call Tuple Get]:
  assumes "body_ok e"
    and "\<And>u nm t. Q (Var u nm t)" and "\<And>u sh dt. Q (Constant u sh dt)"
    and "\<And>u nm as a. \<lbrakk>\<forall>x \<in> set as. body_ok x \<and> Q x; list_ex (\<lambda>x. anchors x \<noteq> {}) as\<rbrakk> \<Longrightarrow> Q (Call u (Op nm) as a)"
    and "\<And>u es. \<forall>x \<in> set es. body_ok x \<and> anchors x \<noteq> {} \<and> Q x \<Longrightarrow> Q (Tuple u es)"
    and "\<And>u e i. \<lbrakk>body_ok e; anchors e \<noteq> {}; Q e;
      \<forall>v es x. e = Tuple v es \<and> x \<in> set es \<longrightarrow> body_ok x \<and> anchors x \<noteq> {} \<and> Q x\<rbrakk> \<Longrightarrow> Q (TupleGetItem u e i)"
  shows "Q e"
  using assms(1)
proof (induction "size e" arbitrary: e rule: less_induct)
  case less
  have kid: "Q k" if "k \<in> set (children True e)" "body_ok k" for k
    using less.hyps[OF children_size[OF that(1)] that(2)] .
  show ?case
  proof (cases e)
    case (Call u f as a)
    then obtain nm where "f = Op nm" using less.prems by (cases f) auto
    then show ?thesis using less.prems kid by (auto simp: Call list_all_iff intro: assms(4))
  next
    case (Tuple u es)
    then show ?thesis using less.prems kid by (auto simp: list_all_iff intro: assms(5))
  next
    case (TupleGetItem u x i)
    have "body_ok y \<and> anchors y \<noteq> {} \<and> Q y" if "x = Tuple v es" "y \<in> set es" for v es y
    proof -
      have "size y < size e" using children_size[of y True x] children_size[of x True e] that TupleGetItem by simp
      then show ?thesis using less.hyps less.prems that TupleGetItem by (auto simp: list_all_iff)
    qed
    then show ?thesis using less.prems kid TupleGetItem by (auto intro!: assms(6) simp del: ex_in_conv)
  qed (use less.prems assms in auto)
qed

lemma emit_Get:
  obtains v es where "e = Tuple v es" "i < length es" "emit (TupleGetItem u e i) = emit (es ! i)"
  | "emit (TupleGetItem u e i) = TupleGetItem u (emit e) i"
proof (cases "\<exists>v es. e = Tuple v es \<and> i < length es")
  case False
  then show thesis by (intro that(2)) (cases e; simp)
qed (use that(1) in auto)

lemma emit_anchors_nonempty: "body_ok e \<Longrightarrow> anchors e \<noteq> {} \<Longrightarrow> anchors (emit e) \<noteq> {}"
proof (induction e rule: body_induct)
  case (Call u nm as a)
  obtain x where x: "x \<in> set as" "anchors x \<noteq> {}" using Call(3) by auto
  then have "anchors (emit x) \<noteq> {}" using Call(1) by blast
  with x show ?case by auto
next
  case (Tuple u es)
  obtain x where x: "x \<in> set es" "anchors x \<noteq> {}" using Tuple(2) by auto
  then have "anchors (emit x) \<noteq> {}" using Tuple(1) by blast
  with x show ?case by auto
next
  case (Get u e i)
  show ?case by (rule emit_Get[of e i u]) (use Get in auto)
qed auto

lemma emit_anchors: "body_ok e \<Longrightarrow> anchors (emit e) \<subseteq> anchors e"
proof (induction e rule: body_induct)
  case (Get u e i)
  show ?case
  proof (rule emit_Get[of e i u])
    fix v es assume e: "e = Tuple v es" "i < length es" "emit (TupleGetItem u e i) = emit (es ! i)"
    then have "anchors (emit (es ! i)) \<subseteq> anchors (es ! i)" using Get(4) nth_mem by blast
    moreover have "anchors (es ! i) \<subseteq> anchors e" using e nth_mem[OF e(2)] by (simp add: UN_upper)
    ultimately show ?thesis using e by simp
  qed (use Get in simp)
qed auto

lemma emit_body: "body_ok e \<Longrightarrow> body_ok (emit e)"
proof (induction e rule: body_induct)
  case (Call u nm as a)
  obtain x where "x \<in> set as" "anchors x \<noteq> {}" using Call(2) unfolding list_ex_iff by blast
  moreover from this have "anchors (emit x) \<noteq> {}" using emit_anchors_nonempty[of x] Call(1) by blast
  ultimately show ?case using Call by (auto simp: list_all_iff list_ex_iff simp del: ex_in_conv)
next
  case (Tuple u es)
  then show ?case using emit_anchors_nonempty by (auto simp: list_all_iff)
next
  case (Get u e i)
  show ?case by (rule emit_Get[of e i u]) (use Get emit_anchors_nonempty[of e] in auto)
qed auto

lemma opt_all_Some: "opt_all xs = Some ys \<longleftrightarrow> xs = map Some ys"
  by (induction xs arbitrary: ys rule: opt_all.induct) (auto simp: Cons_eq_map_conv)

lemma map_types_mono:
  assumes "map checked_type xs = map Some ts" and "\<forall>x \<in> set xs. \<forall>t. checked_type x = Some t \<longrightarrow> checked_type (f x) = Some t"
  shows "map checked_type (map f xs) = map Some ts"
  using assms by (induction xs arbitrary: ts) (auto simp: Cons_eq_map_conv)

lemma emit_type: "body_ok e \<Longrightarrow> checked_type e = Some t \<Longrightarrow> checked_type (emit e) = Some t"
proof (induction e arbitrary: t rule: body_induct)
  case (Call u nm as a)
  then obtain ts where ts: "map checked_type as = map Some ts" "stencil_rel nm ts a = Some t"
    by (auto simp: opt_all_Some split: option.splits)
  have "map checked_type (map emit as) = map Some ts" by (rule map_types_mono[OF ts(1)]) (use Call in blast)
  then show ?case using ts by (auto simp: opt_all_Some simp del: map_map split: option.splits)
next
  case (Tuple u es)
  obtain ts where ts: "t = TupleType ts" "map checked_type es = map Some ts"
    using Tuple(2) by (auto simp: opt_all_Some)
  have "map checked_type (map emit es) = map Some ts" by (rule map_types_mono[OF ts(2)]) (use Tuple in blast)
  then show ?case using ts by (auto simp: opt_all_Some simp del: map_map)
next
  case (Get u e i)
  obtain ts where ts: "checked_type e = Some (TupleType ts)" "i < length ts" "t = ts ! i"
    using Get(5) by (simp split: option.splits rtype.splits if_splits)
  show ?case
  proof (rule emit_Get[of e i u])
    fix v es assume e: "e = Tuple v es" "i < length es" "emit (TupleGetItem u e i) = emit (es ! i)"
    have "map checked_type es = map Some ts" using ts(1) e by (auto simp: opt_all_Some)
    then have "checked_type (es ! i) = Some t" using ts e(2) by (metis nth_map)
    then show ?thesis using Get(4) e nth_mem by metis
  next
    assume "emit (TupleGetItem u e i) = TupleGetItem u (emit e) i"
    then show ?thesis using Get(3)[OF ts(1)] ts by simp
  qed
qed auto



section \<open>The mutators in the fragment\<close>

lemma nodes_unfold: "x \<in> nodes e \<longleftrightarrow> x = e \<or> (\<exists>k \<in> set (children True e). x \<in> nodes k)"
  by (subst subs_iff) (simp add: kids_def)

lemma body_nodes: "body_ok e \<Longrightarrow> x \<in> nodes e \<Longrightarrow> body_ok x \<or> is_Op x"
proof (induction e rule: body_induct)
  case (Call u nm as a)
  have "body_ok (Call u (Op nm) as a)" using Call(1,2) by (simp add: list_all_iff)
  moreover have "x = Call u (Op nm) as a \<or> x = Op nm \<or> (\<exists>k \<in> set as. x \<in> nodes k)"
    using Call(3) nodes_unfold[of x "Call u (Op nm) as a"] nodes_unfold[of x "Op nm"] by auto
  ultimately show ?case using Call(1) by auto
next
  case (Tuple u es)
  have "body_ok (Tuple u es)" using Tuple(1) by (simp add: list_all_iff)
  then show ?case using Tuple nodes_unfold[of x "Tuple u es"] by auto
next
  case (Get u e i)
  have "body_ok (TupleGetItem u e i)" using Get(1,2) by simp
  moreover have "x = TupleGetItem u e i \<or> x \<in> nodes e" using Get(5) nodes_unfold[of x "TupleGetItem u e i"] by simp
  ultimately show ?case using Get(3) by blast
next
  case (Var u nm t)
  then show ?case using nodes_unfold[of x "Var u nm t"] by simp
next
  case (Constant u sh dt)
  then show ?case using nodes_unfold[of x "Constant u sh dt"] by simp
qed

lemma well_formed_body: "body_ok e \<Longrightarrow> well_formed e"
  unfolding well_formed_def
proof
  fix x assume "body_ok e" "x \<in> nodes e"
  then have "body_ok x \<or> is_Op x" by (rule body_nodes)
  then show "case x of Call u f as a \<Rightarrow> is_Op f \<or> is_Function f | Function u ps b t a \<Rightarrow> list_all is_Var ps | _ \<Rightarrow> True"
    by (cases x) auto
qed

lemma params_kept_body: "body_ok e \<Longrightarrow> params_kept m e"
  unfolding params_kept_def
proof
  fix x assume "body_ok e" "x \<in> nodes e"
  then have "body_ok x \<or> is_Op x" by (rule body_nodes)
  then show "case x of Function u ps b t a \<Rightarrow> \<forall>p \<in> set ps. is_Var p \<and> map_of m p = None | _ \<Rightarrow> True"
    by (cases x) auto
qed

lemma outer_nodes:
  "outer_ok P e \<Longrightarrow> x \<in> nodes e \<Longrightarrow> outer_ok P x \<or> is_Op x \<or> body_ok x \<or> (\<exists>as. is_Function x \<and> function_ok P x as)"
proof (induction "size e" arbitrary: e rule: less_induct)
  case less
  let ?Q = "outer_ok P x \<or> is_Op x \<or> body_ok x \<or> (\<exists>as. is_Function x \<and> function_ok P x as)"
  have kid: "?Q" if "k \<in> set (children True e)" "outer_ok P k" "x \<in> nodes k" for k
    using less.hyps[OF children_size[OF that(1)] that(2,3)] .
  show ?case
  proof (cases "x = e")
    case False
    then obtain k where k: "k \<in> set (children True e)" "x \<in> nodes k" using less.prems(2) nodes_unfold[of x e] by blast
    show ?thesis
    proof (cases e)
      case (Call u f as a)
      show ?thesis
      proof (cases "k = f")
        case True
        have "function_ok P f as" using less.prems(1) Call by simp
        then show ?thesis
        proof (cases rule: function_ok_cases)
          case (1 nm)
          then show ?thesis using k(2) True nodes_unfold[of x "Op nm"] by simp
        next
          case (2 w ps b t at)
          have "x = f \<or> (\<exists>p \<in> set ps. x \<in> nodes p) \<or> x \<in> nodes b" using k(2) True 2(1) nodes_unfold[of x f] by auto
          moreover have "body_ok x" if "p \<in> set ps" "x \<in> nodes p" for p
          proof -
            have "is_Var p" using 2(2) that by (simp add: list_all_iff)
            then show ?thesis using that(2) nodes_unfold[of x p] by (cases p) auto
          qed
          moreover have "is_Function f" using 2(1) by simp
          ultimately show ?thesis using body_nodes[OF 2(7)] \<open>function_ok P f as\<close> by blast
        qed
      next
        case False
        then show ?thesis using kid[OF k(1) _ k(2)] k(1) less.prems(1) Call by (auto simp: list_all_iff)
      qed
    qed (use kid[OF k(1) _ k(2)] k(1) less.prems(1) in \<open>auto simp: list_all_iff\<close>)
  qed (use less.prems in simp)
qed

lemma well_formed_outer: "outer_ok P e \<Longrightarrow> well_formed e"
  unfolding well_formed_def
proof
  fix x assume "outer_ok P e" "x \<in> nodes e"
  then have "outer_ok P x \<or> is_Op x \<or> body_ok x \<or> (\<exists>as. is_Function x \<and> function_ok P x as)" by (rule outer_nodes)
  moreover have "is_Op f \<or> is_Function f" if "function_ok P f as" for f as using that by (cases f) auto
  ultimately show "case x of Call u f as a \<Rightarrow> is_Op f \<or> is_Function f | Function u ps b t a \<Rightarrow> list_all is_Var ps | _ \<Rightarrow> True"
    by (cases x) auto
qed

lemma params_kept_outer:
  assumes "outer_keys P m" and "outer_ok P e"
  shows "params_kept m e"
  unfolding params_kept_def
proof
  fix x assume "x \<in> nodes e"
  with assms(2) have x: "outer_ok P x \<or> is_Op x \<or> body_ok x \<or> (\<exists>as. is_Function x \<and> function_ok P x as)" by (rule outer_nodes)
  show "case x of Function u ps b t a \<Rightarrow> \<forall>p \<in> set ps. is_Var p \<and> map_of m p = None | _ \<Rightarrow> True"
  proof (cases x)
    case (Function u ps b t a)
    then have ps: "list_all is_Var ps" "set ps \<inter> P = {}" using x by auto
    have "is_Var p \<and> map_of m p = None" if p: "p \<in> set ps" for p
    proof -
      have v: "is_Var p" using ps(1) p by (simp add: list_all_iff)
      then have "anchors p \<subseteq> set ps" using p by (cases p) auto
      then show ?thesis using v no_key[OF assms(1) _ ps] by simp
    qed
    then show ?thesis by (simp add: Function)
  qed (use x in auto)
qed

end
