(* ===== verification/Flatten.thy ===== *)
theory Flatten
  imports Fusion_Fragment
begin

text \<open>
  The steps that unfold earlier fusions in the body of a new one (\<^verbatim>\<open>flatten_func\<close>,
  \<^verbatim>\<open>parallel_flatten\<close>, \<^verbatim>\<open>special_serial_flatten\<close>, \<^verbatim>\<open>serial_flatten\<close> of \<^verbatim>\<open>GroupOp\<close>): each keeps the value
  and the type, and the result consists of operator calls only.
\<close>

definition unfolds :: "'v interp \<Rightarrow> expr \<Rightarrow> expr \<Rightarrow> bool" where
  "unfolds I e r \<longleftrightarrow> (\<forall>env. eval I env r = eval I env e) \<and> checked_type r = checked_type e \<and>
     body_ok r \<and> anchors r \<noteq> {} \<and> anchors r \<subseteq> anchors e"

lemma unfolds_refl: "body_ok e \<Longrightarrow> anchors e \<noteq> {} \<Longrightarrow> unfolds I e e"
  by (simp add: unfolds_def)

lemma map_of_zip_dict_in: "map_of (zip_dict ks vs) k = Some v \<Longrightarrow> (k, v) \<in> set (zip ks vs)"
  by (auto simp: map_of_zip_dict dest: map_of_SomeD)

lemma zip_dict_dom: "length ks = length vs \<Longrightarrow> k \<in> set ks \<Longrightarrow> \<exists>v. map_of (zip_dict ks vs) k = Some v"
  by (metis map_fst_zip map_of_eq_None_iff map_of_zip_dict option.exhaust set_map set_rev)

lemma bind_zip_dict:
  assumes "map_of (zip_dict ps as) p = Some x"
  shows "bind ps (map f as) env p = f x"
proof -
  have "zip ps (map f as) = map (\<lambda>(p, x). (p, f x)) (zip ps as)" by (simp add: zip_map2)
  then have "map_of (rev (zip ps (map f as))) p = map_option f (map_of (rev (zip ps as)) p)"
    by (simp add: rev_map map_of_map)
  then show ?thesis using assms by (simp add: bind_lookup map_of_zip_dict)
qed

lemma flatten_func_unfolds:
  assumes e: "outer_ok P (Call u (Function w ps b t at) as a)" and as: "list_all body_ok as"
    and r: "flatten_func limit (Call u (Function w ps b t at) as a) n = Inr (r, n')"
  shows "unfolds I (Call u (Function w ps b t at) as a) r"
proof -
  let ?m = "zip_dict ps as"
  have f: "list_all is_Var ps" "length ps = length as" "list_all2 (\<lambda>p x. checked_type p = checked_type x) ps as"
    "list_all (\<lambda>x. anchors x \<noteq> {}) as" "body_ok b" "anchors b \<noteq> {}" "anchors b \<subseteq> set ps"
    using e by auto
  have m: "x \<in> set ps \<and> is_Var x \<and> y \<in> set as \<and> checked_type y = checked_type x \<and> body_ok y \<and> anchors y \<noteq> {}"
    if "map_of ?m x = Some y" for x y
    using map_of_zip_dict_in[OF that] f(1,3,4) as
    by (auto simp: list_all2_iff list_all_iff dest: set_zip_leftD set_zip_rightD)
  have keys: "outer_keys (set ps) ?m"
    unfolding outer_keys_def
  proof (intro allI impI)
    fix x y assume "map_of ?m x = Some y"
    then have "is_Var x" "x \<in> set ps" using m by blast+
    then show "outer_ok (set ps) x \<and> anchors x \<noteq> {}" by (cases x rule: expr.exhaust) auto
  qed
  have "stable_map ?m" unfolding stable_map_def
  proof (intro allI impI, elim conjE)
    fix x y assume "map_of ?m x = Some y" "is_Call x \<or> is_TupleGetItem x"
    then show "subst ?m y = y \<and> params_kept ?m y" using m[of x y] by (cases x) auto
  qed
  then have sub: "erase r = erase (subst ?m b)"
    by (rule ReplaceParams_subst) (use r params_kept_body[OF f(5)] in \<open>auto simp: flatten_func_def\<close>)
  have out: "outer_ok (set ps) b" by (rule body_is_outer[OF f(5,7)])
  have "eval I env (subst ?m b) = eval I (bind ps (map (eval I env) as) env) b" for env
  proof (rule subst_eval[OF keys _ _ out])
    show "\<forall>x y. map_of ?m x = Some y \<longrightarrow> eval I env y = eval I (bind ps (map (eval I env) as) env) x"
    proof (intro allI impI)
      fix x y assume x: "map_of ?m x = Some y"
      then have "is_Var x" using m by blast
      then show "eval I env y = eval I (bind ps (map (eval I env) as) env) x"
        using bind_zip_dict[OF x, of "eval I env" env] by (cases x) auto
    qed
    show "\<forall>v \<in> set ps. map_of ?m v = None \<longrightarrow> env v = bind ps (map (eval I env) as) env v"
      using zip_dict_dom[OF f(2)] by force
  qed
  moreover have "checked_type (subst ?m b) = checked_type b"
    by (rule subst_type[OF keys _ out]) (use m in blast)
  moreover have "body_ok (subst ?m b)" by (rule subst_body[OF _ f(5)]) (use m in blast)
  moreover have "anchors (subst ?m b) \<noteq> {}" by (rule subst_anchors_nonempty[OF _ f(6)]) (use m in blast)
  moreover have "anchors (subst ?m b) \<subseteq> \<Union> (anchors ` set as)"
  proof (rule subst_anchors)
    show "covered ?m b" by (rule covered_anchors) (use f(7) zip_dict_dom[OF f(2)] in blast)
  qed (use m in blast)
  ultimately show ?thesis by (simp add: unfolds_def erase_eqD[OF sub])
qed

lemma flatten_call_unfolds:
  assumes "outer_ok P e" and "list_all body_ok (call_args e)" and "flatten_call limit e n = Inr (r, n')"
  shows "unfolds I e r"
proof -
  obtain u f as a where e: "e = Call u f as a" using assms(3) by (cases e) (auto simp: flatten_call_def)
  have f: "function_ok P f as" using assms(1) e by simp
  then show ?thesis
  proof (cases rule: function_ok_cases)
    case (1 nm)
    obtain x where x: "x \<in> set as" "anchors x \<noteq> {}" using assms(1) e by (auto simp: list_ex_iff)
    have "r = e" using assms(3) e 1 by (auto simp: flatten_call_def)
    moreover have "body_ok e" using assms(1,2) e 1 by simp
    moreover have "anchors e \<noteq> {}" using e x by auto
    ultimately show ?thesis by (simp add: unfolds_refl)
  next
    case (2 w ps b t at)
    show ?thesis
      using flatten_func_unfolds[of P u w ps b t at as a limit n r n' I] assms e 2(1) by (simp add: flatten_call_def)
  qed
qed

text \<open>The tensors of a value of a type.\<close>

definition tensors :: "rtype option \<Rightarrow> 'v val \<Rightarrow> 'v val list" where
  "tensors t v = (case t of Some (TupleType ts) \<Rightarrow> map (project v) [0..<length ts] | _ \<Rightarrow> [v])"

lemma ret_tensors_ok:
  assumes "ret_tensors f n = Inr (ts, n')" and "body_ok f" and "anchors f \<noteq> {}"
  shows "map (eval I env) ts = tensors (checked_type f) (eval I env f)"
    and "\<forall>x \<in> set ts. body_ok x \<and> anchors x \<noteq> {} \<and> anchors x \<subseteq> anchors f"
    and "ts \<noteq> [] \<or> checked_type f = Some (TupleType [])"
  using assms by (auto simp: ret_tensors_def tensors_def comp_def split: option.splits rtype.splits)

lemma ret_tuple_ok:
  assumes "ret_tuple f1 f2 n = Inr (r, n')" and "body_ok f1" "anchors f1 \<noteq> {}" "body_ok f2" "anchors f2 \<noteq> {}"
  shows "eval I env r = TupleV (tensors (checked_type f1) (eval I env f1) @ tensors (checked_type f2) (eval I env f2))"
    and "body_ok r" and "anchors r \<subseteq> anchors f1 \<union> anchors f2"
proof -
  obtain ts1 n1 ts2 n2 where r: "ret_tensors f1 n = Inr (ts1, n1)" "ret_tensors f2 n1 = Inr (ts2, n2)"
    "r = Tuple n2 (ts1 @ ts2)" using assms(1) by (auto simp: ret_tuple_def and_then_eq_Inr)
  note 1 = ret_tensors_ok[OF r(1) assms(2,3)] and 2 = ret_tensors_ok[OF r(2) assms(4,5)]
  show "eval I env r = TupleV (tensors (checked_type f1) (eval I env f1) @ tensors (checked_type f2) (eval I env f2))"
    using 1(1)[of I env] 2(1)[of I env] r(3) by simp
  show "body_ok r" "anchors r \<subseteq> anchors f1 \<union> anchors f2" using 1(2) 2(2) r(3) by (auto simp: list_all_iff)
qed

definition tensor_types :: "rtype option \<Rightarrow> rtype list" where
  "tensor_types t = (case t of Some (TupleType ts) \<Rightarrow> ts | Some t \<Rightarrow> [t] | None \<Rightarrow> [])"

lemma ret_tensors_types:
  assumes "ret_tensors f n = Inr (ts, n')"
  shows "map checked_type ts = map Some (tensor_types (checked_type f))" "checked_type f \<noteq> None"
  using assms by (auto simp: ret_tensors_def tensor_types_def comp_def split: option.splits rtype.splits intro!: nth_equalityI)

lemma ret_tuple_type:
  assumes "ret_tuple f1 f2 n = Inr (r, n')"
  shows "checked_type r = Some (TupleType (tensor_types (checked_type f1) @ tensor_types (checked_type f2)))"
proof -
  obtain ts1 n1 ts2 n2 where r: "ret_tensors f1 n = Inr (ts1, n1)" "ret_tensors f2 n1 = Inr (ts2, n2)"
    "r = Tuple n2 (ts1 @ ts2)" using assms(1) by (auto simp: ret_tuple_def and_then_eq_Inr)
  have "map checked_type (ts1 @ ts2) = map Some (tensor_types (checked_type f1) @ tensor_types (checked_type f2))"
    using ret_tensors_types(1)[OF r(1)] ret_tensors_types(1)[OF r(2)] by simp
  then show ?thesis using r(3) by (simp only: checked_type.simps) (auto simp: opt_all_Some)
qed

lemma ret_tuple_anchors:
  assumes "ret_tuple f1 f2 n = Inr (r, n')" and "body_ok f2" "anchors f2 \<noteq> {}" and "checked_type f2 \<noteq> Some (TupleType [])"
  shows "anchors r \<noteq> {}"
proof -
  obtain ts1 n1 ts2 n2 where r: "ret_tensors f1 n = Inr (ts1, n1)" "ret_tensors f2 n1 = Inr (ts2, n2)"
    "r = Tuple n2 (ts1 @ ts2)" using assms(1) by (auto simp: ret_tuple_def and_then_eq_Inr)
  obtain x where "x \<in> set ts2" using ret_tensors_ok(3)[OF r(2) assms(2,3)] assms(4) by (cases ts2) auto
  moreover from this have "anchors x \<noteq> {}" using ret_tensors_ok(2)[OF r(2) assms(2,3)] by blast
  ultimately show ?thesis using r(3) by auto
qed

lemma parallel_flatten_ok:
  assumes "outer_ok P e1" "list_all body_ok (call_args e1)" "outer_ok P e2" "list_all body_ok (call_args e2)"
    and r: "parallel_flatten limit [e1, e2] n = Inr (r, n')"
  shows "eval I env r = TupleV (tensors (checked_type e1) (eval I env e1) @ tensors (checked_type e2) (eval I env e2))"
    and "body_ok r" and "anchors r \<subseteq> anchors e1 \<union> anchors e2"
    and "checked_type r = Some (TupleType (tensor_types (checked_type e1) @ tensor_types (checked_type e2)))"
    and "checked_type e2 \<noteq> Some (TupleType []) \<Longrightarrow> anchors r \<noteq> {}"
proof -
  obtain f1 n1 f2 n2 where f: "flatten_call limit e1 n = Inr (f1, n1)" "flatten_call limit e2 n1 = Inr (f2, n2)"
    "ret_tuple f1 f2 n2 = Inr (r, n')" using r by (auto simp: parallel_flatten_def and_then_eq_Inr)
  note u1 = flatten_call_unfolds[OF assms(1,2) f(1), of I, unfolded unfolds_def]
    and u2 = flatten_call_unfolds[OF assms(3,4) f(2), of I, unfolded unfolds_def]
  note t = ret_tuple_ok[OF f(3)]
  show "eval I env r = TupleV (tensors (checked_type e1) (eval I env e1) @ tensors (checked_type e2) (eval I env e2))"
    using t(1)[of I env] u1 u2 by simp
  show "body_ok r" "anchors r \<subseteq> anchors e1 \<union> anchors e2" using t(2,3) u1 u2 by auto
  show "checked_type r = Some (TupleType (tensor_types (checked_type e1) @ tensor_types (checked_type e2)))"
    using ret_tuple_type[OF f(3)] u1 u2 by simp
  show "checked_type e2 \<noteq> Some (TupleType []) \<Longrightarrow> anchors r \<noteq> {}" using ret_tuple_anchors[OF f(3)] u2 by simp
qed



section \<open>Serial fusion\<close>

text \<open>
  An argument of the last call: already in the form of a body, a call of a fused function on such
  arguments, or a component of such a call.
\<close>

definition plain_call :: "expr set \<Rightarrow> expr \<Rightarrow> bool" where
  "plain_call P e \<longleftrightarrow> is_Call e \<and> outer_ok P e \<and> list_all body_ok (call_args e)"

definition ready :: "expr set \<Rightarrow> expr \<Rightarrow> bool" where
  "ready P x \<longleftrightarrow> body_ok x \<or> plain_call P x \<or> (\<exists>u y i. x = TupleGetItem u y i \<and> plain_call P y)"

text \<open>Replacing calls of fused functions by their unfoldings.\<close>

definition unfolding_map :: "'v interp \<Rightarrow> expr set \<Rightarrow> (expr, expr) dict \<Rightarrow> bool" where
  "unfolding_map I P m \<longleftrightarrow> (\<forall>x y. map_of m x = Some y \<longrightarrow> plain_call P x \<and> \<not> body_ok x \<and> unfolds I x y)"

lemma plain_call_anchors: "plain_call P x \<Longrightarrow> anchors x \<noteq> {}"
  by (cases x) (auto simp: plain_call_def list_ex_iff)

lemma plain_call_body: "plain_call P x \<Longrightarrow> is_Op f \<Longrightarrow> x = Call u f as a \<Longrightarrow> body_ok x"
  by (simp add: plain_call_def)

lemma subst_body_keys: "body_ok y \<Longrightarrow> \<forall>x. map_of m x \<noteq> None \<longrightarrow> \<not> body_ok x \<Longrightarrow> subst m y = y"
proof (induction y rule: body_induct)
  case (Call u nm as a)
  have "map_of m (Call u (Op nm) as a) = None" using Call by (auto simp: list_all_iff)
  moreover have "map (subst m) as = as" by (rule map_idI) (use Call in auto)
  ultimately show ?case by (simp add: subst_None)
next
  case (Tuple u es)
  have "map (subst m) es = es" by (rule map_idI) (use Tuple in auto)
  then show ?case by simp
next
  case (Get u e i)
  have "map_of m (TupleGetItem u e i) = None" using Get by (auto simp del: ex_in_conv)
  then show ?case using Get by (simp add: subst_None)
next
  case (Var u nm t)
  then have "map_of m (Var u nm t) = None" by (metis body_ok.simps(1))
  then show ?case by simp
next
  case (Constant u sh dt)
  then have "map_of m (Constant u sh dt) = None" by (metis body_ok.simps(2))
  then show ?case by simp
qed

lemma unfolding_mapD:
  assumes "unfolding_map I P m"
  shows "outer_keys P m" "\<forall>x. map_of m x \<noteq> None \<longrightarrow> \<not> body_ok x"
    "\<forall>x y. map_of m x = Some y \<longrightarrow> body_ok y \<and> anchors y \<noteq> {} \<and> anchors y \<subseteq> anchors x \<and> checked_type y = checked_type x"
    "\<forall>x y. map_of m x = Some y \<longrightarrow> eval I env y = eval I env x" "stable_map m"
proof -
  show "outer_keys P m" using assms plain_call_anchors by (auto simp: unfolding_map_def outer_keys_def plain_call_def)
  show nb: "\<forall>x. map_of m x \<noteq> None \<longrightarrow> \<not> body_ok x" using assms by (auto simp: unfolding_map_def)
  show im: "\<forall>x y. map_of m x = Some y \<longrightarrow> body_ok y \<and> anchors y \<noteq> {} \<and> anchors y \<subseteq> anchors x \<and> checked_type y = checked_type x"
    using assms unfolding unfolding_map_def unfolds_def by blast
  show "\<forall>x y. map_of m x = Some y \<longrightarrow> eval I env y = eval I env x"
    using assms unfolding unfolding_map_def unfolds_def by blast
  show "stable_map m" unfolding stable_map_def using im nb subst_body_keys params_kept_body by blast
qed

text \<open>Unfolding the arguments of a call.\<close>

lemma subst_ready:
  assumes m: "unfolding_map I P m" and x: "ready P x"
    and dom: "\<forall>y. (y = x \<or> (\<exists>u i. x = TupleGetItem u y i)) \<and> plain_call P y \<and> \<not> body_ok y \<longrightarrow> map_of m y \<noteq> None"
  shows "body_ok (subst m x)"
proof (cases "body_ok x")
  case True
  then show ?thesis using subst_body_keys unfolding_mapD(2)[OF m] by metis
next
  case False
  note im = unfolding_mapD(3)[OF m]
  show ?thesis
  proof (cases "plain_call P x")
    case True
    then obtain y where y: "map_of m x = Some y" using dom False by blast
    then have "subst m x = y" using True by (cases x) (auto simp: plain_call_def)
    then show ?thesis using im y by blast
  next
    case npc: False
    then obtain u y i where g: "x = TupleGetItem u y i" and y: "plain_call P y"
      using False x by (auto simp: ready_def)
    have none: "map_of m x = None" using m npc by (cases "map_of m x") (auto simp: unfolding_map_def)
    have "body_ok (subst m y) \<and> anchors (subst m y) \<noteq> {}"
    proof (cases "body_ok y")
      case True
      then show ?thesis using subst_body_keys unfolding_mapD(2)[OF m] plain_call_anchors[OF y] by metis
    next
      case False
      then obtain z where z: "map_of m y = Some z" using dom y g by blast
      then have "subst m y = z" using y by (cases y) (auto simp: plain_call_def)
      then show ?thesis using im z by blast
    qed
    then show ?thesis using none g by (simp add: subst_None)
  qed
qed

lemma covered_by_anchors:
  assumes "\<forall>x y. map_of m x = Some y \<longrightarrow> anchors y \<subseteq> anchors x"
  shows "anchors (subst m e) \<subseteq> anchors e"
proof (induction e rule: anchors.induct)
  case (3 u f as a)
  then have "\<Union> (set (map anchors (map (subst m) as))) \<subseteq> \<Union> (set (map anchors as))" by fastforce
  then show ?case using assms by (cases "map_of m (Call u f as a)") (auto simp: subst_None simp del: anchors.simps, auto)
next
  case (4 u es)
  then show ?case by fastforce
qed (use assms in \<open>auto split: option.splits\<close>, fastforce+)

definition unfolded :: "expr set \<Rightarrow> (expr, expr) dict \<Rightarrow> expr \<Rightarrow> bool" where
  "unfolded P m x \<longleftrightarrow> (\<forall>y. (y = x \<or> (\<exists>u i. x = TupleGetItem u y i)) \<and> plain_call P y \<and> \<not> body_ok y \<longrightarrow> map_of m y \<noteq> None)"

lemma unfolding_map_update:
  "unfolding_map I P m \<Longrightarrow> plain_call P x \<Longrightarrow> \<not> body_ok x \<Longrightarrow> unfolds I x y \<Longrightarrow> unfolding_map I P (AList.update x y m)"
  by (auto simp: unfolding_map_def update_conv')

lemma unfolded_update: "unfolded P m z \<Longrightarrow> unfolded P (AList.update x y m) z"
  by (auto simp: unfolded_def update_conv')

lemma plain_Op_body: "plain_call P (Call u f as a) \<Longrightarrow> \<not> is_Function f \<Longrightarrow> body_ok (Call u f as a)"
  by (cases f) (auto simp: plain_call_def)

lemma flatten_plain:
  assumes "plain_call P e" and "flatten_func limit e n = Inr (r, n')"
  shows "unfolds I e r"
proof -
  obtain u w ps b t at as a where "e = Call u (Function w ps b t at) as a"
    using assms(2) by (auto simp: flatten_func_def split: expr.splits)
  then show ?thesis using flatten_func_unfolds[of P u w ps b t at as a] assms by (simp add: plain_call_def)
qed

lemma collect_replace_ok:
  assumes m: "unfolding_map I P m" and arg: "ready P arg" and ps: "list_all is_Var params"
    and r: "collect_replace limit params arg (m, n) = Inr (m', n')"
  shows "unfolding_map I P m' \<and> unfolded P m' arg \<and> (\<forall>z. unfolded P m z \<longrightarrow> unfolded P m' z)"
proof -
  consider (param) "arg \<in> set params" "m' = m"
    | (get) u y i where "arg = TupleGetItem u y i" "arg \<notin> set params"
    | (call) "arg \<notin> set params" "\<not> is_TupleGetItem arg"
    using r by (cases arg; cases "arg \<in> set params") (auto simp: collect_replace_def)
  then show ?thesis
  proof cases
    case param
    then have "is_Var arg" using ps by (simp add: list_all_iff)
    then have "unfolded P m arg" by (cases arg) (auto simp: unfolded_def plain_call_def)
    then show ?thesis using param m by simp
  next
    case (get u y i)
    have y: "body_ok y \<or> plain_call P y" using arg get(1) by (auto simp: ready_def plain_call_def)
    obtain f where f: "call_op y = Inr f"
      using r get by (cases "call_op y") (auto simp: collect_replace_def)
    then obtain v as a where yc: "y = Call v f as a" by (cases y) auto
    show ?thesis
    proof (cases "\<not> is_Function f \<or> y \<in> set (dict_keys m)")
      case True
      then have "m' = m" using r get f by (auto simp: collect_replace_def)
      moreover have "unfolded P m arg"
      proof (cases "is_Function f")
        case True
        then have "map_of m y \<noteq> None" using \<open>\<not> is_Function f \<or> y \<in> set (dict_keys m)\<close> dict_key_Some by fastforce
        then show ?thesis using get by (auto simp: unfolded_def plain_call_def)
      next
        case False
        then show ?thesis using get y yc plain_Op_body[of P v f as a] by (auto simp: unfolded_def plain_call_def)
      qed
      ultimately show ?thesis using m by simp
    next
      case False
      then obtain z k where z: "flatten_func limit y n = Inr (z, k)" "m' = AList.update y z m"
        using r get f by (auto simp: collect_replace_def and_then_eq_Inr)
      have nb: "\<not> body_ok y" using False yc by (cases f) auto
      then have "plain_call P y" using y by blast
      then have "unfolding_map I P m'" using unfolding_map_update[OF m _ nb] flatten_plain z by blast
      moreover have "unfolded P m' arg" using get z(2) by (auto simp: unfolded_def update_conv' plain_call_def)
      ultimately show ?thesis using unfolded_update z(2) by blast
    qed
  next
    case call
    obtain f where f: "call_op arg = Inr f"
      using r call by (cases "call_op arg") (auto simp: collect_replace_def)
    then obtain v as a where c: "arg = Call v f as a" by (cases arg) auto
    show ?thesis
    proof (cases "is_Function f")
      case True
      then obtain z k where z: "flatten_func limit arg n = Inr (z, k)" "m' = AList.update arg z m"
        using r call f by (auto simp: collect_replace_def and_then_eq_Inr)
      have nb: "\<not> body_ok arg" using True c by (cases f) auto
      then have "plain_call P arg" using arg c by (auto simp: ready_def)
      then have "unfolding_map I P m'" using unfolding_map_update[OF m _ nb] flatten_plain z by blast
      moreover have "unfolded P m' arg" using c z(2) by (auto simp: unfolded_def update_conv')
      ultimately show ?thesis using unfolded_update z(2) by blast
    next
      case False
      then have "m' = m" using r call f by (auto simp: collect_replace_def)
      moreover have "unfolded P m arg" using c False plain_Op_body[of P v f as a] by (auto simp: unfolded_def)
      ultimately show ?thesis using m by simp
    qed
  qed
qed

lemma collect_replace_all:
  assumes "unfolding_map I P m" and "\<forall>x \<in> set args. ready P x" and "list_all is_Var params"
    and "res_fold (collect_replace limit params) args (m, n) = Inr (m', n')"
  shows "unfolding_map I P m' \<and> (\<forall>x \<in> set args. unfolded P m' x) \<and> (\<forall>z. unfolded P m z \<longrightarrow> unfolded P m' z)"
  using assms
proof (induction args arbitrary: m n)
  case (Cons x args)
  then obtain m1 n1 where 1: "collect_replace limit params x (m, n) = Inr (m1, n1)"
    "res_fold (collect_replace limit params) args (m1, n1) = Inr (m', n')"
    by (auto simp: and_then_eq_Inr)
  have "unfolding_map I P m1 \<and> unfolded P m1 x \<and> (\<forall>z. unfolded P m z \<longrightarrow> unfolded P m1 z)"
    by (rule collect_replace_ok[OF Cons.prems(1) _ Cons.prems(3) 1(1)]) (use Cons.prems(2) in simp)
  with Cons.IH[OF _ _ Cons.prems(3) 1(2)] Cons.prems(2) show ?case by auto
qed simp

text \<open>Substituting unfoldings in the last call.\<close>

lemma unfold_args:
  assumes m: "unfolding_map I P m" and e: "outer_ok P (Call u f as a)" "map_of m (Call u f as a) = None"
    and as: "\<forall>x \<in> set as. ready P x \<and> unfolded P m x" and r: "erase r = erase (subst m (Call u f as a))"
  shows "outer_ok P r" "list_all body_ok (call_args r)" "\<forall>env. eval I env r = eval I env (Call u f as a)"
    "checked_type r = checked_type (Call u f as a)" "anchors r \<subseteq> anchors (Call u f as a)" "is_Call r"
proof -
  note M = unfolding_mapD[OF m]
  have img: "\<forall>x y. map_of m x = Some y \<longrightarrow> outer_ok P y \<and> anchors y \<noteq> {} \<and> checked_type y = checked_type x"
  proof (intro allI impI)
    fix x y assume x: "map_of m x = Some y"
    then have y: "body_ok y" "anchors y \<noteq> {}" "anchors y \<subseteq> anchors x" "checked_type y = checked_type x" "outer_ok P x"
      using M(1,3) unfolding outer_keys_def by blast+
    have "outer_ok (anchors y) y" by (rule body_is_outer[OF y(1)]) simp
    moreover have "outer_ok P z" if "body_ok z" "anchors z \<subseteq> anchors x" for z
      using that
    proof (induction z rule: body_induct)
      case (Var w nm t)
      then show ?case using anchors_outer[OF y(5), of "Var w nm t"] by simp
    qed (auto simp: list_all_iff)
    ultimately show "outer_ok P y \<and> anchors y \<noteq> {} \<and> checked_type y = checked_type x" using y by blast
  qed
  show "outer_ok P r" unfolding erase_eqD(5)[OF r]
    by (rule subst_outer[OF M(1) img _ e(1)]) (use fparams_outer[OF e(1)] in auto)
  have s: "subst m (Call u f as a) = Call u (subst m f) (map (subst m) as) a" using e(2) by (rule subst_None)
  then obtain w g bs where c: "r = Call w g bs a" "map erase bs = map erase (map (subst m) as)"
    using r by (cases r) auto
  have "list_all body_ok (map erase (map (subst m) as))"
    using as subst_ready[OF m] by (auto simp: list_all_iff unfolded_def)
  then have "list_all body_ok (map erase bs)" using c(2) by simp
  then show "list_all body_ok (call_args r)" using c(1) by (simp add: list_all_iff)
  show "\<forall>env. eval I env r = eval I env (Call u f as a)"
    unfolding erase_eqD(1)[OF r] using subst_eval[OF M(1) M(4) _ e(1)] by blast
  show "checked_type r = checked_type (Call u f as a)"
    unfolding erase_eqD(2)[OF r] using subst_type[OF M(1) _ e(1)] M(3) by blast
  show "anchors r \<subseteq> anchors (Call u f as a)"
    unfolding erase_eqD(3)[OF r] using covered_by_anchors M(3) by blast
  show "is_Call r" by (simp add: c(1))
qed

lemma collect_replace_keys:
  assumes "collect_replace limit params arg (m, n) = Inr (m', n')" and "map_of m' x \<noteq> None"
  shows "map_of m x \<noteq> None \<or> size x \<le> size arg"
  using assms
  by (auto simp: collect_replace_def and_then_eq_Inr update_conv' split: if_splits expr.splits)

lemma collect_replace_all_keys:
  assumes "res_fold (collect_replace limit params) args (m, n) = Inr (m', n')" and "map_of m' x \<noteq> None"
    and "map_of m x = None"
  shows "\<exists>arg \<in> set args. size x \<le> size arg"
  using assms
proof (induction args arbitrary: m n)
  case (Cons y args)
  then obtain m1 n1 where 1: "collect_replace limit params y (m, n) = Inr (m1, n1)"
    "res_fold (collect_replace limit params) args (m1, n1) = Inr (m', n')"
    by (auto simp: and_then_eq_Inr)
  show ?case
  proof (cases "map_of m1 x")
    case None
    then show ?thesis using Cons.IH[OF 1(2)] Cons.prems by auto
  next
    case (Some z)
    then show ?thesis using collect_replace_keys[OF 1(1), of x] Cons.prems(3) by auto
  qed
qed simp

theorem serial_flatten_unfolds:
  assumes e: "outer_ok P (Call u f as a)" and as: "\<forall>x \<in> set as. ready P x" and ps: "list_all is_Var params"
    and r: "serial_flatten limit (Call u f as a) params n = Inr (r, n')"
  shows "unfolds I (Call u f as a) r"
proof -
  let ?e = "Call u f as a"
  obtain m n1 e2 n2 where m: "res_fold (collect_replace limit params) as ([], n) = Inr (m, n1)"
    and e2: "(if m \<noteq> [] then ReplaceParams limit m ?e n1 else Inr (?e, n1)) = Inr (e2, n2)"
    and fl: "flatten_call limit e2 n2 = Inr (r, n')"
    using r by (auto simp: serial_flatten_def and_then_eq_Inr)
  have um: "unfolding_map I P m" "\<forall>x \<in> set as. unfolded P m x"
    using collect_replace_all[OF _ as ps m, of I] by (simp_all add: unfolding_map_def)
  have none: "map_of m ?e = None"
  proof (rule ccontr)
    assume "map_of m ?e \<noteq> None"
    then obtain x where "x \<in> set as" "size ?e \<le> size x" using collect_replace_all_keys[OF m, of ?e] by auto
    then show False using children_size[of x True ?e] by simp
  qed
  have "erase e2 = erase (subst m ?e)"
  proof (cases "m = []")
    case True
    then show ?thesis using e2 True by simp
  next
    case False
    show ?thesis
      by (rule ReplaceParams_subst[OF unfolding_mapD(5)[OF um(1)] params_kept_outer[OF unfolding_mapD(1)[OF um(1)] e]])
        (use e2 False in simp)
  qed
  note U = unfold_args[OF um(1) e none _ this]
  have rd: "\<forall>x \<in> set as. ready P x \<and> unfolded P m x" using as um(2) by blast
  have "unfolds I e2 r" by (rule flatten_call_unfolds[OF U(1,2)[OF rd] fl])
  then show ?thesis using U(3-5)[OF rd] unfolding unfolds_def by auto
qed

text \<open>
  The same with the first call as an output: the visit starts with its unfolding in the memo map.
\<close>

lemma mutate_memo_subst:
  assumes "outer_keys P m" and "outer_ok P e" and m: "m = [(c, d)]"
    and "mutate limit (replace_override []) e \<lparr>memo_map = [(c, d)], next_addr = n\<rparr> = Inr (r, s')" and "is_Call c"
  shows "erase r = erase (subst m e)"
proof -
  have sc: "subst m c = d" using assms(5) m by (cases c) auto
  have ov: "replace_override [] x = Inr Default" for x by (cases x) auto
  have "rec_rel {c} (params_kept m) (is_subst m) (mutate limit (replace_override []))"
  proof (rule mutate_rel)
    show "\<forall>e r. params_kept m e \<and> e \<notin> {c} \<and> replace_override [] e = Inr Default \<and> rebuilt (is_subst m) e r \<longrightarrow> is_subst m e r"
      using rebuilt_subst[of m] replace_override_Default[of m] m by auto
  qed (use params_kept_child ov in auto)
  moreover have "memo_rel {c} (is_subst m) \<lparr>memo_map = [(c, d)], next_addr = n\<rparr>"
    using sc assms(5) m by (cases c) (auto simp: memo_rel_def is_subst_def)
  ultimately have "is_subst m e r" using rec_relD(1) params_kept_outer[OF assms(1,2)] assms(4) by blast
  then show ?thesis by (simp add: is_subst_def)
qed

theorem special_serial_flatten_ok:
  assumes c1: "plain_call P e1" and e2: "outer_ok P (Call u f as a)" and ne: "e1 \<noteq> Call u f as a"
    and as: "\<forall>x \<in> set as. body_ok x \<or> x = e1 \<or> (\<exists>u i. x = TupleGetItem u e1 i)"
    and r: "special_serial_flatten limit [e1, Call u f as a] n = Inr (r, n')"
  shows "eval I env r = TupleV (tensors (checked_type e1) (eval I env e1) @
      tensors (checked_type (Call u f as a)) (eval I env (Call u f as a)))"
    and "body_ok r" and "anchors r \<subseteq> anchors e1 \<union> anchors (Call u f as a)"
    and "checked_type r = Some (TupleType (tensor_types (checked_type e1) @ tensor_types (checked_type (Call u f as a))))"
    and "checked_type (Call u f as a) \<noteq> Some (TupleType []) \<Longrightarrow> anchors r \<noteq> {}"
proof -
  let ?e = "Call u f as a"
  obtain v g bs b where c: "e1 = Call v g bs b" using c1 by (cases e1) (auto simp: plain_call_def)
  obtain g1 h2 n1 g2 n2 where s1: "(if is_Function g then
          and_then (flatten_func limit e1 n) (\<lambda>(new_func1, n).
          and_then (mutate limit (replace_override []) ?e \<lparr>memo_map = [(e1, new_func1)], next_addr = n\<rparr>)
            (\<lambda>(new_func2, s). Inr ((new_func1, new_func2), next_addr s)))
        else Inr ((e1, ?e), n)) = Inr ((g1, h2), n1)"
    and s2: "flatten_call limit h2 n1 = Inr (g2, n2)" and s3: "ret_tuple g1 g2 n2 = Inr (r, n')"
    using r c by (auto simp: special_serial_flatten_def and_then_eq_Inr py_nth_def)
  have main: "unfolds I e1 g1 \<and> unfolds I ?e g2"
  proof (cases "is_Function g")
    case True
    then obtain k s' where g1: "flatten_func limit e1 n = Inr (g1, k)"
      and h2: "mutate limit (replace_override []) ?e \<lparr>memo_map = [(e1, g1)], next_addr = k\<rparr> = Inr (h2, s')"
      using s1 by (auto simp: and_then_eq_Inr)
    have u1: "unfolds I e1 g1" by (rule flatten_plain[OF c1 g1])
    have nb: "\<not> body_ok e1" using True c by (cases g) auto
    have um: "unfolding_map I P [(e1, g1)]" using u1 nb c1 by (simp add: unfolding_map_def)
    have rd: "\<forall>x \<in> set as. ready P x \<and> unfolded P [(e1, g1)] x"
    proof
      fix x assume "x \<in> set as"
      then have x: "body_ok x \<or> x = e1 \<or> (\<exists>u i. x = TupleGetItem u e1 i)" using as by blast
      then have "ready P x" using c1 by (auto simp: ready_def)
      moreover have "unfolded P [(e1, g1)] x"
        using x c by (auto simp: unfolded_def plain_call_def)
      ultimately show "ready P x \<and> unfolded P [(e1, g1)] x" ..
    qed
    have none: "map_of [(e1, g1)] ?e = None" using ne by simp
    have "erase h2 = erase (subst [(e1, g1)] ?e)"
      by (rule mutate_memo_subst[OF unfolding_mapD(1)[OF um] e2 refl h2]) (simp add: c)
    note U = unfold_args[OF um e2 none rd this]
    have "unfolds I h2 g2" by (rule flatten_call_unfolds[OF U(1,2) s2])
    then show ?thesis using U(3-5) u1 unfolding unfolds_def by auto
  next
    case False
    then have "g1 = e1" "h2 = ?e" using s1 by auto
    moreover have "body_ok e1" using plain_Op_body[of P v g bs b] c1 c False by simp
    moreover from this have "list_all body_ok as" using as plain_call_anchors[OF c1] by (auto simp: list_all_iff simp del: ex_in_conv)
    ultimately show ?thesis
      using unfolds_refl[of e1 I] plain_call_anchors[OF c1] flatten_call_unfolds[OF e2 _ s2[unfolded \<open>h2 = ?e\<close>]] by simp
  qed
  then have g: "body_ok g1" "anchors g1 \<noteq> {}" "body_ok g2" "anchors g2 \<noteq> {}" by (simp_all add: unfolds_def)
  note t = ret_tuple_ok[OF s3 g]
  show "eval I env r = TupleV (tensors (checked_type e1) (eval I env e1) @ tensors (checked_type ?e) (eval I env ?e))"
    using t(1)[of I env] main unfolding unfolds_def by simp
  show "body_ok r" "anchors r \<subseteq> anchors e1 \<union> anchors ?e" using t(2,3) main unfolding unfolds_def by auto
  show "checked_type r = Some (TupleType (tensor_types (checked_type e1) @ tensor_types (checked_type ?e)))"
    using ret_tuple_type[OF s3] main unfolding unfolds_def by simp
  show "checked_type ?e \<noteq> Some (TupleType []) \<Longrightarrow> anchors r \<noteq> {}"
    using ret_tuple_anchors[OF s3 g(3,4)] main unfolding unfolds_def by simp
qed

end
