(* ===== verification/Cast_Param.thy ===== *)
theory Cast_Param
  imports Flatten
begin

text \<open>
  \<^verbatim>\<open>GroupOp.init_args\<close> and \<^verbatim>\<open>GroupOp.cast_param\<close>: the arguments of a group are what its calls take from
  outside, and replacing them by fresh variables leaves an expression over these variables only.
\<close>

section \<open>The arguments of a group\<close>

definition inner_arg :: "expr list \<Rightarrow> expr \<Rightarrow> bool" where
  "inner_arg grp x \<longleftrightarrow> x \<in> set grp \<or> skip_arg grp x"

lemma add_group_arg_set:
  "set (add_group_arg grp x args) = set args \<union> {y. y = x \<and> \<not> inner_arg grp x \<and> \<not> is_scalar x}"
  "distinct args \<Longrightarrow> distinct (add_group_arg grp x args)"
  by (auto simp: add_group_arg_def inner_arg_def)

lemma fold_add_group_arg:
  "set (fold (add_group_arg grp) xs args) = set args \<union> {y \<in> set xs. \<not> inner_arg grp y \<and> \<not> is_scalar y}"
  "distinct args \<Longrightarrow> distinct (fold (add_group_arg grp) xs args)"
  by (induction xs arbitrary: args) (auto simp: add_group_arg_set)

lemma init_args_fold:
  "set (fold (\<lambda>node. fold (add_group_arg grp) (call_args node)) ns args) =
     set args \<union> {y. \<exists>c \<in> set ns. y \<in> set (call_args c) \<and> \<not> inner_arg grp y \<and> \<not> is_scalar y}"
  "distinct args \<Longrightarrow> distinct (fold (\<lambda>node. fold (add_group_arg grp) (call_args node)) ns args)"
  by (induction ns arbitrary: args) (auto simp: fold_add_group_arg)

lemma set_init_args:
  "set (init_args grp) = {y. \<exists>c \<in> set grp. y \<in> set (call_args c) \<and> \<not> inner_arg grp y \<and> \<not> is_scalar y}"
  by (simp add: init_args_def init_args_fold)

lemma distinct_init_args: "distinct (init_args grp)"
  by (simp add: init_args_def init_args_fold)


section \<open>Fresh parameters\<close>

fun var_addr :: "expr \<Rightarrow> nat" where
  "var_addr (Var u nm t) = u"
| "var_addr _ = 0"

lemma new_params:
  assumes "res_map (new_param n) (enumerate 0 args) = Inr vars"
  shows "length vars = length args"
    and "\<forall>i < length args. \<exists>t. checked_type (args ! i) = Some t \<and> vars ! i = Var (n + i) (''p'' @ str_of_nat i) (Some t)"
proof -
  have *: "length vars = length args" "\<forall>i < length args. new_param n (i, args ! i) = Inr (vars ! i)"
    using assms by (auto simp: res_map_eq_Inr nth_enumerate_eq)
  then show "length vars = length args" by simp
  show "\<forall>i < length args. \<exists>t. checked_type (args ! i) = Some t \<and> vars ! i = Var (n + i) (''p'' @ str_of_nat i) (Some t)"
    using *(2) by (auto simp: new_param_def split: option.splits)
qed

lemma zip_dict_distinct: "distinct ks \<Longrightarrow> length ks = length vs \<Longrightarrow> zip_dict ks vs = zip ks vs"
proof -
  have "fold (\<lambda>(k, v). AList.update k v) kvs d = d @ kvs" if "distinct (map fst (d @ kvs))" for kvs d :: "(expr \<times> expr) list"
    using that
  proof (induction kvs arbitrary: d)
    case (Cons kv kvs)
    have "AList.update (fst kv) (snd kv) d = d @ [kv]"
      using Cons.prems update_new[of "fst kv" d "snd kv"] by simp
    then show ?case using Cons.IH[of "d @ [kv]"] Cons.prems by (simp add: case_prod_beta)
  qed simp
  then show "distinct ks \<Longrightarrow> length ks = length vs \<Longrightarrow> zip_dict ks vs = zip ks vs"
    by (simp add: zip_dict_def)
qed



section \<open>Casting the arguments\<close>

definition tensor_typed :: "expr \<Rightarrow> bool" where
  "tensor_typed x \<longleftrightarrow> (case checked_type x of Some t \<Rightarrow> is_tensor t | None \<Rightarrow> False)"

text \<open>A group that can be fused: calls of the fragment on tensors, and \<open>n\<close> is a fresh address.\<close>

definition castable :: "expr set \<Rightarrow> expr list \<Rightarrow> nat \<Rightarrow> bool" where
  "castable P grp n \<longleftrightarrow> (\<forall>v \<in> P. var_addr v < n) \<and>
     (\<forall>c \<in> set grp. is_Call c \<and> outer_ok P c \<and> list_all tensor_typed (call_args c) \<and> (\<forall>v \<in> fparams c. var_addr v < n))"

lemma castable_arg:
  assumes "castable P grp n" and "x \<in> set (init_args grp)"
  shows "outer_ok P x" "anchors x \<noteq> {}" "is_Call x \<or> is_TupleGetItem x \<or> is_Var x \<or> (\<exists>u sh dt. x = Constant u sh dt)"
    "tensor_typed x"
proof -
  obtain c where c: "c \<in> set grp" "x \<in> set (call_args c)" "\<not> is_scalar x" using assms(2) by (auto simp: set_init_args)
  obtain u f as a where ca: "c = Call u f as a" using c(2) by (cases c rule: expr.exhaust) auto
  have x: "outer_ok P x" "tensor_typed x" using assms(1) c ca by (auto simp: castable_def list_all_iff)
  then show "outer_ok P x" "tensor_typed x" by simp_all
  have "is_Call x \<or> is_TupleGetItem x \<or> is_Var x \<or> (\<exists>u sh dt. x = Constant u sh dt)"
    using x by (cases x) (auto simp: tensor_typed_def split: option.splits)
  then show "is_Call x \<or> is_TupleGetItem x \<or> is_Var x \<or> (\<exists>u sh dt. x = Constant u sh dt)" .
  then show "anchors x \<noteq> {}" using x(1) c(3) by (cases x) (auto simp: list_ex_iff simp del: is_scalar.simps)
qed

text \<open>The map from the arguments to the fresh variables.\<close>

definition cast_map :: "nat \<Rightarrow> expr list \<Rightarrow> expr list \<Rightarrow> bool" where
  "cast_map n args vars \<longleftrightarrow> length vars = length args \<and>
     (\<forall>i < length args. \<exists>t. checked_type (args ! i) = Some t \<and> vars ! i = Var (n + i) (''p'' @ str_of_nat i) (Some t))"

lemma cast_map_vars:
  assumes "cast_map n args vars" and "v \<in> set vars"
  shows "is_Var v" "n \<le> var_addr v" "anchors v = {v}" "body_ok v"
  using assms by (auto simp: cast_map_def in_set_conv_nth)

lemma cast_map_lookup:
  assumes "cast_map n args vars" and "map_of (zip args vars) x = Some y"
  shows "x \<in> set args" "y \<in> set vars" "checked_type y = checked_type x"
  using assms map_of_SomeD[OF assms(2)] by (auto simp: cast_map_def set_zip)

lemma cast_map_key: "cast_map n args vars \<Longrightarrow> x \<in> set args \<Longrightarrow> \<exists>y. map_of (zip args vars) x = Some y"
  using map_of_zip_is_Some[of args vars x] by (simp add: cast_map_def)

lemma cast_keys:
  assumes "castable P grp n" and "cast_map n (init_args grp) vars"
  shows "outer_keys P (zip (init_args grp) vars)"
  unfolding outer_keys_def
proof (intro allI impI)
  fix x y assume "map_of (zip (init_args grp) vars) x = Some y"
  then have "x \<in> set (init_args grp)" by (rule cast_map_lookup(1)[OF assms(2)])
  then show "outer_ok P x \<and> anchors x \<noteq> {}" using castable_arg(1,2)[OF assms(1)] by blast
qed

lemma cast_stable:
  assumes "castable P grp n" and "cast_map n (init_args grp) vars"
  shows "stable_map (zip (init_args grp) vars)"
  unfolding stable_map_def
proof (intro allI impI, elim conjE)
  let ?m = "zip (init_args grp) vars"
  fix x y assume "map_of ?m x = Some y"
  then have y: "y \<in> set vars" using cast_map_lookup[OF assms(2)] by blast
  note v = cast_map_vars[OF assms(2) y]
  have "map_of ?m y = None"
  proof (rule ccontr)
    assume "map_of ?m y \<noteq> None"
    then have "outer_ok P y" using cast_keys[OF assms] unfolding outer_keys_def by blast
    then have "y \<in> P" using v(1) by (cases y) auto
    then show False using assms(1) v(2) by (force simp: castable_def)
  qed
  then show "subst ?m y = y \<and> params_kept ?m y" using v(1) params_kept_body[OF v(4)] by (cases y) auto
qed

lemma inner_not_key:
  assumes "cast_map n (init_args grp) vars" and "inner_arg grp x"
  shows "map_of (zip (init_args grp) vars) x = None"
proof (rule ccontr)
  assume "map_of (zip (init_args grp) vars) x \<noteq> None"
  then have "x \<in> set (init_args grp)" using cast_map_lookup[OF assms(1)] by blast
  then show False using assms(2) by (simp add: set_init_args)
qed

text \<open>An argument of a call of the group after the replacement.\<close>

lemma cast_arg:
  assumes "castable P grp n" and "cast_map n (init_args grp) vars" and "c \<in> set grp" and "x \<in> set (call_args c)"
    and "\<not> inner_arg grp x"
  shows "subst (zip (init_args grp) vars) x \<in> set vars \<or> is_scalar (subst (zip (init_args grp) vars) x)"
proof (cases "is_scalar x")
  case True
  have "map_of (zip (init_args grp) vars) x = None"
  proof (rule ccontr)
    assume "map_of (zip (init_args grp) vars) x \<noteq> None"
    then have "x \<in> set (init_args grp)" using cast_map_lookup[OF assms(2)] by blast
    then show False using True by (simp add: set_init_args)
  qed
  then show ?thesis using True by (cases x) auto
next
  case False
  then have x: "x \<in> set (init_args grp)" using assms by (auto simp: set_init_args)
  then obtain y where "map_of (zip (init_args grp) vars) x = Some y" using cast_map_key[OF assms(2)] by blast
  moreover from this have "subst (zip (init_args grp) vars) x = y"
    using castable_arg(3)[OF assms(1) x] by (cases x) auto
  ultimately show ?thesis using cast_map_lookup[OF assms(2)] by simp
qed

lemma cast_covered:
  assumes "castable P grp n" and m: "cast_map n (init_args grp) vars"
  shows "c \<in> set grp \<Longrightarrow> covered (zip (init_args grp) vars) c"
proof (induction "size c" arbitrary: c rule: less_induct)
  case less
  let ?m = "zip (init_args grp) vars"
  obtain u f as a where c: "c = Call u f as a" using assms(1) less.prems by (cases c) (auto simp: castable_def)
  have "covered ?m x" if x: "x \<in> set as" for x
  proof -
    have sz: "size x < size c" using children_size[of x True c] c x by simp
    consider "x \<in> set grp" | u y i where "x = TupleGetItem u y i" "y \<in> set grp" | "\<not> inner_arg grp x"
      by (cases x) (auto simp: inner_arg_def skip_arg_def)
    then show ?thesis
    proof cases
      case 1
      then show ?thesis using less.hyps sz by blast
    next
      case (2 u y i)
      then have "size y < size c" using sz by simp
      then show ?thesis using less.hyps 2 by simp
    next
      case 3
      show ?thesis
      proof (cases "is_scalar x")
        case True
        then show ?thesis by (cases x) auto
      next
        case False
        then have xin: "x \<in> set (init_args grp)" using 3 less.prems c x by (auto simp: set_init_args intro!: bexI[of _ c])
        then obtain y where "map_of ?m x = Some y" using cast_map_key[OF m] by blast
        then show ?thesis using castable_arg(3)[OF assms(1) xin] by (cases x) auto
      qed
    qed
  qed
  then show ?case by (simp add: c list_all_iff)
qed

lemma cast_map_distinct: "cast_map n args vars \<Longrightarrow> distinct vars"
  unfolding distinct_conv_nth cast_map_def by (metis add_left_cancel expr.inject(1))

lemma cast_fresh: "castable P grp n \<Longrightarrow> cast_map n args vars \<Longrightarrow> set vars \<inter> P = {}"
  using cast_map_vars(2) by (fastforce simp: castable_def)

lemma cast_param_subst:
  assumes ok: "castable P (group g) n" and g: "gargs g = init_args (group g)" and e: "outer_ok P e"
    and r: "cast_param limit g e n = Inr ((params, r), n')"
  shows "cast_map n (gargs g) params" "erase r = erase (subst (zip (gargs g) params) e)"
    and "ReplaceParams limit (zip (gargs g) params) e (n + length (gargs g)) = Inr (r, n')"
proof -
  obtain vars where v: "res_map (new_param n) (enumerate 0 (gargs g)) = Inr vars"
    and rp: "ReplaceParams limit (zip_dict (gargs g) vars) e (n + length (gargs g)) = Inr (r, n')"
    and ps: "params = map snd (zip_dict (gargs g) vars)"
    using r by (auto simp: cast_param_def and_then_eq_Inr Let_def)
  have cm: "cast_map n (gargs g) vars" using new_params[OF v] by (simp add: cast_map_def)
  then have z: "zip_dict (gargs g) vars = zip (gargs g) vars"
    using zip_dict_distinct distinct_init_args by (simp add: g cast_map_def)
  then have [simp]: "params = vars" using ps cm by (simp add: cast_map_def)
  show "cast_map n (gargs g) params" using cm by simp
  show "ReplaceParams limit (zip (gargs g) params) e (n + length (gargs g)) = Inr (r, n')" using rp z by simp
  then show "erase r = erase (subst (zip (gargs g) params) e)"
    using ReplaceParams_subst[OF cast_stable[OF ok cm[unfolded g]] params_kept_outer[OF cast_keys[OF ok cm[unfolded g]] e]] g
    by simp
qed

lemma cast_value:
  assumes ok: "castable P grp n" and cm: "cast_map n (init_args grp) vars" and e: "outer_ok P e"
  shows "eval I (bind vars (map (eval I env) (init_args grp)) env) (subst (zip (init_args grp) vars) e) = eval I env e"
proof (rule subst_eval[OF cast_keys[OF ok cm] _ _ e])
  let ?m = "zip (init_args grp) vars" and ?env = "bind vars (map (eval I env) (init_args grp)) env"
  have len: "length vars = length (init_args grp)" using cm by (simp add: cast_map_def)
  show "\<forall>x y. map_of ?m x = Some y \<longrightarrow> eval I ?env y = eval I env x"
  proof (intro allI impI)
    fix x y assume x: "map_of ?m x = Some y"
    then have "(y, x) \<in> set (zip vars (init_args grp))" using map_of_SomeD[OF x] by (auto simp: set_zip)
    moreover have "zip_dict vars (init_args grp) = zip vars (init_args grp)"
      by (rule zip_dict_distinct[OF cast_map_distinct[OF cm] len])
    ultimately have "map_of (zip_dict vars (init_args grp)) y = Some x"
      using cast_map_distinct[OF cm] len by (simp add: map_of_eq_Some_iff)
    then have "?env y = eval I env x" by (rule bind_zip_dict)
    moreover have "is_Var y" using cast_map_vars(1)[OF cm] cast_map_lookup(2)[OF cm x] by blast
    ultimately show "eval I ?env y = eval I env x" by (cases y) auto
  qed
  show "\<forall>v \<in> P. map_of ?m v = None \<longrightarrow> ?env v = env v"
    using bind_other cast_fresh[OF ok cm] by blast
qed

text \<open>The expression after the replacement is in the fragment, over the fresh variables.\<close>

lemma cast_outer:
  assumes ok: "castable P grp n" and cm: "cast_map n (init_args grp) vars" and e: "outer_ok P e"
    and fp: "\<forall>v \<in> fparams e. var_addr v < n"
  shows "outer_ok (P \<union> set vars) (subst (zip (init_args grp) vars) e)"
proof (rule subst_outer[OF cast_keys[OF ok cm] _ _ e])
  show "\<forall>x y. map_of (zip (init_args grp) vars) x = Some y \<longrightarrow>
      outer_ok (P \<union> set vars) y \<and> anchors y \<noteq> {} \<and> checked_type y = checked_type x"
  proof (intro allI impI)
    fix x y assume x: "map_of (zip (init_args grp) vars) x = Some y"
    note y = cast_map_lookup[OF cm x] note v = cast_map_vars[OF cm y(2)]
    have "outer_ok (P \<union> set vars) y" using v(1) y(2) by (cases y) auto
    then show "outer_ok (P \<union> set vars) y \<and> anchors y \<noteq> {} \<and> checked_type y = checked_type x" using v y by simp
  qed
  show "fparams e \<inter> (P \<union> set vars) = {}"
    using fparams_outer[OF e] fp cast_map_vars(2)[OF cm] by fastforce
qed simp

lemma cast_type:
  assumes "castable P grp n" and cm: "cast_map n (init_args grp) vars" and "outer_ok P e"
  shows "checked_type (subst (zip (init_args grp) vars) e) = checked_type e"
  using subst_type[OF cast_keys[OF assms(1,2)] _ assms(3)] cast_map_lookup(3)[OF cm] by blast

lemma cast_anchors:
  assumes "castable P grp n" and cm: "cast_map n (init_args grp) vars" and "covered (zip (init_args grp) vars) e"
  shows "anchors (subst (zip (init_args grp) vars) e) \<subseteq> set vars"
proof (rule subst_anchors[OF _ assms(3)], intro allI impI)
  fix x y assume x: "map_of (zip (init_args grp) vars) x = Some y"
  then show "anchors y \<subseteq> set vars" using cast_map_lookup(2)[OF cm x] cast_map_vars(3)[OF cm] by simp
qed

end
