(* ===== verification/Fuse_Sound.thy ===== *)
theory Fuse_Sound
  imports Cast_Param
begin

text \<open>
  The call \<^verbatim>\<open>GroupOp.fuse\<close> builds from two calls: it has the value of the second call, or the tuple of
  the tensors of both, and is itself in the fragment, so it can be fused again.
\<close>

section \<open>The shape of the casted calls\<close>

lemma plain_call_erase: "erase r = erase e \<Longrightarrow> plain_call P r = plain_call P e"
proof -
  assume r: "erase r = erase e"
  have "list_all body_ok (call_args r) = list_all body_ok (call_args e)"
  proof -
    have "call_args (erase x) = map erase (call_args x)" for x by (cases x) auto
    then have "map erase (call_args r) = map erase (call_args e)" using r by metis
    then have "list_all body_ok (map erase (call_args r)) = list_all body_ok (map erase (call_args e))" by simp
    then show ?thesis by (simp add: list_all_iff)
  qed
  moreover have "is_Call r = is_Call e" using erase_kinds(4)[of r] erase_kinds(4)[of e] r by simp
  ultimately show ?thesis using erase_eqD(5)[OF r] by (simp add: plain_call_def)
qed

lemma ready_erase: "erase r = erase e \<Longrightarrow> ready P e \<Longrightarrow> ready P r"
proof -
  assume r: "erase r = erase e" and e: "ready P e"
  consider "body_ok e" | "plain_call P e" | u y i where "e = TupleGetItem u y i" "plain_call P y"
    using e by (auto simp: ready_def)
  then show ?thesis
  proof cases
    case (3 u y i)
    then obtain w z where "r = TupleGetItem w z i" "erase z = erase y" using r by (cases r) auto
    moreover from this have "plain_call P z" using plain_call_erase[of z y P] 3(2) by simp
    ultimately show ?thesis unfolding ready_def by blast
  qed (use erase_eqD(4)[OF r] plain_call_erase[OF r] in \<open>simp_all add: ready_def\<close>)
qed

lemma scalar_body: "is_scalar x \<Longrightarrow> body_ok x"
  by (cases x) auto

lemma scalar_anchors: "is_scalar x \<Longrightarrow> anchors x = {}"
  by (cases x) auto

lemma erase_leaf: "erase b = erase y \<Longrightarrow> is_Var y \<or> is_scalar y \<Longrightarrow> b = y"
  by (cases y; cases b) auto

lemma cast_arg_body:
  assumes "castable P grp n" and "cast_map n (init_args grp) vars" and "c \<in> set grp" and "x \<in> set (call_args c)"
    and "\<not> inner_arg grp x"
  shows "body_ok (subst (zip (init_args grp) vars) x)"
  using cast_arg[OF assms] cast_map_vars(4)[OF assms(2)] scalar_body by blast

text \<open>The pairs the passes fuse: the first call does not use the second.\<close>

definition fusible :: "expr set \<Rightarrow> expr \<Rightarrow> expr \<Rightarrow> nat \<Rightarrow> bool" where
  "fusible P c1 c2 n \<longleftrightarrow> castable P [c1, c2] n \<and> c1 \<noteq> c2 \<and> (\<forall>x \<in> set (call_args c1). \<not> inner_arg [c1, c2] x) \<and>
     checked_type c2 \<noteq> Some (TupleType [])"

lemma fusibleD:
  assumes "fusible P c1 c2 n"
  shows "castable P [c1, c2] n" "outer_ok P c1" "outer_ok P c2" "c1 \<noteq> c2" "is_Call c1" "is_Call c2"
    "\<forall>v \<in> fparams c1. var_addr v < n" "\<forall>v \<in> fparams c2. var_addr v < n"
    "\<forall>x \<in> set (call_args c1). \<not> inner_arg [c1, c2] x" "checked_type c2 \<noteq> Some (TupleType [])"
  using assms by (auto simp: fusible_def castable_def)

lemma call_args_subst: "map_of m c = None \<Longrightarrow> is_Call c \<Longrightarrow> is_Call (subst m c) \<and> call_args (subst m c) = map (subst m) (call_args c)"
  by (cases c) auto

lemma subst_first_plain:
  assumes f: "fusible P c1 c2 n" and m: "cast_map n (init_args [c1, c2]) vars"
  shows "plain_call (P \<union> set vars) (subst (zip (init_args [c1, c2]) vars) c1)"
proof -
  note F = fusibleD[OF f]
  have "map_of (zip (init_args [c1, c2]) vars) c1 = None" using inner_not_key[OF m] by (simp add: inner_arg_def)
  note c = call_args_subst[OF this F(5)]
  show ?thesis
    using c cast_outer[OF F(1) m F(2,7)] cast_arg_body[OF F(1) m, of c1] F(9)
    by (auto simp: plain_call_def list_all_iff)
qed

lemma inner_second:
  assumes "inner_arg [c1, c2] x" and "x \<in> set (call_args c2)"
  shows "x = c1 \<or> (\<exists>u i. x = TupleGetItem u c1 i)"
proof -
  have "size x < size c2" using assms(2) children_size[of x True c2] by (cases c2 rule: expr.exhaust) auto
  then show ?thesis using assms(1) by (auto simp: inner_arg_def skip_arg_def split: expr.splits)
qed

lemma subst_second_ready:
  assumes f: "fusible P c1 c2 n" and m: "cast_map n (init_args [c1, c2]) vars" and x: "x \<in> set (call_args c2)"
  shows "ready (P \<union> set vars) (subst (zip (init_args [c1, c2]) vars) x)"
proof -
  let ?m = "zip (init_args [c1, c2]) vars"
  note F = fusibleD[OF f]
  consider "x = c1" | u i where "x = TupleGetItem u c1 i" | "\<not> inner_arg [c1, c2] x"
    using inner_second[OF _ x] by blast
  then show ?thesis
  proof cases
    case 1
    then show ?thesis using subst_first_plain[OF f m] by (simp add: ready_def)
  next
    case (2 u i)
    then have "map_of ?m x = None" using inner_not_key[OF m] by (simp add: inner_arg_def skip_arg_def)
    then show ?thesis using 2 subst_first_plain[OF f m] by (simp add: ready_def subst_None)
  next
    case 3
    then show ?thesis using cast_arg_body[OF F(1) m _ x] by (simp add: ready_def)
  qed
qed


section \<open>From the flattened body to the fused call\<close>

lemma EmitTuple_body:
  assumes "body_ok e" and "EmitTuple limit e n = Inr (r, n')"
  shows "body_ok r" "anchors r \<subseteq> anchors e" "anchors e \<noteq> {} \<Longrightarrow> anchors r \<noteq> {}"
    "checked_type e = Some t \<Longrightarrow> checked_type r = Some t" "eval I env r = eval I env e"
proof -
  note s = erase_eqD[OF EmitTuple_emit[OF well_formed_body[OF assms(1)] assms(2)]]
  show "body_ok r" "anchors r \<subseteq> anchors e" "anchors e \<noteq> {} \<Longrightarrow> anchors r \<noteq> {}"
    "checked_type e = Some t \<Longrightarrow> checked_type r = Some t"
    using s(2-4) emit_body[OF assms(1)] emit_anchors[OF assms(1)] emit_anchors_nonempty[OF assms(1)] emit_type[OF assms(1)]
    by simp_all
  show "eval I env r = eval I env e"
    by (rule agree_eval[OF EmitTuple_agree[OF well_formed_body[OF assms(1)] assms(2)]])
qed

lemma fused_call_ok:
  assumes ok: "castable P grp n" and cm: "cast_map n (init_args grp) vars" and ne: "init_args grp \<noteq> []"
    and e: "body_ok e" "anchors e \<noteq> {}" "anchors e \<subseteq> set vars" and r: "EmitTuple limit e k = Inr (r, k')"
  shows "outer_ok P (Call u (Function w vars r t at) (init_args grp) a)"
    and "eval I env (Call u (Function w vars r t at) (init_args grp) a) = eval I (bind vars (map (eval I env) (init_args grp)) env) e"
    and "checked_type e = Some ty \<Longrightarrow> checked_type (Call u (Function w vars r t at) (init_args grp) a) = Some ty"
    and "fparams (Call u (Function w vars r t at) (init_args grp) a) = set vars \<union> \<Union> (fparams ` set (init_args grp))"
proof -
  note E = EmitTuple_body[OF e(1) r]
  have args: "\<forall>x \<in> set (init_args grp). outer_ok P x \<and> anchors x \<noteq> {}" using castable_arg(1,2)[OF ok] by blast
  have len: "length vars = length (init_args grp)" using cm by (simp add: cast_map_def)
  have "list_all2 (\<lambda>p x. checked_type p = checked_type x) vars (init_args grp)"
    using cm by (auto simp: cast_map_def list_all2_conv_all_nth)
  moreover have "list_all is_Var vars" using cast_map_vars(1)[OF cm] by (simp add: list_all_iff)
  moreover have "list_ex (\<lambda>x. anchors x \<noteq> {}) (init_args grp)"
    using args ne by (cases "init_args grp") auto
  ultimately show "outer_ok P (Call u (Function w vars r t at) (init_args grp) a)"
    using args len E(1-3) e(2,3) cast_fresh[OF ok cm] by (simp add: list_all_iff)
  show "eval I env (Call u (Function w vars r t at) (init_args grp) a) = eval I (bind vars (map (eval I env) (init_args grp)) env) e"
    by (simp add: E(5))
  show "checked_type e = Some ty \<Longrightarrow> checked_type (Call u (Function w vars r t at) (init_args grp) a) = Some ty"
    by (simp add: E(4))
  show "fparams (Call u (Function w vars r t at) (init_args grp) a) = set vars \<union> \<Union> (fparams ` set (init_args grp))" by simp
qed



section \<open>Both calls as outputs\<close>

text \<open>Where the second call uses the first one, the replaced second call uses the replaced first one:
  both are visited with one memo map.\<close>

definition linked :: "(expr, expr) dict \<Rightarrow> expr \<Rightarrow> expr \<Rightarrow> expr \<Rightarrow> expr \<Rightarrow> bool" where
  "linked m c d x r \<longleftrightarrow> is_subst m x r \<and> (x = c \<longrightarrow> r = d) \<and>
     (\<forall>u i. x = TupleGetItem u c i \<and> map_of m x = None \<longrightarrow> (\<exists>w. r = TupleGetItem w d i))"

lemma replace_rec:
  assumes "stable_map m" and img: "\<forall>x y. map_of m x = Some y \<longrightarrow> size y \<le> B"
  shows "rec_rel {} (\<lambda>e. params_kept m e \<and> size e \<le> B) (\<lambda>e r. is_subst m e r \<and> size e \<le> B) (mutate k (replace_override m))"
proof (rule mutate_rel)
  show "\<forall>e. params_kept m e \<and> size e \<le> B \<longrightarrow> (\<forall>k \<in> set (children True e). params_kept m k \<and> size k \<le> B)"
    using params_kept_child children_size by fastforce
  show "\<forall>e y. (params_kept m e \<and> size e \<le> B) \<and> replace_override m e = Inr (Visit y) \<longrightarrow>
      (params_kept m y \<and> size y \<le> B) \<and> (\<forall>r. is_subst m y r \<and> size y \<le> B \<longrightarrow> is_subst m e r \<and> size e \<le> B)"
  proof (intro allI impI, elim conjE)
    fix e y assume e: "replace_override m e = Inr (Visit y)" "size e \<le> B"
    then have x: "map_of m e = Some y" "is_Call e \<or> is_TupleGetItem e" by (simp_all add: replace_override_Visit)
    then have "subst m y = y" "params_kept m y" "\<not> is_Var e" "size y \<le> B"
      using assms unfolding stable_map_def by (blast, blast, cases e, auto)
    then show "(params_kept m y \<and> size y \<le> B) \<and> (\<forall>r. is_subst m y r \<and> size y \<le> B \<longrightarrow> is_subst m e r \<and> size e \<le> B)"
      using subst_replaced[of m e y] e by (simp add: is_subst_def)
  qed
  have "is_subst m e r" if "rebuilt (\<lambda>e r. is_subst m e r \<and> size e \<le> B) e r" "params_kept m e" "replace_override m e = Inr Default" for e r
  proof -
    have l: "list_all2 (is_subst m) xs ys" if "list_all2 (\<lambda>e r. is_subst m e r \<and> size e \<le> B) xs ys" for xs ys
      using that by (rule list_all2_mono) simp
    have "rebuilt (is_subst m) e r" using that(1) by (cases e) (auto dest: l)
    then show ?thesis using rebuilt_subst that by blast
  qed
  then show "\<forall>e r. (params_kept m e \<and> size e \<le> B) \<and> e \<notin> {} \<and> replace_override m e = Inr Default \<and>
      rebuilt (\<lambda>e r. is_subst m e r \<and> size e \<le> B) e r \<longrightarrow> is_subst m e r \<and> size e \<le> B" by blast
  show "\<forall>e y. (params_kept m e \<and> size e \<le> B) \<and> replace_override m e = Inr (Return y) \<longrightarrow> is_subst m e y \<and> size e \<le> B"
    using subst_replaced replace_override_Return by (auto simp: is_subst_def)
qed

lemma linked_rec:
  assumes "stable_map m" and c: "is_Call c" "map_of m c = None"
    and img: "\<forall>x y. map_of m x = Some y \<longrightarrow> is_Var y"
  shows "rec_rel {c} (params_kept m) (linked m c d) (mutate k (replace_override m))"
proof (rule mutate_rel)
  show "\<forall>e r. params_kept m e \<and> e \<notin> {c} \<and> replace_override m e = Inr Default \<and> rebuilt (linked m c d) e r \<longrightarrow> linked m c d e r"
  proof (intro allI impI, elim conjE)
    fix e r assume e: "params_kept m e" "e \<notin> {c}" "replace_override m e = Inr Default" "rebuilt (linked m c d) e r"
    have l: "list_all2 (is_subst m) xs ys" if "list_all2 (linked m c d) xs ys" for xs ys
      using that by (rule list_all2_mono) (simp add: linked_def)
    have "rebuilt (is_subst m) e r" using e(4) by (cases e) (auto dest: l simp: linked_def)
    then have "is_subst m e r" using rebuilt_subst e by blast
    then show "linked m c d e r" using e by (auto simp: linked_def)
  qed
  show "\<forall>e y. params_kept m e \<and> replace_override m e = Inr (Visit y) \<longrightarrow>
      params_kept m y \<and> (\<forall>r. linked m c d y r \<longrightarrow> linked m c d e r)"
  proof (intro allI impI, elim conjE)
    fix e y assume e: "replace_override m e = Inr (Visit y)"
    then have x: "map_of m e = Some y" "is_Call e \<or> is_TupleGetItem e" by (simp_all add: replace_override_Visit)
    then have "subst m y = y" "params_kept m y" "\<not> is_Var e"
      using assms(1) unfolding stable_map_def by (blast, blast, cases e, auto)
    then show "params_kept m y \<and> (\<forall>r. linked m c d y r \<longrightarrow> linked m c d e r)"
      using subst_replaced[of m e y] e x c(2) by (auto simp: is_subst_def linked_def)
  qed
  show "\<forall>e y. params_kept m e \<and> replace_override m e = Inr (Return y) \<longrightarrow> linked m c d e y"
    using subst_replaced replace_override_Return[of m] c(2) by (fastforce simp: is_subst_def linked_def)
qed (use params_kept_child in blast)

lemma replace_pair:
  assumes m: "stable_map m" "\<forall>x y. map_of m x = Some y \<longrightarrow> is_Var y" and pk: "params_kept m c1" "params_kept m c2"
    and c1: "is_Call c1" "map_of m c1 = None" and c2: "map_of m c2 = None" "size c1 < size c2" "c2 = Call u f as a"
    and r: "ReplaceParams limit m (Tuple v [c1, c2]) n = Inr (r, n')"
  shows "\<exists>w r1 w' f' bs. r = Tuple w [r1, Call w' f' bs a] \<and> list_all2 (linked m c1 r1) as bs"
proof -
  let ?ov = "replace_override m" and ?s0 = "\<lparr>memo_map = [], next_addr = n\<rparr>"
  obtain s' where mu: "mutate limit ?ov (Tuple v [c1, c2]) ?s0 = Inr (r, s')"
    using r by (auto simp: ReplaceParams_def visit_new_def and_then_eq_Inr)
  then obtain k where k: "limit = Suc k" by (cases limit) auto
  obtain r1 s1 r2 s2 w where 1: "mutate k ?ov c1 ?s0 = Inr (r1, s1)" and 2: "mutate k ?ov c2 s1 = Inr (r2, s2)" and rr: "r = Tuple w [r1, r2]"
    using mu k by (auto simp: dispatch_def and_then_eq_Inr)
  obtain j where j: "k = Suc j" using 1 by (cases k) auto
  have img: "\<forall>x y. map_of m x = Some y \<longrightarrow> size y \<le> size c1" using m(2) by (metis is_Var.elims(2) expr.size(16) le0)
  have "memo_rel {} (\<lambda>e r. is_subst m e r \<and> size e \<le> size c1) s1"
    by (rule rec_relD(2)[OF replace_rec[OF m(1) img] _ _ 1]) (simp_all add: pk(1) memo_rel_def)
  then have memo: "map_of (memo_map s1) x = Some y \<longrightarrow> is_subst m x y \<and> size x \<le> size c1" for x y by (simp add: memo_rel_def)
  have in1: "map_of (memo_map s1) c1 = Some r1" using 1 j by (auto simp: and_then_eq_Inr update_conv')
  have ml: "memo_rel {c1} (linked m c1 r1) s1"
    unfolding memo_rel_def using in1 memo by (fastforce simp: linked_def)
  have "map_of (memo_map s1) c2 = None" using memo c2(2) by (metis leD option.exhaust)
  moreover have "?ov c2 = Inr Default" by (rule replace_override_Default[OF c2(1)])
  ultimately obtain f' t1 bs t2 w' where 3: "mutate j ?ov f s1 = Inr (f', t1)" "visit_list (mutate j ?ov) as t1 = Inr (bs, t2)" "r2 = Call w' f' bs a"
    using 2 j by (auto simp: c2(3) dispatch_def and_then_eq_Inr)
  note rl = linked_rec[OF m(1) c1 m(2), of r1 j]
  have "memo_rel {c1} (linked m c1 r1) t1"
    by (rule rec_relD(2)[OF rl _ ml 3(1)]) (use params_kept_child[OF pk(2)] c2(3) in simp)
  then have "list_all2 (linked m c1 r1) as bs"
    using visit_list_rel(1)[OF rl _ _ 3(2)] params_kept_child[OF pk(2)] c2(3) by simp
  then show ?thesis using rr 3(3) by blast
qed



section \<open>The fused call\<close>

lemma fusible_args:
  assumes "fusible P c1 c2 n"
  shows "init_args [c1, c2] \<noteq> []"
proof -
  note F = fusibleD[OF assms]
  obtain u f as a where c: "c1 = Call u f as a" using F(5) by (cases c1) auto
  then obtain x where x: "x \<in> set as" "anchors x \<noteq> {}" using F(2) unfolding c outer_ok.simps list_ex_iff by blast
  then have "\<not> is_scalar x" using scalar_anchors by blast
  then have "x \<in> set (init_args [c1, c2])" using F(9) x c by (simp add: set_init_args)
  then show ?thesis by auto
qed

lemma cast_second_call:
  assumes f: "fusible P c1 c2 n" and m: "cast_map n (init_args [c1, c2]) vars"
    and r: "erase r = erase (subst (zip (init_args [c1, c2]) vars) c2)"
  shows "\<exists>w g bs a. r = Call w g bs a" "map erase (call_args r) = map erase (map (subst (zip (init_args [c1, c2]) vars)) (call_args c2))"
proof -
  let ?m = "zip (init_args [c1, c2]) vars"
  have "map_of ?m c2 = None" using inner_not_key[OF m] by (simp add: inner_arg_def)
  note c = call_args_subst[OF this fusibleD(6)[OF f]]
  then obtain u g bs a where s: "subst ?m c2 = Call u g bs a" by (cases "subst ?m c2") auto
  then show "\<exists>w g bs a. r = Call w g bs a" using r by (cases r) auto
  then show "map erase (call_args r) = map erase (map (subst ?m) (call_args c2))" using r s c by auto
qed

lemma cast_second:
  assumes f: "fusible P c1 c2 n" and m: "cast_map n (init_args [c1, c2]) vars"
    and r: "erase r = erase (subst (zip (init_args [c1, c2]) vars) c2)"
  shows "outer_ok (P \<union> set vars) r" "\<forall>x \<in> set (call_args r). ready (P \<union> set vars) x"
    "anchors r \<subseteq> set vars" "checked_type r = checked_type c2"
    "eval I (bind vars (map (eval I env) (init_args [c1, c2])) env) r = eval I env c2"
proof -
  let ?m = "zip (init_args [c1, c2]) vars"
  note F = fusibleD[OF f] and ers = cast_second_call(2)[OF f m r]
  show "\<forall>x \<in> set (call_args r). ready (P \<union> set vars) x"
  proof
    fix b assume "b \<in> set (call_args r)"
    then obtain i where i: "i < length (call_args r)" "b = call_args r ! i" by (auto simp: in_set_conv_nth)
    then have "i < length (call_args c2)" "erase b = erase (subst ?m (call_args c2 ! i))"
      using ers by (metis length_map, metis length_map nth_map)
    then show "ready (P \<union> set vars) b" using ready_erase subst_second_ready[OF f m, of "call_args c2 ! i"] by auto
  qed
  show "anchors r \<subseteq> set vars"
    unfolding erase_eqD(3)[OF r] by (rule cast_anchors[OF F(1) m cast_covered[OF F(1) m]]) simp
  show "outer_ok (P \<union> set vars) r" unfolding erase_eqD(5)[OF r] by (rule cast_outer[OF F(1) m F(3,8)])
  show "checked_type r = checked_type c2" unfolding erase_eqD(2)[OF r] by (rule cast_type[OF F(1) m F(3)])
  show "eval I (bind vars (map (eval I env) (init_args [c1, c2])) env) r = eval I env c2"
    unfolding erase_eqD(1)[OF r] by (rule cast_value[OF F(1) m F(3)])
qed

lemma cast_first:
  assumes f: "fusible P c1 c2 n" and m: "cast_map n (init_args [c1, c2]) vars"
    and r: "erase r = erase (subst (zip (init_args [c1, c2]) vars) c1)"
  shows "plain_call (P \<union> set vars) r" "anchors r \<subseteq> set vars" "checked_type r = checked_type c1"
    "eval I (bind vars (map (eval I env) (init_args [c1, c2])) env) r = eval I env c1"
proof -
  note F = fusibleD[OF f]
  show "plain_call (P \<union> set vars) r" using plain_call_erase[OF r] subst_first_plain[OF f m] by simp
  show "anchors r \<subseteq> set vars"
    unfolding erase_eqD(3)[OF r] by (rule cast_anchors[OF F(1) m cast_covered[OF F(1) m]]) simp
  show "checked_type r = checked_type c1" unfolding erase_eqD(2)[OF r] by (rule cast_type[OF F(1) m F(2)])
  show "eval I (bind vars (map (eval I env) (init_args [c1, c2])) env) r = eval I env c1"
    unfolding erase_eqD(1)[OF r] by (rule cast_value[OF F(1) m F(2)])
qed

text \<open>What the outputs of a fused call are.\<close>

definition fused_value :: "'v interp \<Rightarrow> 'v env \<Rightarrow> expr \<Rightarrow> expr \<Rightarrow> bool \<Rightarrow> 'v val" where
  "fused_value I env c1 c2 both = (if both
     then TupleV (tensors (checked_type c1) (eval I env c1) @ tensors (checked_type c2) (eval I env c2))
     else eval I env c2)"

definition fused_type :: "expr \<Rightarrow> expr \<Rightarrow> bool \<Rightarrow> rtype option" where
  "fused_type c1 c2 both = (if both
     then Some (TupleType (tensor_types (checked_type c1) @ tensor_types (checked_type c2))) else checked_type c2)"

text \<open>The body before \<^verbatim>\<open>EmitTuple\<close>.\<close>

definition fused_body :: "'v interp \<Rightarrow> expr \<Rightarrow> expr \<Rightarrow> bool \<Rightarrow> expr list \<Rightarrow> expr \<Rightarrow> bool" where
  "fused_body I c1 c2 both vars e \<longleftrightarrow> body_ok e \<and> anchors e \<noteq> {} \<and> anchors e \<subseteq> set vars \<and> checked_type e = fused_type c1 c2 both \<and>
     (\<forall>env. eval I (bind vars (map (eval I env) (init_args [c1, c2])) env) e = fused_value I env c1 c2 both)"

lemma serial_body:
  assumes f: "fusible P c1 c2 n" and m: "cast_map n (init_args [c1, c2]) vars"
    and r: "erase r = erase (subst (zip (init_args [c1, c2]) vars) c2)"
    and e: "serial_flatten limit r vars k = Inr (e, k')"
  shows "fused_body I c1 c2 False vars e"
proof -
  obtain w g bs a where c: "r = Call w g bs a" using cast_second_call(1)[OF f m r] by blast
  note C = cast_second[OF f m r]
  have "list_all is_Var vars" using cast_map_vars(1)[OF m] by (simp add: list_all_iff)
  moreover have "\<forall>x \<in> set bs. ready (P \<union> set vars) x" using C(2) c by simp
  ultimately have "unfolds I r e" using serial_flatten_unfolds[of "P \<union> set vars" w g bs a] C(1) c e by blast
  then show ?thesis using C(3-5) unfolding fused_body_def unfolds_def fused_type_def fused_value_def by auto
qed

text \<open>The second call uses a component of the first one, or the first one itself.\<close>

definition uses :: "expr \<Rightarrow> expr \<Rightarrow> bool" where
  "uses c2 c1 \<longleftrightarrow> c1 \<in> set (map producer (call_args c2))"

lemma producer_size: "size (producer x) \<le> size x"
  by (cases x) (auto simp: producer_def)

lemma producer_eq: "producer x = c \<longleftrightarrow> (x = c \<and> \<not> is_TupleGetItem x) \<or> (\<exists>u i. x = TupleGetItem u c i)"
  by (cases x) (auto simp: producer_def)

lemma uses_iff: "uses c2 c1 \<longleftrightarrow> (\<exists>x \<in> set (call_args c2). (x = c1 \<and> \<not> is_TupleGetItem x) \<or> (\<exists>u i. x = TupleGetItem u c1 i))"
proof -
  have "uses c2 c1 \<longleftrightarrow> (\<exists>x \<in> set (call_args c2). producer x = c1)" unfolding uses_def by auto
  then show ?thesis unfolding producer_eq .
qed

lemma parallel_body:
  assumes f: "fusible P c1 c2 n" and m: "cast_map n (init_args [c1, c2]) vars" and nu: "\<not> uses c2 c1"
    and r1: "erase r1 = erase (subst (zip (init_args [c1, c2]) vars) c1)"
    and r2: "erase r2 = erase (subst (zip (init_args [c1, c2]) vars) c2)"
  shows "r1 \<notin> set (map producer (call_args r2))"
    and "parallel_flatten limit [r1, r2] k = Inr (e, k') \<Longrightarrow> fused_body I c1 c2 True vars e"
proof -
  let ?m = "zip (init_args [c1, c2]) vars"
  note F = fusibleD[OF f] and C1 = cast_first[OF f m r1]
  have ni: "\<not> inner_arg [c1, c2] x" if "x \<in> set (call_args c2)" for x
  proof
    assume "inner_arg [c1, c2] x"
    moreover have "\<not> is_TupleGetItem c1" using F(5) by (cases c1) auto
    ultimately show False using inner_second[of c1 c2 x] that nu unfolding uses_iff by blast
  qed
  obtain w g bs a where c: "r2 = Call w g bs a" using cast_second_call(1)[OF f m r2] by blast
  note C2 = cast_second[OF f m r2]
  have ers: "map erase bs = map erase (map (subst ?m) (call_args c2))" using cast_second_call(2)[OF f m r2] c by simp
  have bs: "b \<in> set vars \<or> is_scalar b" if b: "b \<in> set bs" for b
  proof -
    obtain i where i: "i < length bs" "b = bs ! i" using b by (auto simp: in_set_conv_nth)
    then have "i < length (call_args c2)" "erase b = erase (subst ?m (call_args c2 ! i))"
      using ers by (metis length_map, metis length_map nth_map)
    moreover have "subst ?m (call_args c2 ! i) \<in> set vars \<or> is_scalar (subst ?m (call_args c2 ! i))"
      using cast_arg[OF F(1) m, of c2] ni \<open>i < length (call_args c2)\<close> by simp
    moreover from this have "is_Var (subst ?m (call_args c2 ! i)) \<or> is_scalar (subst ?m (call_args c2 ! i))"
      using cast_map_vars(1)[OF m] by blast
    ultimately show ?thesis using erase_leaf by metis
  qed
  have "is_Call r1" using C1(1) by (simp add: plain_call_def)
  moreover have "\<not> is_Call (producer b) " if "b \<in> set bs" for b
    using bs[OF that] cast_map_vars(1)[OF m, of b] by (cases b) (auto simp: producer_def)
  ultimately show "r1 \<notin> set (map producer (call_args r2))" using c by auto
  have "list_all body_ok (call_args r2)"
    using bs c scalar_body cast_map_vars(4)[OF m] by (auto simp: list_all_iff)
  note pf = parallel_flatten_ok[OF _ _ C2(1) this, of r1 limit k e k']
  assume e: "parallel_flatten limit [r1, r2] k = Inr (e, k')"
  have p: "outer_ok (P \<union> set vars) r1" "list_all body_ok (call_args r1)" using C1(1) by (simp_all add: plain_call_def)
  show "fused_body I c1 c2 True vars e"
    unfolding fused_body_def fused_type_def fused_value_def if_P[OF TrueI]
  proof (intro conjI allI)
    show "body_ok e" by (rule pf(2)[OF p e])
    show "anchors e \<noteq> {}" using pf(5)[OF p e] C2(4) F(10) by simp
    show "anchors e \<subseteq> set vars" using pf(3)[OF p e] C2(3) C1(2) by blast
    show "checked_type e = Some (TupleType (tensor_types (checked_type c1) @ tensor_types (checked_type c2)))"
      using pf(4)[OF p e] C2(4) C1(3) by simp
  qed (simp add: pf(1)[OF p e] C2(4,5) C1(3,4))
qed

lemma special_body:
  assumes f: "fusible P c1 c2 n" and m: "cast_map n (init_args [c1, c2]) vars" and us: "uses c2 c1"
    and rp: "ReplaceParams limit (zip (init_args [c1, c2]) vars) (Tuple v [c1, c2]) j = Inr (r, j')"
  shows "\<exists>w r1 r2. r = Tuple w [r1, r2] \<and> is_Call r2 \<and> r1 \<in> set (map producer (call_args r2)) \<and>
    (\<forall>limit k e k'. special_serial_flatten limit [r1, r2] k = Inr (e, k') \<longrightarrow> fused_body I c1 c2 True vars e)"
proof -
  let ?m = "zip (init_args [c1, c2]) vars"
  note F = fusibleD[OF f]
  obtain u f2 as a where c2: "c2 = Call u f2 as a" using F(6) by (cases c2) auto
  note keys = cast_keys[OF F(1) m]
  have none: "map_of ?m c1 = None" "map_of ?m c2 = None" using inner_not_key[OF m] by (simp_all add: inner_arg_def)
  have img: "\<forall>x y. map_of ?m x = Some y \<longrightarrow> is_Var y" using cast_map_lookup(2)[OF m] cast_map_vars(1)[OF m] by blast
  obtain x where x: "x \<in> set as" "(x = c1 \<and> \<not> is_TupleGetItem x) \<or> (\<exists>u i. x = TupleGetItem u c1 i)" using us c2 by (auto simp: uses_iff)
  have sz: "size c1 < size c2" using x children_size[of x True c2] c2 by auto
  obtain w r1 w' g bs where r: "r = Tuple w [r1, Call w' g bs a]" and link: "list_all2 (linked ?m c1 r1) as bs"
    using replace_pair[OF cast_stable[OF F(1) m] img params_kept_outer[OF keys F(2)] params_kept_outer[OF keys F(3)] F(5)
        none sz c2 rp] by blast
  let ?r2 = "Call w' g bs a"
  have out: "outer_ok P (Tuple v [c1, c2])"
    using F(2,3,5,6) by (cases c1; cases c2) (auto simp: list_ex_iff simp del: outer_ok.simps(1,2))
  have er: "erase r = erase (subst ?m (Tuple v [c1, c2]))"
    by (rule ReplaceParams_subst[OF cast_stable[OF F(1) m] params_kept_outer[OF keys out] rp])
  have e1: "erase r1 = erase (subst ?m c1)" and e2: "erase ?r2 = erase (subst ?m c2)" using er r by auto
  note C1 = cast_first[OF f m e1]
  note C2 = cast_second[OF f m e2]
  have arg: "body_ok b \<or> b = r1 \<or> (\<exists>u i. b = TupleGetItem u r1 i)" if b: "b \<in> set bs" for b
  proof -
    obtain i where i: "i < length bs" "b = bs ! i" using b by (auto simp: in_set_conv_nth)
    let ?x = "as ! i"
    have l: "linked ?m c1 r1 ?x b" and xi: "?x \<in> set (call_args c2)" using link i c2 by (auto simp: list_all2_conv_all_nth)
    show ?thesis
    proof (cases "inner_arg [c1, c2] ?x")
      case True
      then show ?thesis using inner_second[OF True xi] l inner_not_key[OF m True] by (auto simp: linked_def)
    next
      case False
      have "body_ok (subst ?m ?x)" by (rule cast_arg_body[OF F(1) m _ xi False]) simp
      then show ?thesis using erase_eqD(4)[of b "subst ?m ?x"] l by (simp add: linked_def is_subst_def)
    qed
  qed
  have mem: "r1 \<in> set (map producer bs)"
  proof -
    obtain i where i: "i < length as" "x = as ! i" using x(1) by (auto simp: in_set_conv_nth)
    then have l: "linked ?m c1 r1 x (bs ! i)" and "bs ! i \<in> set bs" using link by (auto simp: list_all2_conv_all_nth)
    moreover have "map_of ?m x = None" using x(2) inner_not_key[OF m, of x] by (auto simp: inner_arg_def skip_arg_def)
    moreover have "is_Call r1" using C1(1) by (simp add: plain_call_def)
    ultimately have "producer (bs ! i) = r1" using x(2) by (cases r1) (auto simp: linked_def producer_def)
    then show ?thesis using \<open>bs ! i \<in> set bs\<close> by (metis image_eqI set_map)
  qed
  have ne: "r1 \<noteq> ?r2"
  proof
    assume eq: "r1 = ?r2"
    obtain b where "b \<in> set bs" "producer b = ?r2" using mem eq by auto
    then have "size ?r2 \<le> size b" using producer_size[of b] by simp
    then show False using size_elem_list[OF \<open>b \<in> set bs\<close>] by simp
  qed
  have "fused_body I c1 c2 True vars e" if e: "special_serial_flatten limit [r1, ?r2] k = Inr (e, k')" for limit k e k'
  proof -
    have ab: "\<forall>x \<in> set bs. body_ok x \<or> x = r1 \<or> (\<exists>u i. x = TupleGetItem u r1 i)" using arg by blast
    note sf = special_serial_flatten_ok[OF C1(1) C2(1) ne ab e]
    show ?thesis
      unfolding fused_body_def fused_type_def fused_value_def if_P[OF TrueI]
    proof (intro conjI allI)
      show "body_ok e" by (rule sf(2))
      show "anchors e \<noteq> {}" using sf(5) C2(4) F(10) by simp
      show "anchors e \<subseteq> set vars" using sf(3) C2(3) C1(2) by blast
      show "checked_type e = Some (TupleType (tensor_types (checked_type c1) @ tensor_types (checked_type c2)))"
        using sf(4) C2(4) C1(3) by simp
    qed (simp only: sf(1) C2(4,5) C1(3,4))
  qed
  then show ?thesis using r mem by auto
qed

lemma fusible_mono: "fusible P c1 c2 n \<Longrightarrow> n \<le> k \<Longrightarrow> fusible P c1 c2 k"
  by (auto simp: fusible_def castable_def intro: less_le_trans)

definition pair_outputs :: "expr \<Rightarrow> expr \<Rightarrow> bool \<Rightarrow> expr list" where
  "pair_outputs c1 c2 both = (if both then [c1, c2] else [c2])"

definition pair_group :: "expr \<Rightarrow> expr \<Rightarrow> bool \<Rightarrow> group_op" where
  "pair_group c1 c2 both = (GroupOp [c1, c2])\<lparr>goutput := pair_outputs c1 c2 both\<rparr>"

lemma flatten_expr_body:
  assumes f: "fusible P c1 c2 n"
    and c: "cast_param limit (pair_group c1 c2 both) (if both then Tuple v [c1, c2] else c2) n = Inr ((params, e), k)"
    and fl: "flatten_expr limit e params k = Inr (e', k')"
  shows "cast_map n (init_args [c1, c2]) params \<and>
    (\<exists>e3 j. fused_body I c1 c2 both params e3 \<and> EmitTuple limit e3 j = Inr (e', k'))"
proof -
  note F = fusibleD[OF f]
  have grp: "group (pair_group c1 c2 both) = [c1, c2]" "gargs (pair_group c1 c2 both) = init_args [c1, c2]"
    by (simp_all add: pair_group_def GroupOp_def)
  have out: "outer_ok P (if both then Tuple v [c1, c2] else c2)"
    using F(2,3,5,6) by (cases c1; cases c2) (auto simp: list_ex_iff simp del: outer_ok.simps(1,2))
  note cp = cast_param_subst[OF _ _ out c, unfolded grp, OF F(1) refl]
  show ?thesis
  proof (cases both)
    case False
    have er: "erase e = erase (subst (zip (init_args [c1, c2]) params) c2)" using cp(2) False by simp
    obtain w g bs a where e: "e = Call w g bs a" using cast_second_call(1)[OF f cp(1) er] by blast
    then obtain e3 j where "serial_flatten limit e params k = Inr (e3, j)" "EmitTuple limit e3 j = Inr (e', k')"
      using fl by (auto simp: flatten_expr_def and_then_eq_Inr)
    then show ?thesis using serial_body[OF f cp(1) er, of limit k e3 j I] cp(1) False by auto
  next
    case both: True
    have er: "erase e = erase (subst (zip (init_args [c1, c2]) params) (Tuple v [c1, c2]))" using cp(2) both by simp
    show ?thesis
    proof (cases "uses c2 c1")
      case True
      then obtain w r1 r2 where r: "e = Tuple w [r1, r2]" "is_Call r2" "r1 \<in> set (map producer (call_args r2))"
        and sp: "\<forall>limit k e k'. special_serial_flatten limit [r1, r2] k = Inr (e, k') \<longrightarrow> fused_body I c1 c2 True params e"
        using special_body[OF f cp(1) True, of limit v] cp(3) both by (auto simp del: set_map) blast
      obtain w' g bs a where "r2 = Call w' g bs a" using r(2) by (cases r2) auto
      then obtain e3 j where "special_serial_flatten limit [r1, r2] k = Inr (e3, j)" "EmitTuple limit e3 j = Inr (e', k')"
        using fl r(1,3) by (auto simp: flatten_expr_def and_then_eq_Inr py_nth_def)
      moreover from this have "fused_body I c1 c2 True params e3" using sp by blast
      ultimately show ?thesis using cp(1) both by auto
    next
      case False
      then obtain w r1 r2 where r: "e = Tuple w [r1, r2]"
        "erase r1 = erase (subst (zip (init_args [c1, c2]) params) c1)" "erase r2 = erase (subst (zip (init_args [c1, c2]) params) c2)"
        using er by (cases e) (auto simp: Cons_eq_map_conv)
      note pb = parallel_body[OF f cp(1) False r(2,3)]
      obtain w' g bs a where r2: "r2 = Call w' g bs a" using cast_second_call(1)[OF f cp(1) r(3)] by blast
      then obtain e3 j where "parallel_flatten limit [r1, r2] k = Inr (e3, j)" "EmitTuple limit e3 j = Inr (e', k')"
        using fl r(1) pb(1) by (auto simp: flatten_expr_def and_then_eq_Inr py_nth_def)
      then show ?thesis using pb(2)[of limit k e3 j I] cp(1) both by auto
    qed
  qed
qed

theorem fuse_call:
  assumes f: "fusible P c1 c2 n" and r: "fuse limit (pair_group c1 c2 both) n = Inr (g', n')"
  shows "\<exists>u w ps b t at. fused_func g' = Some (Call u (Function w ps b t at) (init_args [c1, c2]) None) \<and>
      outer_ok P (Call u (Function w ps b t at) (init_args [c1, c2]) None) \<and>
      (\<forall>env. eval I env (Call u (Function w ps b t at) (init_args [c1, c2]) None) = fused_value I env c1 c2 both) \<and>
      checked_type (Call u (Function w ps b t at) (init_args [c1, c2]) None) = fused_type c1 c2 both \<and>
      goutput g' = pair_outputs c1 c2 both \<and> ps \<noteq> [] \<and> (\<forall>v \<in> set ps. n \<le> var_addr v \<and> var_addr v < n')"
proof -
  have grp: "group (pair_group c1 c2 both) = [c1, c2]" "gargs (pair_group c1 c2 both) = init_args [c1, c2]"
    "goutput (pair_group c1 c2 both) = pair_outputs c1 c2 both"
    by (simp_all add: pair_group_def GroupOp_def)
  obtain e n1 params e1 k e' k' rt tag where 1: "ret_expr (pair_group c1 c2 both) n = Inr (e, n1)"
    and 2: "cast_param limit (pair_group c1 c2 both) e n1 = Inr ((params, e1), k)"
    and 3: "flatten_expr limit e1 params k = Inr (e', k')"
    and n': "n' = Suc (Suc (Suc k'))"
    and 5: "g' = (pair_group c1 c2 both)\<lparr>fused_func := Some (Call (Suc (Suc k'))
      (Function (Suc k') params e' (Some rt) (Some [(''tag'', StrVal tag)])) (init_args [c1, c2]) None)\<rparr>"
    using r grp(2) by (auto simp: fuse_def and_then_eq_Inr Let_def)
  have ty: "\<exists>t. checked_type c2 = Some t"
    using 1 grp(3) by (cases "checked_type c2") (auto simp: ret_expr_def pair_outputs_def and_then_eq_Inr split: if_splits option.splits)
  have e: "e = (if both then Tuple n [c1, c2] else c2)" "n \<le> n1"
    using 1 grp by (auto simp: ret_expr_def pair_outputs_def and_then_eq_Inr split: if_splits)
  note f1 = fusible_mono[OF f e(2)] note F = fusibleD[OF f1]
  obtain e3 j where cm: "cast_map n1 (init_args [c1, c2]) params" and e3: "fused_body I c1 c2 both params e3"
    and em: "EmitTuple limit e3 j = Inr (e', k')"
    using flatten_expr_body[OF f1 2[unfolded e(1)] 3] by blast
  have b: "body_ok e3" "anchors e3 \<noteq> {}" "anchors e3 \<subseteq> set params" "checked_type e3 = fused_type c1 c2 both"
    "\<And>env. eval I (bind params (map (eval I env) (init_args [c1, c2])) env) e3 = fused_value I env c1 c2 both"
    using e3 unfolding fused_body_def by blast+
  obtain t3 where t3: "checked_type e3 = Some t3" using b(4) ty by (cases both) (auto simp: fused_type_def)
  note ok = fused_call_ok[OF F(1) cm fusible_args[OF f1] b(1-3) em]
  let ?c = "Call (Suc (Suc k')) (Function (Suc k') params e' (Some rt) (Some [(''tag'', StrVal tag)])) (init_args [c1, c2]) None"
  have "fused_func g' = Some ?c" "goutput g' = pair_outputs c1 c2 both" using 5 grp(3) by simp_all
  moreover have "outer_ok P ?c" "checked_type ?c = fused_type c1 c2 both" "\<forall>env. eval I env ?c = fused_value I env c1 c2 both"
    using ok(1) ok(3)[OF t3] ok(2)[of I] b(4,5) t3 by (simp_all del: outer_ok.simps eval.simps checked_type.simps)
  moreover have "params \<noteq> []" using fusible_args[OF f1] cm by (auto simp: cast_map_def)
  moreover have "n \<le> var_addr v \<and> var_addr v < n'" if v: "v \<in> set params" for v
  proof -
    have "var_addr v < n1 + length (init_args [c1, c2])" "n1 \<le> var_addr v"
      using cm v by (auto simp: cast_map_def in_set_conv_nth)
    moreover have "n1 + length (init_args [c1, c2]) \<le> k"
      using 2 grp(2) advances_mutators(1)[of "n1 + length (init_args [c1, c2])"]
      by (fastforce simp: cast_param_def and_then_eq_Inr Let_def advances_def)
    moreover have "k \<le> k'" using 3 advances_flatten_expr[of k limit e1 params] by (auto simp: advances_def)
    ultimately show ?thesis using e(2) n' by simp
  qed
  ultimately show ?thesis by blast
qed



section \<open>Properties\<close>

text \<open>C9: \<^verbatim>\<open>GroupOp.fuse\<close> on a pair of calls of the stencil fragment, of which the first does not use the
  second, makes one call of a new closed function on the arguments of the group. The call computes the
  outputs of the group: the value of the second call if only it is an output, otherwise the tuple
  of the tensors of both, and it has the corresponding type.\<close>

theorem GroupOp_fuse_refines:
  fixes I :: "'v interp"
  assumes "fusible P c1 c2 n" and "fuse limit (pair_group c1 c2 both) n = Inr (g', n')"
  shows "\<exists>u w ps b t at. fused_func g' = Some (Call u (Function w ps b t at) (init_args [c1, c2]) None) \<and>
      outer_ok P (Call u (Function w ps b t at) (init_args [c1, c2]) None) \<and>
      (\<forall>env. eval I env (Call u (Function w ps b t at) (init_args [c1, c2]) None) = fused_value I env c1 c2 both) \<and>
      checked_type (Call u (Function w ps b t at) (init_args [c1, c2]) None) = fused_type c1 c2 both"
  using fuse_call[OF assms, of I] by blast

lemma ex_fusible: "fusible {ex_in} ex_b ex_c 6"
  by (simp add: fusible_def castable_def ex_defs inner_arg_def skip_arg_def tensor_typed_def stencil_rel_def grid_ops_def)

theorem GroupOp_fuse_refines_witness:
  "\<exists>g' n' c. fuse 40 (pair_group ex_b ex_c True) 6 = Inr (g', n') \<and> fused_func g' = Some c \<and> call_args c = [ex_a] \<and>
     (\<forall>env. eval (undefined :: nat interp) env c = TupleV [eval undefined env ex_b, eval undefined env ex_c])"
proof -
  have "(case fuse 40 (pair_group ex_b ex_c True) 6 of Inr _ \<Rightarrow> True | Inl _ \<Rightarrow> False)" by code_simp
  then obtain g' n' where f: "fuse 40 (pair_group ex_b ex_c True) 6 = Inr (g', n')" by (auto split: sum.splits)
  have i: "init_args [ex_b, ex_c] = [ex_a]" by code_simp
  have t: "checked_type ex_b = Some grid_type" "checked_type ex_c = Some grid_type" by (simp_all add: ex_defs stencil_rel_def grid_ops_def)
  have v: "fused_value (undefined :: nat interp) env ex_b ex_c True = TupleV [eval undefined env ex_b, eval undefined env ex_c]" for env
    using t by (simp add: fused_value_def tensors_def grid_type_def)
  from GroupOp_fuse_refines[OF ex_fusible f, of "undefined :: nat interp"] f show ?thesis
    unfolding i v by (metis call_args.simps(1))
qed

end
