(* ===== verification/Build_Graph.thy ===== *)
theory Build_Graph
  imports Samples
begin

text \<open>
  \<^verbatim>\<open>BuildGraph\<close>, which lists the calls of a function in dependency order, in its two versions
  (\<^verbatim>\<open>relay/transform/utils.py\<close>, used by the fusion pass, and \<^verbatim>\<open>relay/transform/mlir.py\<close>, used by
  the code generator). The sorting loop has no bound of its own: it is a \<^const>\<open>while_option\<close>
  whose value \<^const>\<open>None\<close> is a run that never returns.
\<close>

section \<open>The sorting loop\<close>

text \<open>
  The graph is the dictionary from a call to the set of calls it depends on. One round of the
  \<^verbatim>\<open>while\<close> loop is one pass over its items; the list and the set of placed nodes are both kept,
  as in the source.
\<close>

fun topo_item :: "'a \<times> 'a set \<Rightarrow> 'a list \<times> 'a set \<Rightarrow> 'a list \<times> 'a set" where
  "topo_item (node, depend) (sorted_list, visit_node) =
     (if node \<notin> set sorted_list \<and> depend - visit_node = {}
      then (sorted_list @ [node], insert node visit_node)
      else (sorted_list, visit_node))"

definition topo_pass :: "'a depend_graph \<Rightarrow> 'a list \<times> 'a set \<Rightarrow> 'a list \<times> 'a set" where
  "topo_pass graph st = fold topo_item graph st"

definition topo_sort :: "'a depend_graph \<Rightarrow> 'a list option" where
  "topo_sort graph =
     map_option fst (while_option (\<lambda>(sorted_list, _). length sorted_list < length graph)
       (topo_pass graph) ([], {}))"

text \<open>
  What every pass keeps: the placed nodes are distinct keys, the set is the set of the list, and
  the list is in dependency order.
\<close>

definition topo_inv :: "'a depend_graph \<Rightarrow> 'a list \<times> 'a set \<Rightarrow> bool" where
  "topo_inv graph = (\<lambda>(srt, vis). vis = set srt \<and> distinct srt \<and> set srt \<subseteq> set (dict_keys graph) \<and>
     topo_ordered (graph_dep graph) srt)"

lemma topo_item_inv:
  assumes "distinct (dict_keys graph)" and "(n, D) \<in> set graph" and "topo_inv graph st"
  shows "topo_inv graph (topo_item (n, D) st)"
proof -
  obtain srt vis where st: "st = (srt, vis)" by (cases st)
  from assms(2) have "n \<in> set (dict_keys graph)" by force
  with assms st graph_dep_item[OF assms(1,2)] show ?thesis
    by (auto simp: topo_inv_def topo_from_append)
qed

lemma topo_fold_inv:
  assumes "distinct (dict_keys graph)" and "set items \<subseteq> set graph" and "topo_inv graph st"
  shows "topo_inv graph (fold topo_item items st)"
  using assms
proof (induction items arbitrary: st)
  case (Cons item items)
  then show ?case using topo_item_inv[of graph "fst item" "snd item" st] by simp
qed simp

lemma topo_fold_prefix: "\<exists>ys. fst (fold topo_item items st) = fst st @ ys"
proof (induction items arbitrary: st)
  case (Cons item items)
  have "\<exists>zs. fst (topo_item item st) = fst st @ zs"
    by (cases item; cases st) auto
  then obtain zs where "fst (topo_item item st) = fst st @ zs" ..
  with Cons.IH[of "topo_item item st"] show ?case by auto
qed simp

text \<open>A node all of whose dependencies are placed when a pass starts is placed when it ends.\<close>

lemma topo_fold_places:
  assumes "(n, D) \<in> set items" and "snd st = set (fst st)" and "D \<subseteq> set (fst st)"
  shows "n \<in> set (fst (fold topo_item items st))"
  using assms
proof (induction items arbitrary: st)
  case (Cons item items)
  obtain srt vis where st: "st = (srt, vis)" by (cases st)
  obtain m E where item: "item = (m, E)" by (cases item)
  let ?st' = "topo_item item st"
  have grow: "set (fst st) \<subseteq> set (fst ?st')" and snd: "snd ?st' = set (fst ?st')"
    using Cons.prems(2) by (auto simp: st item)
  show ?case
  proof (cases "item = (n, D)")
    case True
    with Cons.prems st have "n \<in> set (fst ?st')" by auto
    then show ?thesis using topo_fold_prefix[of items ?st'] by auto
  next
    case False
    with Cons.prems have "(n, D) \<in> set items" and "D \<subseteq> set (fst ?st')" using grow by auto
    then show ?thesis using Cons.IH[of ?st'] snd by simp
  qed
qed simp

lemma topo_pass_inv:
  "distinct (dict_keys graph) \<Longrightarrow> topo_inv graph st \<Longrightarrow> topo_inv graph (topo_pass graph st)"
  by (simp add: topo_pass_def topo_fold_inv)

lemma topo_inv_complete:
  assumes "distinct (dict_keys graph)" and "topo_inv graph (srt, vis)"
    and "\<not> length srt < length graph"
  shows "set srt = set (dict_keys graph)"
proof (rule card_subset_eq)
  show "set srt \<subseteq> set (dict_keys graph)" using assms(2) by (simp add: topo_inv_def)
  have "card (set srt) = length srt" using assms(2) by (simp add: topo_inv_def distinct_card)
  moreover have "card (set (dict_keys graph)) = length graph"
    using distinct_card[OF assms(1)] by simp
  moreover have "card (set srt) \<le> card (set (dict_keys graph))"
    using assms(2) by (simp add: topo_inv_def card_mono)
  ultimately show "card (set srt) = card (set (dict_keys graph))" using assms(3) by simp
qed simp

text \<open>On a closed acyclic graph every pass places at least one node, so the loop returns.\<close>

lemma topo_pass_progress:
  assumes dist: "distinct (dict_keys graph)" and closed: "graph_closed graph"
    and acyc: "graph_acyclic graph"
    and inv: "topo_inv graph (srt, vis)" and more: "length srt < length graph"
  shows "length srt < length (fst (topo_pass graph (srt, vis)))"
proof -
  have "\<not> set (dict_keys graph) \<subseteq> set srt"
    using more distinct_card[OF dist] inv card_mono[of "set srt" "set (dict_keys graph)"]
    by (auto simp: topo_inv_def distinct_card)
  from graph_ready_node[OF closed acyc this]
  obtain n where n: "n \<in> set (dict_keys graph) - set srt" "graph_dep graph n \<subseteq> set srt" by blast
  then obtain D where "(n, D) \<in> set graph" by auto
  with n dist inv have "n \<in> set (fst (topo_pass graph (srt, vis)))"
    using topo_fold_places[of n D graph "(srt, vis)"] graph_dep_item[of graph n D]
    by (auto simp: topo_pass_def topo_inv_def)
  moreover obtain ys where "fst (topo_pass graph (srt, vis)) = srt @ ys"
    using topo_fold_prefix[of graph "(srt, vis)"] by (auto simp: topo_pass_def)
  ultimately show ?thesis using n by auto
qed

lemma topo_sort_total:
  assumes dist: "distinct (dict_keys graph)" and "graph_closed graph" and "graph_acyclic graph"
  shows "\<exists>srt. topo_sort graph = Some srt \<and> distinct srt \<and> set srt = set (dict_keys graph) \<and>
    topo_ordered (graph_dep graph) srt"
proof -
  have "\<exists>t. while_option (\<lambda>(srt, _). length srt < length graph) (topo_pass graph) ([], {}) = Some t \<and>
      topo_inv graph t \<and> \<not> (\<lambda>(srt, _). length srt < length graph) t"
  proof (rule while_option_total[where m = "\<lambda>(srt, _). length graph - length srt"])
    show "topo_inv graph ([], {})" by (simp add: topo_inv_def)
  next
    fix st assume st: "topo_inv graph st" "(\<lambda>(srt, _). length srt < length graph) st"
    then show "topo_inv graph (topo_pass graph st) \<and>
        (\<lambda>(srt, _). length graph - length srt) (topo_pass graph st)
          < (\<lambda>(srt, _). length graph - length srt) st"
      using topo_pass_inv[OF dist st(1)] topo_pass_progress[OF assms, of "fst st" "snd st"]
      by (auto simp: case_prod_beta)
  qed
  then obtain srt vis where t: "while_option (\<lambda>(srt, _). length srt < length graph) (topo_pass graph) ([], {}) =
      Some (srt, vis)" "topo_inv graph (srt, vis)" "\<not> length srt < length graph" by auto
  with topo_inv_complete[OF dist t(2,3)] show ?thesis
    by (auto simp: topo_sort_def topo_inv_def)
qed

text \<open>Conversely a returned list is complete and ordered, so the graph was closed and acyclic.\<close>

lemma topo_sort_sound:
  assumes dist: "distinct (dict_keys graph)" and "topo_sort graph = Some srt"
  shows "distinct srt \<and> set srt = set (dict_keys graph) \<and> topo_ordered (graph_dep graph) srt"
proof -
  from assms(2) obtain vis where
    w: "while_option (\<lambda>(srt, _). length srt < length graph) (topo_pass graph) ([], {}) = Some (srt, vis)"
    by (auto simp: topo_sort_def)
  have inv: "topo_inv graph (srt, vis)"
  proof (rule while_option_rule[where P = "topo_inv graph", OF _ w])
    show "topo_inv graph ([], {})" by (simp add: topo_inv_def)
  qed (rule topo_pass_inv[OF dist])
  have "\<not> length srt < length graph" using while_option_stop[OF w] by simp
  from topo_inv_complete[OF dist inv this] inv show ?thesis by (simp add: topo_inv_def)
qed

lemma topo_sort_returns_iff:
  assumes dist: "distinct (dict_keys graph)"
  shows "(\<exists>srt. topo_sort graph = Some srt) \<longleftrightarrow> graph_closed graph \<and> graph_acyclic graph"
proof
  assume "\<exists>srt. topo_sort graph = Some srt"
  then obtain srt where "topo_sort graph = Some srt" by auto
  from topo_sort_sound[OF dist this]
  have s: "distinct srt" "set srt = set (dict_keys graph)" "topo_ordered (graph_dep graph) srt" by auto
  have "D \<subseteq> set (dict_keys graph)" if "(n, D) \<in> set graph" for n D
  proof -
    from that have "n \<in> set srt" using s(2) by force
    from topo_ordered_closed[OF s(3) this] show ?thesis using s(2) graph_dep_item[OF dist that] by simp
  qed
  then have "graph_closed graph" by (auto simp: graph_closed_def)
  moreover have "graph_acyclic graph"
    using topo_ordered_acyclic[OF s(3,1)] s(2) by (simp add: graph_acyclic_def)
  ultimately show "graph_closed graph \<and> graph_acyclic graph" ..
qed (use topo_sort_total[OF dist] in blast)


section \<open>Listing the calls of a function\<close>

text \<open>
  \<^verbatim>\<open>visit_call\<close> appends the call and visits its arguments, never the callee, so a fused function
  counts as one call. The visit order decides the order of the dictionary.
\<close>

definition bg_call_list :: "expr \<Rightarrow> expr list" where
  "bg_call_list e = collect False is_Call e"

text \<open>
  The dependency an argument contributes. \<^verbatim>\<open>utils.BuildGraph\<close> looks through nested tuple
  projections, \<^verbatim>\<open>mlir.BuildGraph\<close> takes one step.
\<close>

fun strip_getitem :: "expr \<Rightarrow> expr" where
  "strip_getitem (TupleGetItem u e i) = strip_getitem e"
| "strip_getitem e = e"

fun arg_depend :: "expr \<Rightarrow> expr option" where
  "arg_depend (Call u f as a) = Some (Call u f as a)"
| "arg_depend (TupleGetItem u e i) = Some (strip_getitem e)"
| "arg_depend _ = None"

fun arg_depend_mlir :: "expr \<Rightarrow> expr option" where
  "arg_depend_mlir (Call u f as a) = Some (Call u f as a)"
| "arg_depend_mlir (TupleGetItem u e i) = Some e"
| "arg_depend_mlir _ = None"

definition call_depends :: "(expr \<Rightarrow> expr option) \<Rightarrow> expr \<Rightarrow> expr set" where
  "call_depends adep c = set (List.map_filter adep (call_args c))"

definition build_graph :: "(expr \<Rightarrow> expr option) \<Rightarrow> expr list \<Rightarrow> expr depend_graph" where
  "build_graph adep call_list =
     fold (\<lambda>call g. AList.update call (call_depends adep call) g) call_list []"

definition get_call_list_with :: "(expr \<Rightarrow> expr option) \<Rightarrow> expr \<Rightarrow> expr list res option" where
  "get_call_list_with adep e =
     (let call_list = bg_call_list e
      in map_option (\<lambda>sorted_list.
           if set call_list \<inter> set sorted_list = set call_list \<union> set sorted_list
           then Inr sorted_list else Inl AssertionError)
         (topo_sort (build_graph adep call_list)))"

definition get_call_list :: "expr \<Rightarrow> expr list res option" where
  "get_call_list e = get_call_list_with arg_depend e"

definition get_call_list_mlir :: "expr \<Rightarrow> expr list res option" where
  "get_call_list_mlir e = get_call_list_with arg_depend_mlir e"

abbreviation calls_of :: "expr \<Rightarrow> expr set" where
  "calls_of e \<equiv> {c \<in> subs False (\<lambda>_. False) e. is_Call c}"

lemma bg_call_list_spec [simp]: "distinct (bg_call_list e)" "set (bg_call_list e) = calls_of e"
  using collect_spec[of False is_Call e] by (auto simp: bg_call_list_def)

lemma build_graph_acc:
  assumes "distinct cl" and "set cl \<inter> set (dict_keys g) = {}"
  shows "fold (\<lambda>call g. AList.update call (call_depends adep call) g) cl g =
     g @ map (\<lambda>c. (c, call_depends adep c)) cl"
  using assms
proof (induction cl arbitrary: g)
  case (Cons c cl)
  have "c \<notin> fst ` set g" using Cons.prems(2) by auto
  then have "AList.update c (call_depends adep c) g = g @ [(c, call_depends adep c)]"
    by (induction g) auto
  then show ?case using Cons.IH[of "g @ [(c, call_depends adep c)]"] Cons.prems by auto
qed simp

lemma build_graph_eq:
  "distinct cl \<Longrightarrow> build_graph adep cl = map (\<lambda>c. (c, call_depends adep c)) cl"
  using build_graph_acc[of cl "[]"] by (simp add: build_graph_def)

lemma build_graph_keys: "distinct cl \<Longrightarrow> dict_keys (build_graph adep cl) = cl"
  by (simp add: build_graph_eq comp_def)

lemma build_graph_dep:
  "distinct cl \<Longrightarrow> c \<in> set cl \<Longrightarrow> graph_dep (build_graph adep cl) c = call_depends adep c"
  by (rule graph_dep_item) (simp_all add: build_graph_keys, simp add: build_graph_eq)

text \<open>An interface to the dependency function of an argument: what both versions provide.\<close>

locale arg_dependency =
  fixes adep :: "expr \<Rightarrow> expr option"
  assumes adep_sub: "adep a = Some d \<Longrightarrow> d \<in> subs False (\<lambda>_. False) a"
    and adep_call: "is_Call a \<Longrightarrow> adep a = Some a"
begin

lemma depends_size: "d \<in> call_depends adep c \<Longrightarrow> size d < size c"
proof -
  assume "d \<in> call_depends adep c"
  then obtain a where a: "a \<in> set (call_args c)" "adep a = Some d"
    by (auto simp: call_depends_def map_filter_def)
  then have "size d \<le> size a" using adep_sub subs_size by blast
  moreover have "size a < size c" using a(1) by (cases c) (auto dest: size_elem_list)
  ultimately show ?thesis by simp
qed

lemma depends_sub:
  assumes "c \<in> calls_of e" and "d \<in> call_depends adep c"
  shows "d \<in> subs False (\<lambda>_. False) e"
proof -
  from assms(2) obtain a where a: "a \<in> set (call_args c)" "adep a = Some d"
    by (auto simp: call_depends_def map_filter_def)
  then have "a \<in> set (kids False (\<lambda>_. False) c)" using assms(1) by (cases c) (auto simp: kids_def)
  then have "a \<in> subs False (\<lambda>_. False) e" using assms(1) subs_kid by blast
  then show ?thesis using subs_trans[OF adep_sub[OF a(2)]] by blast
qed

lemma build_acyclic: "distinct cl \<Longrightarrow> graph_acyclic (build_graph adep cl)"
proof -
  assume dist: "distinct cl"
  let ?r = "dep_edges (set cl) (graph_dep (build_graph adep cl))"
  have "?r \<subseteq> measure size"
    using depends_size build_graph_dep[OF dist] by (auto simp: dep_edges_def)
  then show ?thesis
    by (simp add: graph_acyclic_def build_graph_keys[OF dist])
       (metis acyclic_subset wf_acyclic wf_measure)
qed

lemma build_closed_iff:
  "graph_closed (build_graph adep (bg_call_list e)) \<longleftrightarrow>
     (\<forall>c \<in> calls_of e. \<forall>d \<in> call_depends adep c. is_Call d)"
proof -
  have "graph_closed (build_graph adep (bg_call_list e)) \<longleftrightarrow>
      (\<forall>c \<in> calls_of e. call_depends adep c \<subseteq> calls_of e)"
    unfolding graph_closed_def build_graph_keys[OF bg_call_list_spec(1)] bg_call_list_spec(2)
    unfolding build_graph_eq[OF bg_call_list_spec(1)] by simp
  also have "\<dots> \<longleftrightarrow> (\<forall>c \<in> calls_of e. \<forall>d \<in> call_depends adep c. is_Call d)"
  proof (rule ball_cong[OF refl])
    fix c assume "c \<in> calls_of e"
    then have "call_depends adep c \<subseteq> subs False (\<lambda>_. False) e"
      by (intro subsetI) (rule depends_sub)
    then show "call_depends adep c \<subseteq> calls_of e \<longleftrightarrow> (\<forall>d \<in> call_depends adep c. is_Call d)" by blast
  qed
  finally show ?thesis .
qed

text \<open>The list returns exactly when every dependency is a call, and is then a schedule.\<close>

lemma call_list_total:
  assumes "\<And>c d. c \<in> calls_of e \<Longrightarrow> d \<in> call_depends adep c \<Longrightarrow> is_Call d"
  shows "\<exists>l. get_call_list_with adep e = Some (Inr l) \<and> distinct l \<and> set l = calls_of e \<and>
    topo_ordered (call_depends adep) l"
proof -
  let ?g = "build_graph adep (bg_call_list e)"
  have "graph_closed ?g" using assms by (simp add: build_closed_iff)
  then obtain l where l: "topo_sort ?g = Some l" "distinct l" "set l = calls_of e"
      "topo_ordered (graph_dep ?g) l"
    using topo_sort_total[of ?g] build_acyclic[of "bg_call_list e"] by (auto simp: build_graph_keys)
  have "graph_dep ?g (l ! i) = call_depends adep (l ! i)" if "i < length l" for i
    using that l(3) build_graph_dep[of "bg_call_list e" "l ! i" adep] nth_mem[OF that] by simp
  with l have "topo_ordered (call_depends adep) l" by (simp add: topo_from_nth)
  with l show ?thesis by (auto simp: get_call_list_with_def Let_def)
qed

lemma call_list_diverges:
  assumes "c \<in> calls_of e" and "d \<in> call_depends adep c" and "\<not> is_Call d"
  shows "get_call_list_with adep e = None"
proof -
  have "\<not> graph_closed (build_graph adep (bg_call_list e))"
    using assms unfolding build_closed_iff by blast
  then show ?thesis
    using topo_sort_returns_iff[of "build_graph adep (bg_call_list e)"]
    by (auto simp: get_call_list_with_def Let_def build_graph_keys)
qed

lemma call_list_hangs_iff:
  "get_call_list_with adep e = None \<longleftrightarrow> (\<exists>c \<in> calls_of e. \<exists>d \<in> call_depends adep c. \<not> is_Call d)"
proof
  assume none: "get_call_list_with adep e = None"
  show "\<exists>c \<in> calls_of e. \<exists>d \<in> call_depends adep c. \<not> is_Call d"
  proof (rule ccontr)
    assume "\<not> ?thesis"
    then have "\<exists>l. get_call_list_with adep e = Some (Inr l)" using call_list_total[of e] by blast
    then show False using none by simp
  qed
qed (use call_list_diverges in blast)

end

lemma strip_getitem_sub: "strip_getitem e \<in> subs False (\<lambda>_. False) e"
proof (induction e rule: strip_getitem.induct)
  case (1 u e i)
  then show ?case
    using subs_trans[of "strip_getitem e" False _ e "TupleGetItem u e i"]
      subs_kid[of "TupleGetItem u e i" False "\<lambda>_. False" "TupleGetItem u e i" e]
    by (simp add: kids_def)
qed auto

lemma getitem_sub: "e \<in> subs False (\<lambda>_. False) (TupleGetItem u e i)"
  using subs_kid[of "TupleGetItem u e i" False "\<lambda>_. False" "TupleGetItem u e i" e]
  by (simp add: kids_def)

interpretation utils_dep: arg_dependency arg_depend
proof
  fix a d assume "arg_depend a = Some d"
  then show "d \<in> subs False (\<lambda>_. False) a"
    by (cases a) (auto intro: subs_trans[OF strip_getitem_sub getitem_sub])
next
  fix a assume "is_Call a"
  then show "arg_depend a = Some a" by (cases a) auto
qed

interpretation mlir_dep: arg_dependency arg_depend_mlir
proof
  fix a d assume "arg_depend_mlir a = Some d"
  then show "d \<in> subs False (\<lambda>_. False) a" by (cases a) (auto intro: getitem_sub)
next
  fix a assume "is_Call a"
  then show "arg_depend_mlir a = Some a" by (cases a) auto
qed


lemma depends_no_call:
  "(\<exists>d \<in> call_depends arg_depend c. \<not> is_Call d) \<longleftrightarrow>
     (\<exists>u t i. TupleGetItem u t i \<in> set (call_args c) \<and> \<not> is_Call (strip_getitem t))"
  "(\<exists>d \<in> call_depends arg_depend_mlir c. \<not> is_Call d) \<longleftrightarrow>
     (\<exists>u t i. TupleGetItem u t i \<in> set (call_args c) \<and> \<not> is_Call t)"
proof -
  have a: "arg_depend x = Some d \<and> \<not> is_Call d \<longleftrightarrow> (\<exists>u t i. x = TupleGetItem u t i \<and> d = strip_getitem t \<and> \<not> is_Call d)" for x d
    by (cases x) auto
  have b: "arg_depend_mlir x = Some d \<and> \<not> is_Call d \<longleftrightarrow> (\<exists>u t i. x = TupleGetItem u t i \<and> d = t \<and> \<not> is_Call d)" for x d
    by (cases x) auto
  have m: "(\<exists>d \<in> call_depends adep c. \<not> is_Call d) \<longleftrightarrow> (\<exists>x \<in> set (call_args c). \<exists>d. adep x = Some d \<and> \<not> is_Call d)" for adep
    by (force simp: call_depends_def map_filter_def)
  show "(\<exists>d \<in> call_depends arg_depend c. \<not> is_Call d) \<longleftrightarrow>
     (\<exists>u t i. TupleGetItem u t i \<in> set (call_args c) \<and> \<not> is_Call (strip_getitem t))" unfolding m a by blast
  show "(\<exists>d \<in> call_depends arg_depend_mlir c. \<not> is_Call d) \<longleftrightarrow>
     (\<exists>u t i. TupleGetItem u t i \<in> set (call_args c) \<and> \<not> is_Call t)" unfolding m b by blast
qed


section \<open>Properties\<close>

text \<open>C25: The call list of a function (both versions of \<^verbatim>\<open>BuildGraph.get_call_list\<close>) is a schedule: it
  holds every call the arguments reach exactly once, each one after the calls it depends on. The
  traversal returns it, without an assertion failure, whenever every tuple projection among the
  arguments projects the result of a call.\<close>

theorem get_call_list_schedule:
  assumes "\<forall>c \<in> calls_of e. \<forall>d \<in> call_depends arg_depend c. is_Call d"
    and "\<forall>c \<in> calls_of e'. \<forall>d \<in> call_depends arg_depend_mlir c. is_Call d"
  shows "\<exists>l l'. get_call_list e = Some (Inr l) \<and> distinct l \<and> set l = calls_of e \<and>
      topo_ordered (call_depends arg_depend) l \<and>
    get_call_list_mlir e' = Some (Inr l') \<and> distinct l' \<and> set l' = calls_of e' \<and>
      topo_ordered (call_depends arg_depend_mlir) l'"
  using utils_dep.call_list_total[of e] mlir_dep.call_list_total[of e'] assms
  unfolding get_call_list_def get_call_list_mlir_def by blast

text \<open>C26: When the traversal never returns, because \<^verbatim>\<open>topo_sort\<close> waits for a node that is not in the graph:
  the version of \<^verbatim>\<open>utils.py\<close> exactly when some reached call has an argument that is a projection, possibly
  nested, of something other than a call; the version of \<^verbatim>\<open>mlir.py\<close>, which takes one projection off only,
  exactly when some reached call has an argument that projects directly something other than a call.\<close>

theorem get_call_list_hangs_iff:
  "(get_call_list e = None \<longleftrightarrow>
      (\<exists>c \<in> calls_of e. \<exists>u t i. TupleGetItem u t i \<in> set (call_args c) \<and> \<not> is_Call (strip_getitem t))) \<and>
   (get_call_list_mlir e = None \<longleftrightarrow>
      (\<exists>c \<in> calls_of e. \<exists>u t i. TupleGetItem u t i \<in> set (call_args c) \<and> \<not> is_Call t))"
  using utils_dep.call_list_hangs_iff[of e] mlir_dep.call_list_hangs_iff[of e]
  unfolding get_call_list_def get_call_list_mlir_def depends_no_call by blast

definition ex_proj :: expr where
  "ex_proj = Call 8 (Op ''stencil.grid1stencil'') [TupleGetItem 7 (Var 6 ''t'' None) 0] (Some (GridAttrs ''P_0''))"

lemma ex_calls: "calls_of ex_main = {ex_a, ex_b, ex_c, ex_d}" "ex_proj \<in> calls_of ex_proj"
proof -
  have "bg_call_list ex_main = [ex_d, ex_b, ex_a, ex_c]" by code_simp
  then show "calls_of ex_main = {ex_a, ex_b, ex_c, ex_d}"
    using bg_call_list_spec(2)[of ex_main] by auto
  have "bg_call_list ex_proj = [ex_proj]" by code_simp
  then show "ex_proj \<in> calls_of ex_proj" using bg_call_list_spec(2)[of ex_proj] by auto
qed

theorem get_call_list_schedule_witness:
  "\<exists>l l'. get_call_list ex_main = Some (Inr l) \<and> set l = {ex_a, ex_b, ex_c, ex_d} \<and>
    get_call_list_mlir ex_main = Some (Inr l') \<and> set l' = {ex_a, ex_b, ex_c, ex_d}"
proof -
  have "\<forall>c \<in> calls_of ex_main. \<forall>d \<in> call_depends arg_depend c. is_Call d"
    "\<forall>c \<in> calls_of ex_main. \<forall>d \<in> call_depends arg_depend_mlir c. is_Call d"
    unfolding ex_calls by (simp_all add: call_depends_def ex_defs map_filter_simps)
  from get_call_list_schedule[OF this] show ?thesis unfolding ex_calls by blast
qed

text \<open>A parameter projected makes both versions hang; a projection of a projected call only the second.\<close>

definition ex_nested :: expr where
  "ex_nested = Call 9 (Op ''stencil.grid1stencil'') [TupleGetItem 8 (TupleGetItem 7 ex_a 0) 0] (Some (GridAttrs ''P_0''))"

theorem get_call_list_hangs_iff_witness:
  "get_call_list ex_proj = None \<and> get_call_list_mlir ex_proj = None \<and>
   get_call_list ex_nested \<noteq> None \<and> get_call_list_mlir ex_nested = None"
proof -
  have p: "\<exists>u t i. TupleGetItem u t i \<in> set (call_args ex_proj) \<and> \<not> is_Call (strip_getitem t)"
    "\<exists>u t i. TupleGetItem u t i \<in> set (call_args ex_proj) \<and> \<not> is_Call t" by (auto simp: ex_proj_def)
  have "bg_call_list ex_nested = [ex_nested, ex_a]" by code_simp
  then have n: "calls_of ex_nested = {ex_nested, ex_a}" using bg_call_list_spec(2)[of ex_nested] by simp
  have m: "\<exists>u t i. TupleGetItem u t i \<in> set (call_args ex_nested) \<and> \<not> is_Call t" by (auto simp: ex_nested_def)
  show ?thesis
    using get_call_list_hangs_iff[of ex_proj] get_call_list_hangs_iff[of ex_nested] ex_calls(2) p m
    unfolding n by (auto simp: ex_nested_def ex_defs)
qed

end
