(* ===== verification/Dependence.thy ===== *)
theory Dependence
  imports Digraph
begin

text \<open>
  The recursive closures \<^verbatim>\<open>find_father\<close> and \<^verbatim>\<open>find_child\<close>, which three of the passes define in
  the same words (\<^verbatim>\<open>node_auto_fusion.py\<close>, \<^verbatim>\<open>dnn_fusion.py\<close>, \<^verbatim>\<open>streamSolve.py\<close>). Their recursion is
  bounded only by the interpreter: the first argument is the number of frames it still grants,
  and running out of them is \<^verbatim>\<open>RecursionError\<close>.
\<close>

fun find_father :: "nat \<Rightarrow> ('a, 'a list) dict \<Rightarrow> 'a \<Rightarrow> 'a list res" where
  "find_father 0 g node = Inl RecursionError"
| "find_father (Suc k) g node =
     and_then (dict_get g node) (\<lambda>father.
       and_then (res_map (find_father k g) father) (\<lambda>indirect_node.
         Inr (father @ concat indirect_node)))"

definition adj :: "('a, 'a list) dict \<Rightarrow> 'a \<Rightarrow> 'a set" where
  "adj g n = (case map_of g n of None \<Rightarrow> {} | Some fs \<Rightarrow> set fs)"

abbreviation adj_edges :: "('a, 'a list) dict \<Rightarrow> ('a \<times> 'a) set" where
  "adj_edges g \<equiv> dep_edges (set (dict_keys g)) (adj g)"

definition adj_closed :: "('a, 'a list) dict \<Rightarrow> bool" where
  "adj_closed g \<longleftrightarrow> (\<forall>n \<in> set (dict_keys g). adj g n \<subseteq> set (dict_keys g))"

definition ancestors :: "('a, 'a list) dict \<Rightarrow> 'a \<Rightarrow> 'a set" where
  "ancestors g n = {x. (x, n) \<in> (adj_edges g)\<^sup>+}"

lemma adj_edge: "n \<in> set (dict_keys g) \<Longrightarrow> f \<in> adj g n \<Longrightarrow> (f, n) \<in> adj_edges g"
  by (simp add: dep_edges_def)

lemma ancestors_unfold:
  assumes "n \<in> set (dict_keys g)"
  shows "ancestors g n = adj g n \<union> (\<Union>f \<in> adj g n. ancestors g f)"
proof (intro equalityI subsetI)
  fix x assume "x \<in> ancestors g n"
  then have "(x, n) \<in> (adj_edges g)\<^sup>+" by (simp add: ancestors_def)
  then show "x \<in> adj g n \<union> (\<Union>f \<in> adj g n. ancestors g f)"
    by (cases rule: trancl.cases) (auto simp: ancestors_def dep_edges_iff)
next
  fix x assume "x \<in> adj g n \<union> (\<Union>f \<in> adj g n. ancestors g f)"
  then show "x \<in> ancestors g n"
    using adj_edge[OF assms] by (auto simp: ancestors_def intro: trancl_into_trancl)
qed

lemma ancestors_keys: "adj_closed g \<Longrightarrow> ancestors g n \<subseteq> set (dict_keys g)"
proof
  fix x assume c: "adj_closed g" and "x \<in> ancestors g n"
  then have "(x, n) \<in> (adj_edges g)\<^sup>+" by (simp add: ancestors_def)
  then show "x \<in> set (dict_keys g)"
    by (induction rule: converse_trancl_induct)
       (use c in \<open>auto simp: adj_closed_def dep_edges_iff\<close>)
qed

lemma finite_ancestors: "adj_closed g \<Longrightarrow> finite (ancestors g n)"
  by (rule finite_subset[OF ancestors_keys]) simp_all

lemma ancestors_psubset:
  assumes "acyclic (adj_edges g)" and "n \<in> set (dict_keys g)" and "f \<in> adj g n"
  shows "ancestors g f \<subset> ancestors g n"
proof
  show "ancestors g f \<subseteq> ancestors g n" using ancestors_unfold[OF assms(2)] assms(3) by auto
  have "f \<in> ancestors g n" using ancestors_unfold[OF assms(2)] assms(3) by auto
  moreover have "f \<notin> ancestors g f" using assms(1) by (auto simp: ancestors_def acyclic_def)
  ultimately show "ancestors g f \<noteq> ancestors g n" by auto
qed

text \<open>
  The recursion returns the proper ancestors whenever the interpreter grants more frames than
  the node has ancestors; on a graph with a missing key or a cycle it raises.
\<close>

lemma find_father_ancestors:
  assumes "acyclic (adj_edges g)" and "adj_closed g"
    and "n \<in> set (dict_keys g)" and "card (ancestors g n) < k"
  shows "\<exists>r. find_father k g n = Inr r \<and> set r = ancestors g n"
  using assms(3,4)
proof (induction k arbitrary: n)
  case (Suc k)
  obtain fs where fs: "map_of g n = Some fs" using dict_key_Some[OF Suc.prems(1)] by blast
  then have adj: "adj g n = set fs" by (simp add: adj_def)
  have rec: "\<exists>r. find_father k g f = Inr r \<and> set r = ancestors g f" if f: "f \<in> set fs" for f
  proof (rule Suc.IH)
    show "f \<in> set (dict_keys g)" using assms(2) Suc.prems(1) adj f by (auto simp: adj_closed_def)
    have "ancestors g f \<subset> ancestors g n"
      using ancestors_psubset[OF assms(1) Suc.prems(1)] adj f by simp
    then have "card (ancestors g f) < card (ancestors g n)"
      by (rule psubset_card_mono[OF finite_ancestors[OF assms(2)]])
    with Suc.prems(2) show "card (ancestors g f) < k" by simp
  qed
  then obtain h where h: "\<And>f. f \<in> set fs \<Longrightarrow> find_father k g f = Inr (h f) \<and> set (h f) = ancestors g f"
    by metis
  then have "res_map (find_father k g) fs = Inr (map h fs)" by (intro res_map_Inr) blast
  then have "find_father (Suc k) g n = Inr (fs @ concat (map h fs))"
    by (simp add: dict_get_def fs)
  moreover have "set (fs @ concat (map h fs)) = ancestors g n"
    using h ancestors_unfold[OF Suc.prems(1)] adj by auto
  ultimately show ?case by blast
qed simp

lemma card_ancestors_less:
  assumes "acyclic (adj_edges g)" and "adj_closed g" and "n \<in> set (dict_keys g)"
  shows "card (ancestors g n) < length g"
proof -
  have "n \<notin> ancestors g n" using assms(1) by (auto simp: ancestors_def acyclic_def)
  then have "ancestors g n \<subset> set (dict_keys g)" using ancestors_keys[OF assms(2)] assms(3) by blast
  then have "card (ancestors g n) < card (set (dict_keys g))" by (simp add: psubset_card_mono)
  also have "\<dots> \<le> length g" using card_length[of "dict_keys g"] by simp
  finally show ?thesis .
qed

lemma find_father_total:
  assumes "acyclic (adj_edges g)" and "adj_closed g" and "n \<in> set (dict_keys g)" and "length g \<le> k"
  shows "\<exists>r. find_father k g n = Inr r \<and> set r = ancestors g n"
proof (rule find_father_ancestors[OF assms(1-3)])
  show "card (ancestors g n) < k" using card_ancestors_less[OF assms(1-3)] assms(4) by simp
qed

lemma find_father_KeyError: "n \<notin> set (dict_keys g) \<Longrightarrow> find_father (Suc k) g n = Inl KeyError"
  by (simp add: dict_get_def map_of_eq_None_iff[THEN iffD2])

text \<open>On a node of a cycle no number of frames suffices.\<close>

lemma find_father_cycle:
  assumes "\<And>n. n \<in> C \<Longrightarrow> n \<in> set (dict_keys g) \<and> adj g n \<inter> C \<noteq> {}" and "n \<in> C"
  shows "\<exists>e. find_father k g n = Inl e"
  using assms(2)
proof (induction k arbitrary: n)
  case (Suc k)
  obtain fs where fs: "map_of g n = Some fs"
    using assms(1)[OF Suc.prems] dict_key_Some[of n g] by blast
  then obtain f where f: "f \<in> set fs" "f \<in> C" using assms(1)[OF Suc.prems] by (auto simp: adj_def)
  obtain e where e: "find_father k g f = Inl e" using Suc.IH[OF f(2)] by blast
  have "\<not> (\<exists>r. res_map (find_father k g) fs = Inr r)"
  proof
    assume "\<exists>r. res_map (find_father k g) fs = Inr r"
    then obtain r where "res_map (find_father k g) fs = Inr r" ..
    moreover obtain i where "i < length fs" "fs ! i = f" using f(1) by (auto simp: in_set_conv_nth)
    ultimately show False using e by (metis res_map_eq_Inr Inl_Inr_False)
  qed
  then obtain e' where "res_map (find_father k g) fs = Inl e'"
    by (cases "res_map (find_father k g) fs") auto
  then show ?case by (simp add: dict_get_def fs)
qed simp

end
