(* ===== verification/Stream_Solve.thy ===== *)
theory Stream_Solve
  imports Relay_Expr Py_Strings Dependence
begin

text \<open>
  \<^verbatim>\<open>relay/transform/streamSolve.py\<close>: the call graph of a fused function, its transitive
  dependences, and its decomposition into levels of calls that can run at the same time.
\<close>

section \<open>The calls of the function, fused calls counted once\<close>

text \<open>\<^verbatim>\<open>call.attrs.tag\<close> of a call.\<close>

fun call_tag :: "expr \<Rightarrow> string res" where
  "call_tag (Call _ _ _ a) = attrs_tag a"
| "call_tag _ = Inl AttributeError"

fun callee_tag :: "expr \<Rightarrow> string res" where
  "callee_tag (Call _ f _ _) = op_attrs_tag f"
| "callee_tag _ = Inl AttributeError"

text \<open>
  \<^verbatim>\<open>GetCallNode\<close> visits callees too, so it also lists the calls inside fused functions; the loop
  that removes them deletes from the list it iterates over. An index walks the list and the
  length is read again at every step, as CPython's list iterator does.
\<close>

definition tag_matches :: "string \<Rightarrow> expr \<Rightarrow> bool" where
  "tag_matches name cc =
     (case call_tag cc of
        Inr t \<Rightarrow> name = last (py_split t ''_'')
      | Inl _ \<Rightarrow> False)"

function wash_inner :: "string \<Rightarrow> nat \<Rightarrow> expr list \<Rightarrow> expr list" where
  "wash_inner name j cl =
     (if j < length cl
      then wash_inner name (Suc j) (if tag_matches name (cl ! j) then remove1 (cl ! j) cl else cl)
      else cl)"
  by pat_completeness auto
termination
  by (relation "measure (\<lambda>(name, j, cl). length cl - j)") (auto simp: length_remove1)

declare wash_inner.simps [simp del]

definition wash_call :: "expr \<Rightarrow> expr list \<Rightarrow> expr list" where
  "wash_call call cl =
     (case callee_tag call of
        Inr t \<Rightarrow> if py_in ''fuse'' t then fold (\<lambda>name. wash_inner name 0) (tl (py_split t ''_'')) cl else cl
      | Inl _ \<Rightarrow> cl)"

lemma length_wash_inner: "length (wash_inner name j cl) \<le> length cl"
proof (induction name j cl rule: wash_inner.induct)
  case (1 name j cl)
  show ?case
  proof (cases "j < length cl")
    case True
    let ?cl = "if tag_matches name (cl ! j) then remove1 (cl ! j) cl else cl"
    have "length ?cl \<le> length cl" by (simp add: length_remove1)
    with 1[OF True] show ?thesis using True by (subst wash_inner.simps) simp
  qed (subst wash_inner.simps, simp)
qed

lemma length_wash_fold: "length (fold (\<lambda>name. wash_inner name 0) names cl) \<le> length cl"
proof (induction names arbitrary: cl)
  case (Cons n ns)
  then show ?case using length_wash_inner[of n 0 cl] le_trans by (simp, blast)
qed simp

lemma length_wash_call: "length (wash_call call cl) \<le> length cl"
  by (auto simp: wash_call_def length_wash_fold split: sum.splits)

function wash_outer :: "nat \<Rightarrow> expr list \<Rightarrow> expr list" where
  "wash_outer i cl = (if i < length cl then wash_outer (Suc i) (wash_call (cl ! i) cl) else cl)"
  by pat_completeness auto
termination
proof (relation "measure (\<lambda>(i, cl). length cl - i)")
  fix i and cl :: "expr list"
  assume "i < length cl"
  then show "((Suc i, wash_call (cl ! i) cl), i, cl) \<in> measure (\<lambda>(i, cl). length cl - i)"
    using length_wash_call[of "cl ! i" cl] by simp
qed simp

declare wash_outer.simps [simp del]

definition stream_call_list :: "expr \<Rightarrow> expr list" where
  "stream_call_list e = wash_outer 0 (collect True is_Call e)"


section \<open>The call graph\<close>

record 'a io =
  inputs :: "'a list"
  outputs :: "'a list"

type_synonym 'a io_graph = "('a, 'a io) dict"

definition add_edge :: "'a \<Rightarrow> 'a \<Rightarrow> 'a io_graph \<Rightarrow> 'a io_graph res" where
  "add_edge node src g =
     and_then (dict_get g node) (\<lambda>r.
       let g1 = AList.update node (r\<lparr>inputs := inputs r @ [src]\<rparr>) g
       in and_then (dict_get g1 src) (\<lambda>r2.
            Inr (AList.update src (r2\<lparr>outputs := outputs r2 @ [node]\<rparr>) g1)))"

definition arg_source :: "expr list \<Rightarrow> expr \<Rightarrow> expr option" where
  "arg_source call_list arg =
     (if arg \<in> set call_list then Some arg
      else case arg of TupleGetItem _ tv _ \<Rightarrow> Some tv | _ \<Rightarrow> None)"

definition add_arg :: "expr list \<Rightarrow> expr \<Rightarrow> expr \<Rightarrow> expr io_graph \<Rightarrow> expr io_graph res" where
  "add_arg call_list node arg g =
     (case arg_source call_list arg of None \<Rightarrow> Inr g | Some src \<Rightarrow> add_edge node src g)"

definition empty_graph :: "'a list \<Rightarrow> 'a io_graph" where
  "empty_graph call_list = fold (\<lambda>node. AList.update node \<lparr>inputs = [], outputs = []\<rparr>) call_list []"

definition stream_build_graph :: "expr \<Rightarrow> expr io_graph res" where
  "stream_build_graph e =
     (let call_list = stream_call_list e
      in res_fold (\<lambda>node. res_fold (add_arg call_list node) (call_args node)) call_list
           (empty_graph call_list))"

text \<open>Transitive predecessors and successors.\<close>

definition input_dict :: "'a io_graph \<Rightarrow> ('a, 'a list) dict" where
  "input_dict g = map (\<lambda>(n, r). (n, inputs r)) g"

definition output_dict :: "'a io_graph \<Rightarrow> ('a, 'a list) dict" where
  "output_dict g = map (\<lambda>(n, r). (n, outputs r)) g"

definition stream_build_depence :: "nat \<Rightarrow> 'a io_graph \<Rightarrow> ('a, 'a set \<times> 'a set) dict res" where
  "stream_build_depence limit g =
     res_map (\<lambda>node.
       and_then (find_father limit (input_dict g) node) (\<lambda>fs.
       and_then (find_father limit (output_dict g) node) (\<lambda>cs.
         Inr (node, set fs, set cs)))) (dict_keys g)"


section \<open>Levels\<close>

fun isStencilNode :: "expr \<Rightarrow> bool" where
  "isStencilNode (Call _ f _ _) =
     ((case f of Op nm \<Rightarrow> py_in ''stencil'' nm | _ \<Rightarrow> False) \<or>
      (case op_attrs_tag f of Inr t \<Rightarrow> py_in ''fuse'' t | Inl _ \<Rightarrow> False))"
| "isStencilNode _ = False"

text \<open>
  One level: the stencil nodes none of whose inputs is a stencil node, and the graph without them.
  Only the inputs are kept, as the source resets the outputs to empty lists.
\<close>

definition find_max_for_this_level ::
    "('a \<Rightarrow> bool) \<Rightarrow> ('a, 'a set) dict \<Rightarrow> 'a list \<times> ('a, 'a set) dict" where
  "find_max_for_this_level st graph =
     (let list_result = map fst (filter (\<lambda>(node, inp). st node \<and> \<not> (\<exists>x \<in> inp. st x)) graph);
          graph_result = map (\<lambda>(node, inp). (node, {x \<in> inp. x \<notin> set list_result}))
            (filter (\<lambda>(node, inp). node \<notin> set list_result) graph)
      in (list_result, graph_result))"

definition level_step ::
    "('a \<Rightarrow> bool) \<Rightarrow> 'a list list \<times> ('a, 'a set) dict \<Rightarrow> 'a list list \<times> ('a, 'a set) dict" where
  "level_step st s = (case s of (streamlist, g) \<Rightarrow>
     let (l, g') = find_max_for_this_level st g in (streamlist @ [l], g'))"

definition solve_levels :: "('a \<Rightarrow> bool) \<Rightarrow> ('a, 'a set) dict \<Rightarrow> 'a list list option" where
  "solve_levels st depence =
     map_option fst (while_option (\<lambda>(streamlist, g). sum_list (map length streamlist) \<noteq> length depence)
       (level_step st) ([], depence))"

definition solve :: "nat \<Rightarrow> expr \<Rightarrow> expr list list option res" where
  "solve limit e =
     and_then (stream_build_graph e) (\<lambda>graph.
     and_then (stream_build_depence limit graph) (\<lambda>depence_graph.
       Inr (solve_levels isStencilNode (map (\<lambda>(n, inp, out). (n, inp)) depence_graph))))"


section \<open>Correctness of the levels\<close>

text \<open>Every input of a node lies in an earlier level.\<close>

fun levels_from :: "('a \<Rightarrow> 'a set) \<Rightarrow> 'a set \<Rightarrow> 'a list list \<Rightarrow> bool" where
  "levels_from inp seen [] = True"
| "levels_from inp seen (l # ls) = ((\<forall>n \<in> set l. inp n \<subseteq> seen) \<and> levels_from inp (seen \<union> set l) ls)"

lemma levels_from_append [graph_simps]:
  "levels_from inp S (xs @ ys) \<longleftrightarrow> levels_from inp S xs \<and> levels_from inp (S \<union> set (concat xs)) ys"
  by (induction xs arbitrary: S) (auto simp: Un_assoc)

lemma levels_from_nth:
  "levels_from inp S ls \<Longrightarrow> i < length ls \<Longrightarrow> n \<in> set (ls ! i) \<Longrightarrow>
     inp n \<subseteq> S \<union> set (concat (take i ls))"
proof (induction ls arbitrary: S i)
  case (Cons l ls)
  then show ?case
  proof (cases i)
    case (Suc j)
    with Cons.prems Cons.IH[of "S \<union> set l" j] show ?thesis by auto
  qed auto
qed simp

lemma levels_from_mono:
  "levels_from inp S ls \<Longrightarrow> (\<And>n. n \<in> set (concat ls) \<Longrightarrow> inp' n \<subseteq> inp n) \<Longrightarrow> levels_from inp' S ls"
proof (induction ls arbitrary: S)
  case (Cons l ls)
  from Cons.prems Cons.IH[of "S \<union> set l"] show ?case by fastforce
qed simp

text \<open>The graph that is left once the nodes of \<open>P\<close> are placed.\<close>

definition without :: "'a set \<Rightarrow> ('a, 'a set) dict \<Rightarrow> ('a, 'a set) dict" where
  "without P g = map (\<lambda>(n, I). (n, I - P)) (filter (\<lambda>(n, I). n \<notin> P) g)"

lemma without_empty [simp]: "without {} g = g"
  by (simp add: without_def filter_id_conv case_prod_beta)

lemma without_without: "without Q (without P g) = without (P \<union> Q) g"
  by (induction g) (auto simp: without_def)

lemma dict_keys_without: "dict_keys (without P g) = filter (\<lambda>n. n \<notin> P) (dict_keys g)"
  by (induction g) (auto simp: without_def)

lemma keys_without [simp]: "fst ` set (without P g) = fst ` set g - P"
  by (induction g) (auto simp: without_def)

lemma find_max_split:
  "find_max_for_this_level st g =
     (let l = map fst (filter (\<lambda>(n, I). st n \<and> \<not> (\<exists>x \<in> I. st x)) g) in (l, without (set l) g))"
  by (auto simp: find_max_for_this_level_def without_def Let_def set_diff_eq intro!: map_cong)

lemma level_ready:
  assumes "\<And>n. n \<in> set (dict_keys g) \<Longrightarrow> st n"
    and "\<And>n I. (n, I) \<in> set g \<Longrightarrow> I \<subseteq> set (dict_keys g)"
  shows "filter (\<lambda>(n, I). st n \<and> \<not> (\<exists>x \<in> I. st x)) (without P g) = filter (\<lambda>(n, I). I = {}) (without P g)"
proof (rule filter_cong[OF refl])
  fix p assume "p \<in> set (without P g)"
  then obtain n I where p: "p = (n, I - P)" and in_g: "(n, I) \<in> set g" by (auto simp: without_def)
  from in_g have "st n" using assms(1) by force
  moreover have "st x" if "x \<in> I" for x using assms in_g that by blast
  ultimately show "(case p of (n, I) \<Rightarrow> st n \<and> \<not> (\<exists>x \<in> I. st x)) = (case p of (n, I) \<Rightarrow> I = {})"
    using p by auto
qed

definition level_inv :: "('a, 'a set) dict \<Rightarrow> 'a list list \<times> ('a, 'a set) dict \<Rightarrow> bool" where
  "level_inv g = (\<lambda>(sl, gc). gc = without (set (concat sl)) g \<and> distinct (concat sl) \<and>
     set (concat sl) \<subseteq> set (dict_keys g) \<and> levels_from (graph_dep g) {} sl \<and> [] \<notin> set sl)"

lemma level_step_inv:
  assumes dist: "distinct (dict_keys g)" and closed: "graph_closed g" and acyc: "graph_acyclic g"
    and st: "\<forall>n \<in> set (dict_keys g). st n"
    and inv: "level_inv g (sl, gc)" and more: "length (concat sl) \<noteq> length g"
  shows "level_inv g (level_step st (sl, gc)) \<and>
    length (concat sl) < length (concat (fst (level_step st (sl, gc))))"
proof -
  let ?P = "set (concat sl)"
  from inv have gc: "gc = without ?P g" and dsl: "distinct (concat sl)" and sub: "?P \<subseteq> set (dict_keys g)"
    and lev: "levels_from (graph_dep g) {} sl" and ne: "[] \<notin> set sl" by (auto simp: level_inv_def)
  have clo: "I \<subseteq> set (dict_keys g)" if "(n, I) \<in> set g" for n I
    using closed that by (auto simp: graph_closed_def)
  define l where "l = map fst (filter (\<lambda>(n, I). I = {}) (without ?P g))"
  have step: "level_step st (sl, gc) = (sl @ [l], without (?P \<union> set l) g)"
  proof -
    have "filter (\<lambda>(n, I). st n \<and> \<not> (\<exists>x \<in> I. st x)) gc = filter (\<lambda>(n, I). I = {}) gc"
      unfolding gc by (rule level_ready) (use st clo in auto)
    then show ?thesis
      by (simp only: level_step_def prod.case find_max_split Let_def) (simp only: gc l_def without_without)
  qed
  have in_l: "n \<in> set l \<longleftrightarrow> n \<in> set (dict_keys g) - ?P \<and> graph_dep g n \<subseteq> ?P" for n
    using graph_dep_item[OF dist] by (force simp: l_def without_def)
  have "distinct (map fst (without ?P g))"
    using dist by (simp add: without_def comp_def case_prod_beta distinct_map_filter)
  then have dl: "distinct l" by (simp add: l_def distinct_map_filter)
  have "\<not> set (dict_keys g) \<subseteq> ?P"
  proof
    assume "set (dict_keys g) \<subseteq> ?P"
    then have "?P = set (dict_keys g)" using sub by blast
    then show False using more distinct_card[OF dsl] distinct_card[OF dist] by simp
  qed
  from graph_ready_node[OF closed acyc this] obtain n where "n \<in> set l" using in_l by blast
  then have "l \<noteq> []" by auto
  moreover have "level_inv g (sl @ [l], without (?P \<union> set l) g)"
    using dsl sub lev ne dl in_l \<open>l \<noteq> []\<close>
    by (auto simp: level_inv_def levels_from_append Un_commute[of "set l"])
  ultimately show ?thesis by (simp add: step)
qed

text \<open>
  The level loop returns on every closed acyclic graph of stencil nodes, and its levels are a
  partition of the nodes into non-empty antichains in dependency order.
\<close>

lemma solve_levels_total:
  assumes dist: "distinct (dict_keys g)" and "graph_closed g" and "graph_acyclic g"
    and "\<forall>n \<in> set (dict_keys g). st n"
  shows "\<exists>sl. solve_levels st g = Some sl \<and> distinct (concat sl) \<and> set (concat sl) = set (dict_keys g) \<and>
    levels_from (graph_dep g) {} sl \<and> [] \<notin> set sl"
proof -
  let ?b = "\<lambda>(sl, gc). sum_list (map length sl) \<noteq> length g"
  have "\<exists>t. while_option ?b (level_step st) ([], g) = Some t \<and> level_inv g t \<and> \<not> ?b t"
  proof (rule while_option_total[where m = "\<lambda>(sl, gc). length g - length (concat sl)"])
    show "level_inv g ([], g)" by (simp add: level_inv_def)
  next
    fix t assume t: "level_inv g t" "?b t"
    obtain sl gc where eq: "t = (sl, gc)" by (cases t)
    with t have more: "length (concat sl) \<noteq> length g" by (simp add: length_concat)
    have dsl: "distinct (concat sl)" using t(1) eq by (simp add: level_inv_def)
    have "length (concat sl) = card (set (concat sl))" using distinct_card[OF dsl] by (rule sym)
    also have "\<dots> \<le> card (set (dict_keys g))" using t(1) eq by (intro card_mono) (auto simp: level_inv_def)
    also have "\<dots> = length g" using distinct_card[OF dist] by simp
    finally have "length (concat sl) \<le> length g" .
    moreover have "level_inv g (level_step st (sl, gc)) \<and>
        length (concat sl) < length (concat (fst (level_step st (sl, gc))))"
      by (rule level_step_inv[OF assms]) (use t(1) eq more in auto)
    ultimately show "level_inv g (level_step st t) \<and>
        (\<lambda>(sl, gc). length g - length (concat sl)) (level_step st t) < (\<lambda>(sl, gc). length g - length (concat sl)) t"
      using eq more by (auto simp: case_prod_beta)
  qed
  then obtain sl gc where w: "while_option ?b (level_step st) ([], g) = Some (sl, gc)"
    and inv: "level_inv g (sl, gc)" and len: "length (concat sl) = length g"
    by (auto simp: length_concat)
  have "set (concat sl) = set (dict_keys g)"
  proof (rule card_subset_eq)
    show "set (concat sl) \<subseteq> set (dict_keys g)" using inv by (simp add: level_inv_def)
    have "distinct (concat sl)" using inv by (simp add: level_inv_def)
    from distinct_card[OF this] show "card (set (concat sl)) = card (set (dict_keys g))" using len distinct_card[OF dist] by simp
  qed simp
  with w inv show ?thesis by (auto simp: solve_levels_def level_inv_def)
qed

text \<open>A node that is not a stencil node is never placed, and the loop runs forever.\<close>

lemma solve_levels_diverges:
  assumes dist: "distinct (dict_keys g)" and n: "n \<in> set (dict_keys g)" "\<not> st n"
  shows "solve_levels st g = None"
proof -
  define Inv where "Inv = (\<lambda>(sl, gc :: ('a, 'a set) dict).
    n \<notin> set (concat sl) \<and> distinct (concat sl) \<and> set (concat sl) \<subseteq> set (dict_keys g) \<and>
    distinct (dict_keys gc) \<and> set (dict_keys gc) \<subseteq> set (dict_keys g) - set (concat sl))"
  have "while_option (\<lambda>(sl, gc). sum_list (map length sl) \<noteq> length g) (level_step st) ([], g) = None"
  proof (rule while_option_diverges[where P = Inv])
    show "Inv ([], g)" using dist by (simp add: Inv_def)
  next
    fix t assume inv: "Inv t"
    obtain sl gc where eq: "t = (sl, gc)" by (cases t)
    have "set (concat sl) \<subset> set (dict_keys g)" using inv n(1) eq by (auto simp: Inv_def)
    then have "card (set (concat sl)) < card (set (dict_keys g))" by (simp add: psubset_card_mono)
    moreover have "distinct (concat sl)" using inv eq by (simp add: Inv_def)
    ultimately have "length (concat sl) \<noteq> length g"
      using distinct_card[OF dist] distinct_card[of "concat sl"] by simp
    moreover have "Inv (level_step st t)"
    proof -
      define l where "l = map fst (filter (\<lambda>(n, I). st n \<and> \<not> (\<exists>x \<in> I. st x)) gc)"
      have step: "level_step st t = (sl @ [l], without (set l) gc)"
        by (simp only: eq level_step_def prod.case find_max_split Let_def l_def)
      have l: "n \<notin> set l" "set l \<subseteq> set (dict_keys gc)" using n(2) by (auto simp: l_def)
      from inv eq have i: "n \<notin> set (concat sl)" "distinct (concat sl)" "set (concat sl) \<subseteq> set (dict_keys g)"
        "distinct (dict_keys gc)" "set (dict_keys gc) \<subseteq> set (dict_keys g) - set (concat sl)"
        by (auto simp only: Inv_def prod.case)
      have "distinct l" using i(4) by (simp add: l_def distinct_map_filter)
      moreover have "set (concat sl) \<inter> set l = {}" using l(2) i(5) by blast
      moreover have "set l \<subseteq> set (dict_keys g)" using l(2) i(5) by blast
      moreover have "set (filter (\<lambda>n. n \<notin> set l) (dict_keys gc)) \<subseteq> set (dict_keys g) - set (concat (sl @ [l]))"
        using i(5) by auto
      ultimately show ?thesis using l(1) i(1-4)
        by (simp only: step Inv_def prod.case dict_keys_without concat_append distinct_append) simp
    qed
    ultimately show "(case t of (sl, gc) \<Rightarrow> sum_list (map length sl) \<noteq> length g) \<and> Inv (level_step st t)"
      using eq by (simp add: length_concat)
  qed
  then show ?thesis by (simp add: solve_levels_def)
qed


section \<open>Correctness of the call graph\<close>

definition node_inputs :: "'a io_graph \<Rightarrow> 'a \<Rightarrow> 'a list" where
  "node_inputs g n = (case map_of g n of None \<Rightarrow> [] | Some r \<Rightarrow> inputs r)"

definition node_outputs :: "'a io_graph \<Rightarrow> 'a \<Rightarrow> 'a list" where
  "node_outputs g n = (case map_of g n of None \<Rightarrow> [] | Some r \<Rightarrow> outputs r)"

text \<open>Adding an edge between present nodes keeps the keys and extends one list on each side.\<close>

lemma add_edge_ok:
  assumes "node \<in> set (dict_keys g)" and "src \<in> set (dict_keys g)"
  shows "\<exists>g'. add_edge node src g = Inr g' \<and> dict_keys g' = dict_keys g \<and>
    (\<forall>m. node_inputs g' m = node_inputs g m @ (if m = node then [src] else [])) \<and>
    (\<forall>m. node_outputs g' m = node_outputs g m @ (if m = src then [node] else []))"
proof -
  obtain r where r: "map_of g node = Some r" using dict_key_Some[OF assms(1)] by blast
  obtain r2 where r2: "map_of g src = Some r2" using dict_key_Some[OF assms(2)] by blast
  let ?g1 = "AList.update node (r\<lparr>inputs := inputs r @ [src]\<rparr>) g"
  have k1: "dict_keys ?g1 = dict_keys g" using assms(1) by (simp add: dict_keys_update_same)
  show ?thesis
    using r r2 k1 assms(2)
    by (cases "node = src")
       (auto simp: add_edge_def dict_get_def update_conv' node_inputs_def node_outputs_def
          dict_keys_update_same simp del: set_map)
qed

lemma add_edges_ok:
  assumes "\<And>n s. (n, s) \<in> set E \<Longrightarrow> n \<in> set (dict_keys g) \<and> s \<in> set (dict_keys g)"
  shows "\<exists>g'. res_fold (\<lambda>(n, s). add_edge n s) E g = Inr g' \<and> dict_keys g' = dict_keys g \<and>
    (\<forall>m. node_inputs g' m = node_inputs g m @ map snd (filter (\<lambda>(n, s). n = m) E)) \<and>
    (\<forall>m. node_outputs g' m = node_outputs g m @ map fst (filter (\<lambda>(n, s). s = m) E))"
  using assms
proof (induction E arbitrary: g)
  case (Cons p E)
  obtain n s where p: "p = (n, s)" by (cases p)
  obtain g1 where g1: "add_edge n s g = Inr g1" "dict_keys g1 = dict_keys g"
    "\<And>m. node_inputs g1 m = node_inputs g m @ (if m = n then [s] else [])"
    "\<And>m. node_outputs g1 m = node_outputs g m @ (if m = s then [n] else [])"
    using add_edge_ok[of n g s] Cons.prems[of n s] p by auto
  obtain g2 where "res_fold (\<lambda>(n, s). add_edge n s) E g1 = Inr g2" "dict_keys g2 = dict_keys g1"
    "\<And>m. node_inputs g2 m = node_inputs g1 m @ map snd (filter (\<lambda>(n, s). n = m) E)"
    "\<And>m. node_outputs g2 m = node_outputs g1 m @ map fst (filter (\<lambda>(n, s). s = m) E)"
    using Cons.IH[of g1] Cons.prems g1(2) by auto
  with g1 p show ?case by auto
qed simp

definition call_edges :: "expr list \<Rightarrow> (expr \<times> expr) list" where
  "call_edges cl = concat (map (\<lambda>n. map (Pair n) (List.map_filter (arg_source cl) (call_args n))) cl)"

lemma add_args_eq:
  "res_fold (\<lambda>node. res_fold (add_arg cl node) (call_args node)) ns g =
     res_fold (\<lambda>(n, s). add_edge n s)
       (concat (map (\<lambda>n. map (Pair n) (List.map_filter (arg_source cl) (call_args n))) ns)) g"
proof (induction ns arbitrary: g)
  case (Cons n ns)
  have "res_fold (add_arg cl n) as g =
      res_fold (\<lambda>(n, s). add_edge n s) (map (Pair n) (List.map_filter (arg_source cl) as)) g" for as g
    by (induction as arbitrary: g)
       (auto simp: add_arg_def map_filter_simps split: option.splits intro!: and_then_cong)
  then show ?case by (simp add: res_fold_append Cons.IH[abs_def])
qed simp

lemma empty_graph_acc:
  assumes "distinct cl" and "set cl \<inter> set (dict_keys g) = {}"
  shows "fold (\<lambda>node. AList.update node \<lparr>inputs = [], outputs = []\<rparr>) cl g =
     g @ map (\<lambda>n. (n, \<lparr>inputs = [], outputs = []\<rparr>)) cl"
  using assms
proof (induction cl arbitrary: g)
  case (Cons c cl)
  have "c \<notin> fst ` set g" using Cons.prems(2) by auto
  then have "AList.update c \<lparr>inputs = [], outputs = []\<rparr> g = g @ [(c, \<lparr>inputs = [], outputs = []\<rparr>)]"
    by (induction g) auto
  then show ?case using Cons.IH[of "g @ [(c, \<lparr>inputs = [], outputs = []\<rparr>)]"] Cons.prems by auto
qed simp

lemma empty_graph_spec:
  assumes "distinct cl"
  shows "dict_keys (empty_graph cl) = cl" "node_inputs (empty_graph cl) m = []"
    "node_outputs (empty_graph cl) m = []"
proof -
  have e: "empty_graph cl = map (\<lambda>n. (n, \<lparr>inputs = [], outputs = []\<rparr>)) cl"
    using empty_graph_acc[OF assms, of "[]"] by (simp add: empty_graph_def)
  then show "dict_keys (empty_graph cl) = cl" by (simp add: comp_def)
  show "node_inputs (empty_graph cl) m = []" "node_outputs (empty_graph cl) m = []"
    by (auto simp: e node_inputs_def node_outputs_def dest!: map_of_SomeD split: option.splits)
qed

lemma wash_inner_sub: "set (wash_inner name j cl) \<subseteq> set cl \<and> (distinct cl \<longrightarrow> distinct (wash_inner name j cl))"
proof (induction name j cl rule: wash_inner.induct)
  case (1 name j cl)
  show ?case
  proof (cases "j < length cl")
    case True
    let ?cl = "if tag_matches name (cl ! j) then remove1 (cl ! j) cl else cl"
    have "set ?cl \<subseteq> set cl \<and> (distinct cl \<longrightarrow> distinct ?cl)"
      using set_remove1_subset[of "cl ! j" cl] by (auto simp: distinct_remove1)
    with 1[OF True] True show ?thesis by (subst (1 2) wash_inner.simps) auto
  qed (subst (1 2) wash_inner.simps, simp)
qed

lemma wash_fold_sub:
  "set (fold (\<lambda>name. wash_inner name 0) ns cl) \<subseteq> set cl \<and>
   (distinct cl \<longrightarrow> distinct (fold (\<lambda>name. wash_inner name 0) ns cl))"
proof (induction ns arbitrary: cl)
  case (Cons n ns)
  from Cons[of "wash_inner n 0 cl"] wash_inner_sub[of n 0 cl] show ?case by auto
qed simp

lemma wash_call_sub: "set (wash_call c cl) \<subseteq> set cl \<and> (distinct cl \<longrightarrow> distinct (wash_call c cl))"
  using wash_fold_sub by (auto simp: wash_call_def split: sum.splits)

lemma wash_outer_sub: "set (wash_outer i cl) \<subseteq> set cl \<and> (distinct cl \<longrightarrow> distinct (wash_outer i cl))"
proof (induction i cl rule: wash_outer.induct)
  case (1 i cl)
  show ?case
  proof (cases "i < length cl")
    case True
    with 1[OF True] wash_call_sub[of "cl ! i" cl] show ?thesis by (subst (1 2) wash_outer.simps) auto
  qed (subst (1 2) wash_outer.simps, simp)
qed

lemma stream_call_list_sub:
  "set (stream_call_list e) \<subseteq> {c \<in> subs True (\<lambda>_. False) e. is_Call c}"
  "distinct (stream_call_list e)"
  using wash_outer_sub[of 0 "collect True is_Call e"] collect_spec[of True is_Call e]
  by (auto simp: stream_call_list_def)

text \<open>When every projected tuple is itself a listed call, building the graph succeeds.\<close>

definition sources_listed :: "expr list \<Rightarrow> bool" where
  "sources_listed cl \<longleftrightarrow> (\<forall>n \<in> set cl. \<forall>a \<in> set (call_args n). \<forall>d. arg_source cl a = Some d \<longrightarrow> d \<in> set cl)"

lemma sources_listed_code [code]:
  "sources_listed cl = list_all (\<lambda>n. list_all (\<lambda>a. case arg_source cl a of None \<Rightarrow> True | Some d \<Rightarrow> d \<in> set cl)
     (call_args n)) cl"
  unfolding sources_listed_def list_all_iff by (intro ball_cong refl) (auto split: option.splits)

lemma filter_pair_edges:
  assumes "distinct ns" and "m \<in> set ns"
  shows "map snd (filter (\<lambda>(n, s). n = m) (concat (map (\<lambda>n. map (Pair n) (f n)) ns))) = f m"
  using assms
proof (induction ns)
  case (Cons n ns)
  have other: "map snd (filter (\<lambda>(n, s). n = m) (concat (map (\<lambda>n. map (Pair n) (f n)) ks))) = []"
    if "m \<notin> set ks" for ks
    using that by (induction ks) (auto simp: filter_map comp_def)
  show ?case
  proof (cases "n = m")
    case True
    have "map snd (filter (\<lambda>(n, s). n = m) (map (Pair m) (f m))) = f m"
      by (simp add: filter_map comp_def)
    with True other[of ns] Cons.prems show ?thesis by simp
  next
    case False
    then have "filter (\<lambda>(n, s). n = m) (map (Pair n) (f n)) = []" by (simp add: filter_map comp_def)
    with False Cons show ?thesis by simp
  qed
qed simp

lemma stream_build_graph_spec:
  assumes "sources_listed (stream_call_list e)"
  defines "cl \<equiv> stream_call_list e"
  shows "\<exists>g. stream_build_graph e = Inr g \<and> dict_keys g = cl \<and>
    (\<forall>n \<in> set cl. node_inputs g n = List.map_filter (arg_source cl) (call_args n)) \<and>
    (\<forall>n m. m \<in> set (node_outputs g n) \<longleftrightarrow> m \<in> set cl \<and> n \<in> set (node_inputs g m))"
proof -
  have dist: "distinct cl" by (simp add: cl_def stream_call_list_sub)
  have edge: "(n, s) \<in> set (call_edges cl) \<longleftrightarrow>
      n \<in> set cl \<and> s \<in> set (List.map_filter (arg_source cl) (call_args n))" for n s
    by (auto simp: call_edges_def)
  have "s \<in> set cl" if "(n, s) \<in> set (call_edges cl)" for n s
    using that assms(1) unfolding edge sources_listed_def cl_def[symmetric]
    by (auto simp: map_filter_def)
  then obtain g where g: "res_fold (\<lambda>(n, s). add_edge n s) (call_edges cl) (empty_graph cl) = Inr g"
      "dict_keys g = cl"
      "\<And>m. node_inputs g m = map snd (filter (\<lambda>(n, s). n = m) (call_edges cl))"
      "\<And>m. node_outputs g m = map fst (filter (\<lambda>(n, s). s = m) (call_edges cl))"
    using add_edges_ok[of "call_edges cl" "empty_graph cl"] empty_graph_spec[OF dist] by (auto simp: edge)
  have "stream_build_graph e = Inr g"
    using g(1) by (simp add: stream_build_graph_def Let_def add_args_eq call_edges_def flip: cl_def)
  moreover have inp: "node_inputs g n = List.map_filter (arg_source cl) (call_args n)" if "n \<in> set cl" for n
    unfolding g(3) call_edges_def by (rule filter_pair_edges[OF dist that])
  moreover have "m \<in> set (node_outputs g n) \<longleftrightarrow> m \<in> set cl \<and> n \<in> set (node_inputs g m)" for n m
    using inp[of m] by (auto simp: g(4) edge image_iff)
  ultimately show ?thesis using g(2) by blast
qed

lemma map_of_map_snd: "map_of (map (\<lambda>(n, r). (n, f r)) g) k = map_option f (map_of g k)"
  by (induction g) auto

lemma input_dict_adj [simp]: "adj (input_dict g) n = set (node_inputs g n)"
  and output_dict_adj [simp]: "adj (output_dict g) n = set (node_outputs g n)"
  by (auto simp: adj_def input_dict_def output_dict_def node_inputs_def node_outputs_def
      map_of_map_snd split: option.splits)

lemma dict_keys_io [simp]: "dict_keys (input_dict g) = dict_keys g" "dict_keys (output_dict g) = dict_keys g"
  "length (input_dict g) = length g" "length (output_dict g) = length g"
  by (simp_all add: input_dict_def output_dict_def comp_def case_prod_beta)

lemma fst_io [simp]: "fst ` set (input_dict g) = fst ` set g" "fst ` set (output_dict g) = fst ` set g"
  by (force simp: input_dict_def output_dict_def)+

text \<open>The transitive predecessors of every call, on a closed acyclic call graph.\<close>

lemma stream_build_depence_spec:
  assumes acyc: "acyclic (adj_edges (input_dict g))" and closed: "adj_closed (input_dict g)"
    and conv: "\<And>n m. m \<in> set (node_outputs g n) \<longleftrightarrow> m \<in> set (dict_keys g) \<and> n \<in> set (node_inputs g m)"
    and limit: "length g \<le> limit"
  shows "\<exists>dg. stream_build_depence limit g = Inr dg \<and> dict_keys dg = dict_keys g \<and>
    (\<forall>n inp out. (n, inp, out) \<in> set dg \<longrightarrow> inp = ancestors (input_dict g) n)"
proof -
  have edges: "adj_edges (output_dict g) = (adj_edges (input_dict g))\<inverse> \<inter> UNIV \<times> set (dict_keys g)"
    using conv by (auto simp: dep_edges_def simp del: set_map)
  have oacyc: "acyclic (adj_edges (output_dict g))"
    by (rule acyclic_subset[of "(adj_edges (input_dict g))\<inverse>"]) (use acyc edges in \<open>auto simp: acyclic_converse\<close>)
  have oclosed: "adj_closed (output_dict g)" using conv by (auto simp: adj_closed_def simp del: set_map)
  have "\<exists>fs cs. find_father limit (input_dict g) n = Inr fs \<and> set fs = ancestors (input_dict g) n \<and>
      find_father limit (output_dict g) n = Inr cs" if "n \<in> set (dict_keys g)" for n
    using find_father_total[OF acyc closed, of n limit] find_father_total[OF oacyc oclosed, of n limit]
      that limit by (auto simp del: set_map)
  then obtain fs cs where f: "\<And>n. n \<in> set (dict_keys g) \<Longrightarrow>
      find_father limit (input_dict g) n = Inr (fs n) \<and> set (fs n) = ancestors (input_dict g) n \<and>
      find_father limit (output_dict g) n = Inr (cs n)" by metis
  have "stream_build_depence limit g = Inr (map (\<lambda>n. (n, set (fs n), set (cs n))) (dict_keys g))"
    unfolding stream_build_depence_def by (rule res_map_Inr) (use f in simp)
  then show ?thesis using f by (auto simp: comp_def)
qed

lemma call_graph_wf:
  assumes src: "sources_listed cl" and keys: "dict_keys g = cl"
    and inp: "\<And>n. n \<in> set cl \<Longrightarrow> node_inputs g n = List.map_filter (arg_source cl) (call_args n)"
  shows "acyclic (adj_edges (input_dict g)) \<and> adj_closed (input_dict g)"
proof
  have arg: "\<exists>a \<in> set (call_args n). arg_source cl a = Some d" if "n \<in> set cl" "d \<in> set (node_inputs g n)" for n d
    using that(2) unfolding inp[OF that(1)] by (auto simp: map_filter_def)
  have "size d < size n" if n: "n \<in> set cl" "d \<in> set (node_inputs g n)" for n d
  proof -
    obtain a where a: "a \<in> set (call_args n)" "arg_source cl a = Some d" using arg[OF n] by blast
    then have "size d \<le> size a" by (auto simp: arg_source_def split: if_splits expr.splits)
    moreover have "size a < size n" using a(1) by (cases n) (auto dest: size_elem_list)
    ultimately show ?thesis by simp
  qed
  then have "adj_edges (input_dict g) \<subseteq> measure size" using keys by (auto simp: dep_edges_def simp del: set_map)
  then show "acyclic (adj_edges (input_dict g))"
    by (rule acyclic_subset[OF wf_acyclic[OF wf_measure]])
  show "adj_closed (input_dict g)"
    using src keys arg unfolding adj_closed_def sources_listed_def dict_keys_io input_dict_adj by blast
qed

lemma depence_levels_wf:
  assumes acyc: "acyclic (adj_edges (input_dict g))" and closed: "adj_closed (input_dict g)"
    and dist: "distinct (dict_keys g)" and keys: "dict_keys dg = dict_keys g"
    and anc: "\<forall>n inp out. (n, inp, out) \<in> set dg \<longrightarrow> inp = ancestors (input_dict g) n"
  defines "d \<equiv> map (\<lambda>(n, inp, out). (n, inp)) dg"
  shows "dict_keys d = dict_keys g" and "graph_closed d" and "graph_acyclic d"
    and "\<And>n. n \<in> set (dict_keys g) \<Longrightarrow> set (node_inputs g n) \<subseteq> graph_dep d n"
proof -
  show k: "dict_keys d = dict_keys g" using keys by (simp add: d_def comp_def case_prod_beta)
  have dep: "I = ancestors (input_dict g) n" if "(n, I) \<in> set d" for n I
    using that anc by (force simp: d_def)
  have gdep: "graph_dep d n = ancestors (input_dict g) n" if "n \<in> set (dict_keys g)" for n
  proof -
    from that have "n \<in> set (dict_keys d)" by (simp only: k)
    from dict_key_Some[OF this] obtain I where I: "(n, I) \<in> set d" by (blast dest: map_of_SomeD)
    then show ?thesis using graph_dep_item[of d n I] dep[OF I] dist k by simp
  qed
  have sub: "ancestors (input_dict g) n \<subseteq> set (dict_keys g)" for n
    using ancestors_keys[OF closed, of n] by (simp del: set_map)
  show "graph_closed d" unfolding graph_closed_def k using dep sub by blast
  have "dep_edges (set (dict_keys d)) (graph_dep d) \<subseteq> (adj_edges (input_dict g))\<^sup>+"
    unfolding k using gdep by (auto simp: dep_edges_def ancestors_def simp del: set_map)
  then show "graph_acyclic d" unfolding graph_acyclic_def
    by (rule acyclic_subset[rotated]) (use acyc in \<open>simp add: acyclic_def\<close>)
  show "set (node_inputs g n) \<subseteq> graph_dep d n" if "n \<in> set (dict_keys g)" for n
    using ancestors_unfold[of n "input_dict g"] gdep[OF that] that by (auto simp del: set_map)
qed

text \<open>
  \<^verbatim>\<open>StreamSolver.solve\<close> as a whole: on a function all of whose listed calls are stencil calls it
  returns, and the levels are a partition of those calls in which every direct producer of a call
  is in an earlier level than the call.
\<close>

lemma solve_spec:
  assumes src: "sources_listed (stream_call_list e)"
    and st: "\<forall>n \<in> set (stream_call_list e). isStencilNode n"
    and limit: "length (stream_call_list e) \<le> limit"
  shows "\<exists>g sl. stream_build_graph e = Inr g \<and> solve limit e = Inr (Some sl) \<and> distinct (concat sl) \<and>
    set (concat sl) = set (stream_call_list e) \<and> [] \<notin> set sl \<and>
    levels_from (\<lambda>n. set (node_inputs g n)) {} sl"
proof -
  let ?cl = "stream_call_list e"
  obtain g where g: "stream_build_graph e = Inr g" "dict_keys g = ?cl"
    "\<And>n. n \<in> set ?cl \<Longrightarrow> node_inputs g n = List.map_filter (arg_source ?cl) (call_args n)"
    "\<And>n m. m \<in> set (node_outputs g n) \<longleftrightarrow> m \<in> set (dict_keys g) \<and> n \<in> set (node_inputs g m)"
    using stream_build_graph_spec[OF src] by metis
  have wf: "acyclic (adj_edges (input_dict g))" "adj_closed (input_dict g)"
    using call_graph_wf[OF src g(2,3)] by blast+
  have dist: "distinct (dict_keys g)" unfolding g(2) by (rule stream_call_list_sub)
  have "length g = length ?cl" using g(2) by (metis length_map)
  then obtain dg where dg: "stream_build_depence limit g = Inr dg" "dict_keys dg = dict_keys g"
    "\<forall>n inp out. (n, inp, out) \<in> set dg \<longrightarrow> inp = ancestors (input_dict g) n"
    using stream_build_depence_spec[OF wf g(4), of limit] limit by force
  note lv = depence_levels_wf[OF wf dist dg(2,3)]
  let ?d = "map (\<lambda>(n, inp, out). (n, inp)) dg"
  have k: "dict_keys ?d = ?cl" using lv(1) g(2) by (rule trans)
  have "distinct (dict_keys ?d)" and "\<forall>n \<in> set (dict_keys ?d). isStencilNode n"
    using dist st unfolding k g(2) by blast+
  from solve_levels_total[OF this(1) lv(2,3) this(2)]
  obtain sl where sl: "solve_levels isStencilNode ?d = Some sl" "distinct (concat sl)"
    "set (concat sl) = set ?cl" "levels_from (graph_dep ?d) {} sl" "[] \<notin> set sl"
    unfolding k by blast
  have "levels_from (\<lambda>n. set (node_inputs g n)) {} sl"
    by (rule levels_from_mono[OF sl(4)]) (rule lv(4), simp only: sl(3) g(2))
  moreover have "solve limit e = Inr (Some sl)" using g(1) dg(1) sl(1) by (simp add: solve_def)
  ultimately show ?thesis using g(1) sl by blast
qed

end
