(* ===== verification/Node_Fusion.thy ===== *)
theory Node_Fusion
  imports Fuse_Sound Build_Graph Stream_Solve
begin

text \<open>
  The search of \<^verbatim>\<open>relay/transform/node_auto_fusion.py\<close>: pairs of calls are scored by the data they
  share, the best pair is fused with \<^verbatim>\<open>GroupOp\<close> and the main function is rewritten, until no pair is
  left or thirty steps have been made.

  A Python set is the list of its elements in the order they were added; the order is observable
  only in the addresses of new nodes. The main function stands for the module, \<open>limit\<close> is the
  recursion limit of the interpreter, and the code generator is a parameter of the loop.
\<close>

section \<open>Pairs that must not be fused\<close>

definition naf_add_edge :: "expr \<Rightarrow> expr \<Rightarrow> expr io_graph \<Rightarrow> expr io_graph res" where
  "naf_add_edge call src g =
     and_then (dict_get g call) (\<lambda>r.
       let g1 = AList.update call (r\<lparr>inputs := add_new src (inputs r)\<rparr>) g
       in and_then (dict_get g1 src) (\<lambda>r2.
            Inr (AList.update src (r2\<lparr>outputs := add_new call (outputs r2)\<rparr>) g1)))"

definition naf_add_arg :: "expr \<Rightarrow> expr \<Rightarrow> expr io_graph \<Rightarrow> expr io_graph res" where
  "naf_add_arg call arg g =
     (case arg of
        Call u f as a \<Rightarrow> naf_add_edge call arg g
      | TupleGetItem u tv i \<Rightarrow> naf_add_edge call tv g
      | _ \<Rightarrow> Inr g)"

definition naf_graph :: "expr list \<Rightarrow> expr io_graph res" where
  "naf_graph call_list =
     res_fold (\<lambda>call. res_fold (naf_add_arg call) (call_args call)) call_list (empty_graph call_list)"

definition build_depence :: "nat \<Rightarrow> expr list \<Rightarrow> (expr, expr list \<times> expr list) dict res" where
  "build_depence limit call_list =
     and_then (naf_graph call_list) (\<lambda>graph.
       res_map (\<lambda>node.
         and_then (find_father limit (input_dict graph) node) (\<lambda>fs.
         and_then (find_father limit (output_dict graph) node) (\<lambda>cs.
           Inr (node, fs, cs)))) (dict_keys graph))"

definition exclude_around :: "(expr, expr list \<times> expr list) dict \<Rightarrow> expr \<Rightarrow> (expr \<times> expr) set \<Rightarrow> (expr \<times> expr) set res" where
  "exclude_around depend_graph call exclusion =
     and_then (dict_get depend_graph call) (\<lambda>(parents, chldrn).
       Inr (insert (call, call) exclusion \<union> set (List.product parents chldrn) \<union> set (List.product chldrn parents)))"

definition analysis_exclusion :: "nat \<Rightarrow> expr list \<Rightarrow> (expr \<times> expr) set res" where
  "analysis_exclusion limit call_list =
     and_then (build_depence limit call_list) (\<lambda>depend_graph.
       res_fold (exclude_around depend_graph) call_list {})"


section \<open>The score of a pair\<close>

text \<open>
  Reading an attribute of a TVM object makes a new Python object (\<^verbatim>\<open>_return_object\<close>), so an object
  read from an attribute is never identical (\<^verbatim>\<open>is\<close>) to one that was obtained before.
\<close>

definition attribute_is :: "expr \<Rightarrow> expr \<Rightarrow> bool" where
  "attribute_is x y = False"

definition volume :: "expr \<Rightarrow> int res" where
  "volume tensor =
     (case checked_type tensor of
        None \<Rightarrow> Inl ValueError
      | Some (TensorType shape dt) \<Rightarrow> (case shape of [] \<Rightarrow> Inl TypeError | d # ds \<Rightarrow> Inr (foldl (*) d ds))
      | Some _ \<Rightarrow> Inl AttributeError)"

definition p_input :: int where "p_input = 1"

definition p_stencil :: int where "p_stencil = 2"

definition result_reuse :: "expr \<Rightarrow> expr \<Rightarrow> expr list" where
  "result_reuse call other =
     (if call \<in> set (call_args other) then [call]
      else if other \<in> set (call_args call) then [other]
      else filter (\<lambda>arg. case arg of TupleGetItem u tv i \<Rightarrow> attribute_is tv other | _ \<Rightarrow> False) (remdups (call_args call)) @
           filter (\<lambda>arg. case arg of TupleGetItem u tv i \<Rightarrow> attribute_is tv call | _ \<Rightarrow> False) (remdups (call_args other)))"

definition pair_score :: "expr \<Rightarrow> expr \<Rightarrow> int res" where
  "pair_score call other =
     and_then (res_map volume (remdups (filter (\<lambda>x. x \<in> set (call_args other)) (call_args call)))) (\<lambda>ins.
     and_then (res_map volume (result_reuse call other)) (\<lambda>sts.
       Inr (sum_list (map (\<lambda>v. v * p_input) ins) + sum_list (map (\<lambda>v. v * p_stencil) sts))))"

definition calculate_score :: "expr \<Rightarrow> expr list \<Rightarrow> (expr \<times> expr) set \<Rightarrow> (expr, int) dict res" where
  "calculate_score call call_list exclusion =
     res_fold (\<lambda>other score.
       if (call, other) \<in> exclusion then Inr (AList.update other (- 1) score)
       else and_then (pair_score call other) (\<lambda>v. Inr (AList.update other v score))) call_list []"

type_synonym score_dict = "(expr, (expr, int) dict) dict"

definition better_pair :: "score_dict \<Rightarrow> expr \<Rightarrow> expr \<Rightarrow> (expr \<times> expr) option \<times> int \<Rightarrow> ((expr \<times> expr) option \<times> int) res" where
  "better_pair score_dict call1 call2 best =
     and_then (dict_get score_dict call1) (\<lambda>d. and_then (dict_get d call2) (\<lambda>v.
       Inr (if v > snd best then (Some (call1, call2), v) else best)))"

definition find_fuse_pair :: "score_dict \<Rightarrow> expr list \<Rightarrow> ((expr \<times> expr) option \<times> int) res" where
  "find_fuse_pair score_dict call_list =
     res_fold (\<lambda>call1. res_fold (better_pair score_dict call1) call_list) call_list (None, - 1)"

definition stop_fused :: "nat \<Rightarrow> bool" where
  "stop_fused fuse_steps \<longleftrightarrow> 30 \<le> fuse_steps"


section \<open>Fusing a pair\<close>

type_synonym use_dict = "(expr, expr list) dict"

definition add_use :: "expr \<Rightarrow> expr \<Rightarrow> use_dict \<Rightarrow> use_dict" where
  "add_use node used_expr d =
     AList.update node (add_new used_expr (dict_get_default d node [])) d"

definition add_arg_use :: "expr \<Rightarrow> use_dict \<Rightarrow> use_dict" where
  "add_arg_use arg d =
     (case arg of
        TupleGetItem u tv i \<Rightarrow> add_use tv arg d
      | Call u f as a \<Rightarrow> add_use arg arg d
      | _ \<Rightarrow> d)"

definition get_args :: "expr \<Rightarrow> use_dict" where
  "get_args call_expr = fold add_arg_use (call_args call_expr) []"

definition merge_use :: "expr \<times> expr list \<Rightarrow> use_dict \<Rightarrow> use_dict" where
  "merge_use item other_args = (case item of (key, value) \<Rightarrow>
     AList.update key (case map_of other_args key of Some w \<Rightarrow> fold add_new value w | None \<Rightarrow> value) other_args)"

definition ret_calls :: "expr \<Rightarrow> expr list" where
  "ret_calls body = (case body of Tuple u flds \<Rightarrow> flds | _ \<Rightarrow> [body])"

definition uses_outside :: "expr \<Rightarrow> expr \<Rightarrow> expr \<Rightarrow> expr list \<Rightarrow> use_dict" where
  "uses_outside body call1 call2 call_list =
     fold (\<lambda>ret_var. add_use (producer ret_var) ret_var) (ret_calls body)
       (fold (\<lambda>call d. if call = call1 \<or> call = call2 then d else fold merge_use (get_args call) d) call_list [])"

definition fuse_plan :: "expr \<Rightarrow> expr \<Rightarrow> use_dict \<Rightarrow> expr list \<times> use_dict" where
  "fuse_plan call1 call2 other_args =
     (let uses = (\<lambda>c. dict_get_default other_args c []);
          kept = (\<lambda>c. if c \<in> set (dict_keys other_args) then [(c, uses c)] else [])
      in if call2 \<in> set (dict_keys (get_args call1)) then ([call2, call1], kept call2 @ [(call1, uses call1)])
         else if call1 \<in> set (dict_keys (get_args call2)) then ([call1, call2], kept call1 @ [(call2, uses call2)])
         else ([call1, call2], [(call1, uses call1), (call2, uses call2)]))"

definition getitem_index :: "expr \<Rightarrow> nat res" where
  "getitem_index e = (case e of TupleGetItem u tv i \<Rightarrow> Inr i | _ \<Rightarrow> Inl AttributeError)"

text \<open>The replacements of one output: the output itself if it is a tensor, else the components used.\<close>

definition output_map :: "expr \<Rightarrow> use_dict \<Rightarrow> expr \<Rightarrow> ((expr, expr) dict \<times> nat) \<times> nat \<Rightarrow> (((expr, expr) dict \<times> nat) \<times> nat) res" where
  "output_map fused output_uses out s = (case s of ((m, offset), n) \<Rightarrow>
     (case checked_type out of
        None \<Rightarrow> Inl ValueError
      | Some (TensorType sh dt) \<Rightarrow> Inr ((AList.update out (TupleGetItem n fused offset) m, offset + 1), Suc n)
      | Some ty \<Rightarrow>
          and_then (dict_get output_uses out) (\<lambda>used_ret.
          and_then (res_fold (\<lambda>var (m, n). and_then (getitem_index var) (\<lambda>i.
              Inr (AList.update var (TupleGetItem n fused (offset + i)) m, Suc n))) used_ret (m, n)) (\<lambda>(m, n).
          case ty of TupleType ts \<Rightarrow> Inr ((m, offset + length ts), n) | _ \<Rightarrow> Inl AttributeError))))"

definition relay_call_map :: "group_op \<Rightarrow> expr \<Rightarrow> use_dict \<Rightarrow> nat \<Rightarrow> ((expr, expr) dict \<times> nat) res" where
  "relay_call_map g fused output_uses n =
     (case goutput g of
        [out] \<Rightarrow> Inr ([(out, fused)], n)
      | outs \<Rightarrow> and_then (res_fold (output_map fused output_uses) outs (([], 0), n)) (\<lambda>((m, _), n). Inr (m, n)))"

text \<open>\<^verbatim>\<open>InferType\<close> on the module: the types of the nodes are those of \<^const>\<open>checked_type\<close>.\<close>

definition InferType :: "expr \<Rightarrow> expr res" where
  "InferType f =
     (case f of
        Function u ps b t a \<Rightarrow> (case checked_type b of
            None \<Rightarrow> Inl TVMError
          | Some ty \<Rightarrow> if t = None \<or> t = Some ty then Inr f else Inl TVMError)
      | _ \<Rightarrow> Inl TVMError)"

definition fusion_call2call :: "nat \<Rightarrow> expr \<times> expr \<Rightarrow> expr \<Rightarrow> expr list \<Rightarrow> nat \<Rightarrow> (expr \<times> nat) res" where
  "fusion_call2call limit fuse_pair main call_list n =
     (case (fuse_pair, main) of
        ((call1, call2), Function u ps body t a) \<Rightarrow>
          let other_args = uses_outside body call1 call2 call_list;
              (grp, output_uses) = fuse_plan call1 call2 other_args
          in and_then (res_fold add_output (dict_keys output_uses) (GroupOp grp)) (\<lambda>fuse_op.
             and_then (Group_Op.fuse limit fuse_op n) (\<lambda>(fuse_op, n).
             (case fused_func fuse_op of
                None \<Rightarrow> Inl TypeError
              | Some fused \<Rightarrow>
                  and_then (relay_call_map fuse_op fused output_uses n) (\<lambda>(m, n).
                  and_then (ReplaceParams limit m main n) (\<lambda>(fuse_expr, n).
                  and_then (InferType fuse_expr) (\<lambda>main'. Inr (main', n)))))))
      | _ \<Rightarrow> Inl AttributeError)"



section \<open>The loop\<close>

text \<open>A call whose code has a conditional is not fused with anything.\<close>

definition has_if :: "(string, string list) dict \<Rightarrow> expr \<Rightarrow> bool res" where
  "has_if tag2code call =
     (case call of Call u f as (Some a) \<Rightarrow>
        and_then (attrs_tag (Some a)) (\<lambda>tag.
          if tag = '''' then Inr False
          else and_then (dict_get tag2code (py_replace tag ''stencil_'' ''%'')) (\<lambda>body.
            Inr (list_ex (py_in ''if'') body)))
      | _ \<Rightarrow> Inr False)"

definition exclude_if :: "(string, string list) dict \<Rightarrow> expr list \<Rightarrow> (expr \<times> expr) set \<Rightarrow> (expr \<times> expr) set res" where
  "exclude_if tag2code call_list exclusions =
     res_fold (\<lambda>call exclusions. and_then (has_if tag2code call) (\<lambda>h.
       Inr (if h then exclusions \<union> set (map (\<lambda>other. (call, other)) call_list) \<union> set (map (\<lambda>other. (other, call)) call_list)
            else exclusions))) call_list exclusions"

definition score_all :: "expr list \<Rightarrow> (expr \<times> expr) set \<Rightarrow> score_dict res" where
  "score_all call_list exclusions =
     res_fold (\<lambda>call d. and_then (calculate_score call call_list exclusions) (\<lambda>s. Inr (AList.update call s d))) call_list []"

definition choose_pair :: "nat \<Rightarrow> (string, string list) dict \<Rightarrow> expr list \<Rightarrow> ((expr \<times> expr) option \<times> int) res" where
  "choose_pair limit tag2code call_list =
     and_then (analysis_exclusion limit call_list) (\<lambda>exclusions.
     and_then (exclude_if tag2code call_list exclusions) (\<lambda>exclusions.
     and_then (score_all call_list exclusions) (\<lambda>score_dict.
       find_fuse_pair score_dict call_list)))"

text \<open>The generator is called after every step with the name of the step and the new main function, and
  returns the measured time and the stream list, which are appended to the performance file.\<close>

type_synonym naf_codegen = "string \<Rightarrow> expr \<Rightarrow> (string \<times> string) res"

definition print_performance :: "string \<times> string \<Rightarrow> string \<Rightarrow> string list" where
  "print_performance ps step_name = (case ps of (performance, streamlist) \<Rightarrow>
     [''step = '' @ step_name, streamlist, ''performance='' @ performance, ''--------------------------------------''])"

record naf =
  step_mod :: expr
  fuse_steps :: nat
  free_addr :: nat
  perf_file :: "string list"

text \<open>One round: \<^verbatim>\<open>True\<close> with the state if the loop goes on.\<close>

definition fuse_best :: "nat \<Rightarrow> naf_codegen \<Rightarrow> naf \<Rightarrow> expr list \<Rightarrow> expr \<times> expr \<Rightarrow> (bool \<times> naf) res" where
  "fuse_best limit codegen s call_list p =
     and_then (fusion_call2call limit p (step_mod s) call_list (free_addr s)) (\<lambda>(m, n).
     and_then (codegen (''StencilG-step-'' @ str_of_nat (fuse_steps s)) m) (\<lambda>perf.
       Inr (\<not> stop_fused (fuse_steps s), s\<lparr>step_mod := m, free_addr := n,
         perf_file := perf_file s @ print_performance perf (str_of_nat (fuse_steps s))\<rparr>)))"

definition fuse_calls :: "nat \<Rightarrow> (string, string list) dict \<Rightarrow> naf_codegen \<Rightarrow> naf \<Rightarrow> expr list \<Rightarrow> (bool \<times> naf) res" where
  "fuse_calls limit tag2code codegen s call_list =
     and_then (choose_pair limit tag2code call_list) (\<lambda>(fuse_pair, max_score).
       case fuse_pair of
         None \<Rightarrow> Inr (False, s)
       | Some p \<Rightarrow> if max_score < 0 then Inr (False, s) else fuse_best limit codegen s call_list p)"

definition fuse_round :: "nat \<Rightarrow> (string, string list) dict \<Rightarrow> naf_codegen \<Rightarrow> naf \<Rightarrow> (bool \<times> naf) res option" where
  "fuse_round limit tag2code codegen s =
     (let s = s\<lparr>fuse_steps := Suc (fuse_steps s)\<rparr>
      in map_option (\<lambda>calls. and_then calls (fuse_calls limit tag2code codegen s)) (get_call_list (step_mod s)))"

lemma fuse_best_Inr:
  assumes "fuse_best limit codegen s call_list p = Inr (c, s')"
  obtains m n perf where "fusion_call2call limit p (step_mod s) call_list (free_addr s) = Inr (m, n)"
    "codegen (''StencilG-step-'' @ str_of_nat (fuse_steps s)) m = Inr perf" "c \<longleftrightarrow> \<not> stop_fused (fuse_steps s)"
    "s' = s\<lparr>step_mod := m, free_addr := n, perf_file := perf_file s @ print_performance perf (str_of_nat (fuse_steps s))\<rparr>"
proof -
  obtain m n perf where "fusion_call2call limit p (step_mod s) call_list (free_addr s) = Inr (m, n)"
    "codegen (''StencilG-step-'' @ str_of_nat (fuse_steps s)) m = Inr perf"
    "Inr (\<not> stop_fused (fuse_steps s), s\<lparr>step_mod := m, free_addr := n,
       perf_file := perf_file s @ print_performance perf (str_of_nat (fuse_steps s))\<rparr>) = (Inr (c, s') :: (bool \<times> naf) res)"
    using assms unfolding fuse_best_def and_then_eq_Inr by (auto simp: and_then_eq_Inr simp del: append.simps)
  then show thesis using that by simp
qed

lemma fuse_calls_Inr:
  assumes "fuse_calls limit tag2code codegen s call_list = Inr (c, s')"
  obtains fp ms where "choose_pair limit tag2code call_list = Inr (fp, ms)" "\<not> c" "s' = s"
  | p ms where "choose_pair limit tag2code call_list = Inr (Some p, ms)" "0 \<le> ms" "fuse_best limit codegen s call_list p = Inr (c, s')"
proof -
  obtain fp ms where cp: "choose_pair limit tag2code call_list = Inr (fp, ms)"
    and r: "(case fp of None \<Rightarrow> Inr (False, s) | Some p \<Rightarrow> if ms < 0 then Inr (False, s) else fuse_best limit codegen s call_list p) = Inr (c, s')"
    using assms unfolding fuse_calls_def and_then_eq_Inr by force
  show thesis
  proof (cases fp)
    case None
    then show thesis using that(1)[OF cp] r by simp
  next
    case (Some p)
    then show thesis using that(1)[OF cp] that(2)[OF cp[unfolded Some]] r by (cases "ms < 0") auto
  qed
qed

lemma fuse_round_Inr:
  assumes "fuse_round limit tag2code codegen s = Some (Inr (c, s'))"
  obtains call_list where "get_call_list (step_mod s) = Some (Inr call_list)"
    "fuse_calls limit tag2code codegen (s\<lparr>fuse_steps := Suc (fuse_steps s)\<rparr>) call_list = Inr (c, s')"
  using assms by (auto simp: fuse_round_def Let_def and_then_eq_Inr)

lemma fuse_round_steps:
  assumes "fuse_round limit tag2code codegen s = Some (Inr (c, s'))"
  shows "fuse_steps s' = Suc (fuse_steps s)" "c \<Longrightarrow> \<not> stop_fused (fuse_steps s')"
proof -
  have "fuse_steps s' = Suc (fuse_steps s) \<and> (c \<longrightarrow> \<not> stop_fused (fuse_steps s'))"
  proof (rule fuse_round_Inr[OF assms])
    fix cl assume "fuse_calls limit tag2code codegen (s\<lparr>fuse_steps := Suc (fuse_steps s)\<rparr>) cl = Inr (c, s')"
    then show ?thesis
    proof (cases rule: fuse_calls_Inr)
      case (2 p ms)
      from 2(3) show ?thesis by (rule fuse_best_Inr) simp
    qed simp
  qed
  then show "fuse_steps s' = Suc (fuse_steps s)" "c \<Longrightarrow> \<not> stop_fused (fuse_steps s')" by blast+
qed

function fuse_loop :: "nat \<Rightarrow> (string, string list) dict \<Rightarrow> naf_codegen \<Rightarrow> naf \<Rightarrow> naf res option" where
  "fuse_loop limit tag2code codegen s =
     (case fuse_round limit tag2code codegen s of
        None \<Rightarrow> None
      | Some (Inl e) \<Rightarrow> Some (Inl e)
      | Some (Inr (continue, s')) \<Rightarrow> if continue then fuse_loop limit tag2code codegen s' else Some (Inr s'))"
  by pat_completeness auto
termination
proof (relation "measure (\<lambda>(limit, tag2code, codegen, s). 30 - fuse_steps s)")
  fix limit tag2code codegen s x y continue s'
  assume "fuse_round limit tag2code codegen s = Some x" "x = Inr y" "(continue, s') = y" continue
  then have "fuse_steps s' = Suc (fuse_steps s)" "\<not> stop_fused (fuse_steps s')"
    using fuse_round_steps[of limit tag2code codegen s continue s'] by auto
  then show "((limit, tag2code, codegen, s'), limit, tag2code, codegen, s) \<in> measure (\<lambda>(limit, tag2code, codegen, s). 30 - fuse_steps s)"
    by (simp add: stop_fused_def)
qed simp

declare fuse_loop.simps [simp del]

text \<open>
  The whole method: the generator's settings and its two ways of producing code, the head line of the
  performance file, the runs without fusion and the loop.
\<close>

record naf_generator =
  naf_mesh_size :: string
  naf_halo_width :: string
  naf_fusion :: bool
  naf_stream :: bool
  naf_inline :: bool
  naf_tag2code :: "(string, string list) dict"
  naf_origin_run :: "bool \<Rightarrow> string res"
  naf_codegen_run :: naf_codegen

definition perf_rule :: string where
  "perf_rule = ''--------------------------------------''"

definition perf_head :: "naf_generator \<Rightarrow> string list" where
  "perf_head gen = [''mesh_size = '' @ naf_mesh_size gen @ ''; halo_width = '' @ naf_halo_width gen, perf_rule]"

definition run_unfused :: "naf_generator \<Rightarrow> expr \<Rightarrow> string list res" where
  "run_unfused gen m =
     (if naf_stream gen then
        and_then (naf_codegen_run gen ''parallel-max'' m) (\<lambda>perf. Inr (print_performance perf ''parallel-max''))
      else
        and_then (naf_origin_run gen (naf_inline gen)) (\<lambda>performance.
          Inr [if naf_inline gen then ''step = open-earth'' else ''step = baseline'', ''performance='' @ performance, perf_rule]))"

definition naf_fuse :: "nat \<Rightarrow> naf_generator \<Rightarrow> naf \<Rightarrow> naf res option" where
  "naf_fuse limit gen s =
     (let s = s\<lparr>perf_file := perf_file s @ perf_head gen\<rparr>
      in if naf_fusion gen then fuse_loop limit (naf_tag2code gen) (naf_codegen_run gen) s
         else Some (and_then (run_unfused gen (step_mod s)) (\<lambda>ls. Inr (s\<lparr>perf_file := perf_file s @ ls\<rparr>))))"

definition NodeAutoFusion :: "expr \<Rightarrow> nat \<Rightarrow> naf" where
  "NodeAutoFusion main n = \<lparr>step_mod = main, fuse_steps = 0, free_addr = n, perf_file = []\<rparr>"

end
