(* ===== verification/Fusion_Step.thy ===== *)
theory Fusion_Step
  imports Node_Fusion
begin

text \<open>
  One step of the search keeps the meaning of the main function: the fused call gives back the value of
  every output that is used elsewhere, and the rewritten function is again in the fragment.
\<close>

section \<open>The invariant of the main function\<close>

abbreviation outer :: "expr \<Rightarrow> expr set" where
  "outer e \<equiv> subs False (\<lambda>_. False) e"

text \<open>Operators take tensors, every call and projection has a type, and only calls are projected.\<close>

fun args_typed :: "expr \<Rightarrow> bool" where
  "args_typed (Call u f as a) \<longleftrightarrow> list_all tensor_typed as \<and> list_all args_typed as \<and>
     checked_type (Call u f as a) \<noteq> None \<and> checked_type (Call u f as a) \<noteq> Some (TupleType [])"
| "args_typed (Tuple u es) \<longleftrightarrow> list_all args_typed es"
| "args_typed (TupleGetItem u e i) \<longleftrightarrow> args_typed e \<and> is_Call e \<and> checked_type (TupleGetItem u e i) \<noteq> None"
| "args_typed _ \<longleftrightarrow> True"

definition main_ok :: "expr list \<Rightarrow> expr \<Rightarrow> nat \<Rightarrow> bool" where
  "main_ok ps body n \<longleftrightarrow> list_all is_Var ps \<and> outer_ok (set ps) body \<and> args_typed body \<and> anchors body \<noteq> {} \<and>
     (\<forall>v \<in> set ps \<union> fparams body. var_addr v < n)"

lemma outer_unfold: "x \<in> outer e \<longleftrightarrow> x = e \<or> (\<exists>k \<in> set (children False e). x \<in> outer k)"
  by (subst subs_iff) (simp add: kids_def)

lemma outer_inherits:
  assumes "x \<in> outer e" and "outer_ok P e"
  shows "outer_ok P x" "args_typed e \<Longrightarrow> args_typed x" "fparams x \<subseteq> fparams e"
proof -
  have "outer_ok P x \<and> (args_typed e \<longrightarrow> args_typed x) \<and> fparams x \<subseteq> fparams e"
    using assms
  proof (induction "size e" arbitrary: e rule: less_induct)
    case less
    show ?case
    proof (cases "x = e")
      case False
      then obtain k where k: "k \<in> set (children False e)" "x \<in> outer k" using less.prems(1) outer_unfold[of x e] by blast
      have "outer_ok P k \<and> (args_typed e \<longrightarrow> args_typed k) \<and> fparams k \<subseteq> fparams e"
        using less.prems(2) k(1) by (cases e) (auto simp: list_all_iff)
      then show ?thesis using less.hyps[of k] children_size[OF k(1)] k(2) by blast
    qed (use less.prems in simp)
  qed
  then show "outer_ok P x" "args_typed e \<Longrightarrow> args_typed x" "fparams x \<subseteq> fparams e" by blast+
qed

lemma tensor_typed_eq: "checked_type y = checked_type x \<Longrightarrow> tensor_typed y = tensor_typed x"
  by (simp add: tensor_typed_def)

lemma is_Call_erase [simp]: "is_Call (erase e) = is_Call e"
  by (cases e) auto

lemma args_typed_erase [simp]: "args_typed (erase e) = args_typed e"
proof (induction "size e" arbitrary: e rule: less_induct)
  case less
  have kid: "args_typed (erase k) = args_typed k" if "k \<in> set (children True e)" for k
    using less[OF children_size[OF that]] .
  show ?case
  proof (cases e)
    case (Call u f as a)
    have "list_all args_typed (map erase as) = list_all args_typed as" using kid by (auto simp: Call list_all_iff)
    moreover have "list_all tensor_typed (map erase as) = list_all tensor_typed as"
      by (auto simp: list_all_iff tensor_typed_def)
    moreover have "checked_type (Call 0 (erase f) (map erase as) a) = checked_type (Call u f as a)"
      using checked_type_erase[of e] Call by simp
    ultimately show ?thesis by (simp add: Call del: checked_type.simps)
  next
    case (TupleGetItem u x i)
    have "checked_type (TupleGetItem 0 (erase x) i) = checked_type (TupleGetItem u x i)"
      using checked_type_erase[of e] TupleGetItem by simp
    then show ?thesis using kid by (simp add: TupleGetItem del: checked_type.simps)
  qed (use kid in \<open>auto simp: list_all_iff\<close>)
qed

lemma subst_args_typed:
  assumes keys: "outer_keys P m"
    and img: "\<forall>x y. map_of m x = Some y \<longrightarrow> args_typed y \<and> checked_type y = checked_type x \<and> (is_Call x \<longrightarrow> is_Call y \<or> tensor_typed x)"
  shows "outer_ok P e \<Longrightarrow> args_typed e \<Longrightarrow> args_typed (subst m e)"
proof (induction e rule: args_typed.induct)
  case (1 u f as a)
  have im: "\<forall>x y. map_of m x = Some y \<longrightarrow> checked_type y = checked_type x" using img by blast
  show ?case
  proof (cases "map_of m (Call u f as a)")
    case None
    have ty: "checked_type (subst m (Call u f as a)) = checked_type (Call u f as a)" by (rule subst_type[OF keys im 1(2)])
    have as: "\<forall>x \<in> set as. outer_ok P x" using 1(2) by (simp add: list_all_iff)
    have "tensor_typed (subst m x)" if "x \<in> set as" for x
      using tensor_typed_eq[OF subst_type[OF keys im]] as that 1(3) by (simp add: list_all_iff)
    moreover have "args_typed (subst m x)" if "x \<in> set as" for x using 1 that as by (simp add: list_all_iff)
    ultimately show ?thesis
      using ty 1(3) unfolding subst_None(1)[OF None] by (simp add: list_all_iff del: checked_type.simps)
  qed (use img in auto)
next
  case (2 u es)
  then show ?case by (auto simp: list_all_iff)
next
  case (3 u e i)
  have im: "\<forall>x y. map_of m x = Some y \<longrightarrow> checked_type y = checked_type x" using img by blast
  show ?case
  proof (cases "map_of m (TupleGetItem u e i)")
    case None
    have "checked_type (subst m (TupleGetItem u e i)) = checked_type (TupleGetItem u e i)" by (rule subst_type[OF keys im 3(2)])
    moreover have "is_Call (subst m e)"
    proof (cases "map_of m e")
      case None
      then show ?thesis using 3(3) by (cases e) auto
    next
      case (Some y)
      have "\<not> tensor_typed e" using 3(3) by (auto simp: tensor_typed_def split: option.splits rtype.splits)
      then have "is_Call y" using img Some 3(3) by auto
      then show ?thesis using Some 3(3) by (cases e) auto
    qed
    ultimately show ?thesis using 3 unfolding subst_None(2)[OF None] by (simp del: checked_type.simps)
  qed (use img in auto)
qed (use img in \<open>auto split: option.splits\<close>)

lemma subst_fparams:
  assumes keys: "outer_keys P m" and img: "\<forall>x y. map_of m x = Some y \<longrightarrow> fparams y \<subseteq> A"
  shows "outer_ok P e \<Longrightarrow> fparams (subst m e) \<subseteq> fparams e \<union> A"
proof (induction e rule: anchors.induct)
  case (3 u f as a)
  show ?case
  proof (cases "map_of m (Call u f as a)")
    case None
    have f: "subst m f = f" using subst_function_id[OF keys, of f as] 3(2) by simp
    have "fparams (subst m x) \<subseteq> fparams x \<union> A" if "x \<in> set as" for x using 3 that by (simp add: list_all_iff)
    then show ?thesis using None f by (auto simp: subst_None)
  qed (use img in auto)
next
  case (4 u es)
  then have "fparams (subst m x) \<subseteq> fparams x \<union> A" if "x \<in> set es" for x using that by (simp add: list_all_iff)
  then show ?case by auto
qed (use img in \<open>auto split: option.splits\<close>)

lemma subst_outer_id:
  assumes "outer_keys P m"
  shows "outer_ok P e \<Longrightarrow> \<forall>x \<in> outer e. map_of m x = None \<Longrightarrow> subst m e = e"
proof (induction e rule: anchors.induct)
  case (3 u f as a)
  have "subst m x = x" if "x \<in> set as" for x
    using 3 that outer_unfold[of _ "Call u f as a"] by (auto simp: list_all_iff)
  moreover have "subst m f = f" using subst_function_id[OF assms, of f as] 3(2) by simp
  ultimately show ?case using 3(3) by (simp add: subst_None map_idI)
next
  case (4 u es)
  have "subst m x = x" if "x \<in> set es" for x
    using 4 that outer_unfold[of _ "Tuple u es"] by (auto simp: list_all_iff)
  then show ?case by (simp add: map_idI)
next
  case (5 u e i)
  have "subst m e = e" using 5 outer_unfold[of _ "TupleGetItem u e i"] by auto
  then show ?case using 5(3) by (simp add: subst_None)
qed auto



section \<open>Who uses a call\<close>

definition uses_ok :: "expr \<Rightarrow> use_dict \<Rightarrow> bool" where
  "uses_ok body d \<longleftrightarrow> (\<forall>k us. map_of d k = Some us \<longrightarrow> (\<forall>x \<in> set us. producer x = k \<and> x \<in> outer body))"

lemma uses_okD: "uses_ok body d \<Longrightarrow> map_of d k = Some us \<Longrightarrow> x \<in> set us \<Longrightarrow> producer x = k \<and> x \<in> outer body"
  unfolding uses_ok_def by blast

lemma uses_ok_Nil: "uses_ok body []"
  by (simp add: uses_ok_def)

lemma set_fold_add_new [simp]: "set (fold add_new xs ys) = set ys \<union> set xs"
  by (induction xs arbitrary: ys) auto

lemma uses_ok_update:
  assumes "uses_ok body d" and "\<forall>x \<in> set us. producer x = k \<and> x \<in> outer body"
  shows "uses_ok body (AList.update k us d)"
  unfolding uses_ok_def
proof (intro allI impI)
  fix k' us' assume "map_of (AList.update k us d) k' = Some us'"
  then have "(k' = k \<and> us' = us) \<or> (k' \<noteq> k \<and> map_of d k' = Some us')" by (auto simp: update_conv' split: if_splits)
  then show "\<forall>x \<in> set us'. producer x = k' \<and> x \<in> outer body" using assms uses_okD[OF assms(1)] by blast
qed

lemma uses_ok_add:
  assumes "uses_ok body d" and "producer x = k" and "x \<in> outer body"
  shows "uses_ok body (add_use k x d)"
  unfolding add_use_def
proof (rule uses_ok_update[OF assms(1)], rule ballI)
  fix y assume "y \<in> set (add_new x (dict_get_default d k []))"
  then have "y = x \<or> (\<exists>us. map_of d k = Some us \<and> y \<in> set us)" by (auto simp: dict_get_default_def split: option.splits)
  then show "producer y = k \<and> y \<in> outer body" using assms uses_okD[OF assms(1)] by blast
qed

lemma uses_ok_arg: "uses_ok body d \<Longrightarrow> x \<in> outer body \<Longrightarrow> uses_ok body (add_arg_use x d)"
  by (cases x) (auto simp: add_arg_use_def producer_def intro!: uses_ok_add)

lemma get_args_ok:
  assumes "c \<in> outer body"
  shows "uses_ok body (get_args c)"
proof -
  have "uses_ok body (fold add_arg_use args d)" if "set args \<subseteq> outer body" "uses_ok body d" for args d
    using that by (induction args arbitrary: d) (simp_all add: uses_ok_arg)
  moreover have "set (call_args c) \<subseteq> outer body"
  proof
    fix x assume "x \<in> set (call_args c)"
    then have "x \<in> set (kids False (\<lambda>_. False) c)" by (cases c rule: expr.exhaust) (auto simp: kids_def)
    then show "x \<in> outer body" by (rule subs_kid[OF assms])
  qed
  ultimately show ?thesis unfolding get_args_def using uses_ok_Nil by blast
qed

lemma merge_use_ok:
  assumes "uses_ok body d" and "\<forall>x \<in> set (snd kv). producer x = fst kv \<and> x \<in> outer body"
  shows "uses_ok body (merge_use kv d)"
proof -
  obtain k v where kv: "kv = (k, v)" by (cases kv)
  show ?thesis unfolding merge_use_def kv prod.case
  proof (rule uses_ok_update[OF assms(1)], rule ballI)
    fix x assume "x \<in> set (case map_of d k of Some w \<Rightarrow> fold add_new v w | None \<Rightarrow> v)"
    then have "x \<in> set v \<or> (\<exists>w. map_of d k = Some w \<and> x \<in> set w)" by (auto split: option.splits)
    then show "producer x = k \<and> x \<in> outer body" using assms uses_okD[OF assms(1)] kv by auto
  qed
qed

lemma distinct_get_args: "distinct (dict_keys (get_args c))"
proof -
  have "distinct (dict_keys (fold add_arg_use args d))" if "distinct (dict_keys d)" for args d
    using that
  proof (induction args arbitrary: d)
    case (Cons x args)
    have "distinct (dict_keys (add_arg_use x d))" using Cons.prems by (cases x) (auto simp: add_arg_use_def add_use_def)
    then show ?case using Cons by simp
  qed simp
  then show ?thesis unfolding get_args_def by simp
qed

lemma uses_outside_ok:
  assumes "set call_list \<subseteq> outer body"
  shows "uses_ok body (uses_outside body c1 c2 call_list)"
proof -
  let ?f = "\<lambda>call d. if call = c1 \<or> call = c2 then d else fold merge_use (get_args call) d"
  have merges: "uses_ok body (fold merge_use kvs d)"
    if "\<forall>kv \<in> set kvs. \<forall>x \<in> set (snd kv). producer x = fst kv \<and> x \<in> outer body" "uses_ok body d" for kvs d
    using that by (induction kvs arbitrary: d) (simp_all add: merge_use_ok)
  have calls: "uses_ok body (fold ?f cl d)" if "set cl \<subseteq> outer body" "uses_ok body d" for cl d
    using that
  proof (induction cl arbitrary: d)
    case (Cons c cl)
    have "\<forall>kv \<in> set (get_args c). \<forall>x \<in> set (snd kv). producer x = fst kv \<and> x \<in> outer body"
    proof (intro ballI)
      fix kv x assume "kv \<in> set (get_args c)" "x \<in> set (snd kv)"
      moreover from this have "map_of (get_args c) (fst kv) = Some (snd kv)" using distinct_get_args[of c] by (cases kv) auto
      ultimately show "producer x = fst kv \<and> x \<in> outer body" using get_args_ok[of c body] Cons.prems(1) uses_okD by fastforce
    qed
    then have "uses_ok body (?f c d)" using Cons.prems merges by simp
    then show ?case using Cons by simp
  qed simp
  have rets: "uses_ok body (fold (\<lambda>r. add_use (producer r) r) rs d)" if "set rs \<subseteq> outer body" "uses_ok body d" for rs d
    using that by (induction rs arbitrary: d) (auto simp: uses_ok_add)
  have "set (ret_calls body) \<subseteq> outer body"
    using outer_unfold[of _ body] by (cases body) (auto simp: ret_calls_def)
  then show ?thesis
    unfolding uses_outside_def by (rule rets) (rule calls[OF assms uses_ok_Nil])
qed

lemma get_args_keys: "set (dict_keys (get_args c)) = producer ` {x \<in> set (call_args c). is_Call x \<or> is_TupleGetItem x}"
proof -
  have step: "set (dict_keys (add_arg_use x d)) = set (dict_keys d) \<union> producer ` {y. y = x \<and> (is_Call y \<or> is_TupleGetItem y)}" for x d
    by (cases x) (auto simp: add_arg_use_def add_use_def set_dict_keys_update producer_def simp del: set_map)
  have "set (dict_keys (fold add_arg_use args d)) = set (dict_keys d) \<union> producer ` {x \<in> set args. is_Call x \<or> is_TupleGetItem x}" for args d
  proof (induction args arbitrary: d)
    case (Cons x args)
    then show ?case unfolding fold_simps(2) Cons step by auto
  qed simp
  from this[of "call_args c" "[]"] show ?thesis by (simp add: get_args_def del: set_map)
qed

lemma get_args_key_iff: "is_Call c1 \<Longrightarrow> c1 \<in> set (dict_keys (get_args c2)) \<longleftrightarrow> uses c2 c1"
proof -
  assume c: "is_Call c1"
  show ?thesis
  proof
    assume "c1 \<in> set (dict_keys (get_args c2))"
    then show "uses c2 c1" unfolding get_args_keys uses_def by auto
  next
    assume "uses c2 c1"
    then obtain x where "x \<in> set (call_args c2)" "(x = c1 \<and> \<not> is_TupleGetItem x) \<or> (\<exists>u i. x = TupleGetItem u c1 i)"
      unfolding uses_iff by blast
    moreover from this have "producer x = c1" using producer_eq[of x c1] by blast
    moreover from calculation(2) have "is_Call x \<or> is_TupleGetItem x"
      using c by (elim disjE exE conjE) simp_all
    ultimately show "c1 \<in> set (dict_keys (get_args c2))" unfolding get_args_keys by (intro image_eqI[of _ _ x]) simp_all
  qed
qed



section \<open>The planned pair\<close>

lemma set_init_args_swap: "set (init_args [c1, c2]) = set (init_args [c2, c1])"
  by (auto simp: set_init_args inner_arg_def skip_arg_def split: expr.splits)

definition separated :: "expr \<Rightarrow> expr \<Rightarrow> bool" where
  "separated c1 c2 \<longleftrightarrow> (\<forall>x \<in> set (init_args [c1, c2]). c1 \<notin> outer x \<and> c2 \<notin> outer x)"

lemma separated_swap: "separated c1 c2 = separated c2 c1"
  using set_init_args_swap[of c1 c2] by (auto simp: separated_def)

lemma outer_call_ok:
  assumes "main_ok ps body n" and "c \<in> outer body" and "is_Call c"
  shows "outer_ok (set ps) c" "list_all tensor_typed (call_args c)" "\<forall>v \<in> fparams c. var_addr v < n"
    "checked_type c \<noteq> Some (TupleType [])" "checked_type c \<noteq> None" "args_typed c"
proof -
  have b: "outer_ok (set ps) body" "args_typed body" "\<forall>v \<in> fparams body. var_addr v < n" using assms(1) by (auto simp: main_ok_def)
  note i = outer_inherits[OF assms(2) b(1)]
  show "outer_ok (set ps) c" by (rule i(1))
  show "\<forall>v \<in> fparams c. var_addr v < n" using i(3) b(3) by blast
  show t: "args_typed c" by (rule i(2)[OF b(2)])
  show "list_all tensor_typed (call_args c)" "checked_type c \<noteq> Some (TupleType [])" "checked_type c \<noteq> None"
    using t assms(3) by (cases c; simp)+
qed

lemma main_castable:
  assumes "main_ok ps body n" and "c1 \<in> outer body" "is_Call c1" "c2 \<in> outer body" "is_Call c2"
  shows "castable (set ps) [c1, c2] n"
  using outer_call_ok[OF assms(1-3)] outer_call_ok[OF assms(1,4,5)] assms(1,3,5)
  by (auto simp: castable_def main_ok_def)

lemma size_call_arg: "x \<in> set (call_args c) \<Longrightarrow> size x < size c"
  using children_size[of x True c] by (cases c rule: expr.exhaust) auto

lemma uses_size: "uses c2 c1 \<Longrightarrow> size c1 < size c2"
  unfolding uses_def using size_call_arg producer_size by (auto dest!: size_call_arg intro: le_less_trans)

lemma not_inner:
  assumes "x \<in> set (call_args c1)" and "\<not> uses c1 c2" and "is_Call c2"
  shows "\<not> inner_arg [c1, c2] x"
proof
  assume i: "inner_arg [c1, c2] x"
  have sz: "size x < size c1" by (rule size_call_arg[OF assms(1)])
  have "producer x = c1 \<or> producer x = c2 \<or> x = c1 \<or> x = c2"
    using i by (auto simp: inner_arg_def skip_arg_def producer_def split: expr.splits)
  moreover have "producer x \<noteq> c2" using assms(1,2) by (auto simp: uses_def)
  moreover have "x \<noteq> c2" using assms by (cases c2) (auto simp: uses_iff)
  ultimately show False using sz producer_size[of x] by auto
qed

lemma fusible_outer:
  assumes "main_ok ps body n" and "c1 \<in> outer body" "is_Call c1" "c2 \<in> outer body" "is_Call c2"
    and "c1 \<noteq> c2" and "\<not> uses c1 c2"
  shows "fusible (set ps) c1 c2 n"
  unfolding fusible_def using main_castable[OF assms(1-5)] outer_call_ok(4)[OF assms(1,4,5)] not_inner[OF _ assms(7,5)] assms(6)
  by blast

text \<open>The plan is one of the groups whose fusion has been analysed.\<close>

lemma fuse_plan_cases:
  assumes "main_ok ps body n" and "c1 \<in> outer body" "is_Call c1" "c2 \<in> outer body" "is_Call c2" and "c1 \<noteq> c2"
    and plan: "fuse_plan c1 c2 d = (grp, us)"
  obtains f s both where "grp = [f, s]" "{f, s} = {c1, c2}" "f \<noteq> s" "fusible (set ps) f s n"
    "dict_keys us = pair_outputs f s both" "\<forall>k v. map_of us k = Some v \<longrightarrow> v = dict_get_default d k []"
proof -
  let ?u = "\<lambda>c. dict_get_default d c []"
  let ?k = "\<lambda>c. if c \<in> set (dict_keys d) then [(c, ?u c)] else []"
  consider (one) "uses c1 c2" "grp = [c2, c1]" "us = ?k c2 @ [(c1, ?u c1)]"
    | (two) "\<not> uses c1 c2" "grp = [c1, c2]" "us = ?k c1 @ [(c2, ?u c2)] \<or> us = [(c1, ?u c1), (c2, ?u c2)]"
    using plan get_args_key_iff[OF assms(3), of c2] get_args_key_iff[OF assms(5), of c1]
    by (auto simp: fuse_plan_def Let_def split: if_splits)
  then show thesis
  proof cases
    case one
    have "\<not> uses c2 c1" using uses_size[OF one(1)] uses_size[of c2 c1] by auto
    then have "fusible (set ps) c2 c1 n" using fusible_outer assms by metis
    moreover have "dict_keys us = pair_outputs c2 c1 (c2 \<in> set (dict_keys d))" by (auto simp: one(3) pair_outputs_def)
    moreover have "\<forall>k v. map_of us k = Some v \<longrightarrow> v = ?u k" using one(3) by (auto split: if_splits)
    ultimately show thesis using that[OF one(2) _ _ _] assms(6) by blast
  next
    case two
    have f: "fusible (set ps) c1 c2 n" using fusible_outer assms two(1) by metis
    have "dict_keys us = pair_outputs c1 c2 True \<or> dict_keys us = pair_outputs c1 c2 False"
      using two(3) by (cases "c1 \<in> set (dict_keys d)") (auto simp: pair_outputs_def)
    moreover have "\<forall>k v. map_of us k = Some v \<longrightarrow> v = ?u k" using two(3) by (auto split: if_splits)
    ultimately show thesis using that[of c1 c2] assms(6) two(2) f by blast
  qed
qed

lemma add_outputs:
  assumes "f \<noteq> s" and "res_fold add_output (pair_outputs f s both) (GroupOp [f, s]) = Inr g"
  shows "g = pair_group f s both"
  using assms by (auto simp: pair_outputs_def pair_group_def add_output_def GroupOp_def and_then_eq_Inr split: if_splits)



section \<open>The replacements\<close>

text \<open>A replacement of an output, or of a component of an output, by a component of the fused call.\<close>

definition repl_ok :: "'v interp \<Rightarrow> expr \<Rightarrow> expr \<Rightarrow> expr \<Rightarrow> expr \<Rightarrow> expr \<Rightarrow> expr \<Rightarrow> bool" where
  "repl_ok I body c f s x y \<longleftrightarrow> x \<in> outer body \<and> (x = f \<or> x = s \<or> (\<exists>u i. x = TupleGetItem u f i \<or> x = TupleGetItem u s i)) \<and>
     (y = c \<or> (\<exists>u i. y = TupleGetItem u c i)) \<and> checked_type y = checked_type x \<and> (\<forall>env. eval I env y = eval I env x) \<and>
     (is_Call x \<longrightarrow> is_Call y \<or> tensor_typed x)"

definition map_ok :: "(expr \<Rightarrow> expr \<Rightarrow> bool) \<Rightarrow> (expr, expr) dict \<Rightarrow> bool" where
  "map_ok R m \<longleftrightarrow> (\<forall>x y. map_of m x = Some y \<longrightarrow> R x y)"

lemma map_ok_update: "map_ok R m \<Longrightarrow> R x y \<Longrightarrow> map_ok R (AList.update x y m)"
  by (auto simp: map_ok_def update_conv' split: if_splits)

lemma component_value:
  assumes "v = TupleV (pre @ tensors (Some (TupleType ts)) w @ post)" and "i < length ts"
  shows "project v (length pre + i) = project w i"
  using assms by (auto simp: project_def tensors_def nth_append)

lemma component_type:
  "checked_type c = Some (TupleType (pre @ ts @ post)) \<Longrightarrow> i < length ts \<Longrightarrow> checked_type (TupleGetItem u c (length pre + i)) = Some (ts ! i)"
  by (simp add: nth_append)

lemma output_map_ok:
  fixes I :: "'v interp"
  assumes out: "out \<in> outer body" "is_Call out" "out = f \<or> out = s" and main: "main_ok ps body n"
    and us: "\<forall>k us. map_of output_uses k = Some us \<longrightarrow> (\<forall>x \<in> set us. producer x = k \<and> x \<in> outer body)"
    and ty: "checked_type c = Some (TupleType (pre @ tensor_types (checked_type out) @ post))"
    and val: "\<And>env. \<exists>vs ws. length vs = length pre \<and> eval I env c = TupleV (vs @ tensors (checked_type out) (eval I env out) @ ws)"
    and m: "map_ok (repl_ok I body c f s) m"
    and r: "output_map c output_uses out ((m, length pre), k) = Inr ((m', off'), k')"
  shows "map_ok (repl_ok I body c f s) m'" "off' = length (pre @ tensor_types (checked_type out))" "k \<le> k'"
proof -
  have "map_ok (repl_ok I body c f s) m' \<and> off' = length (pre @ tensor_types (checked_type out)) \<and> k \<le> k'"
  proof (cases "checked_type out")
    case (Some t)
    show ?thesis
    proof (cases t)
      case (TensorType sh dt)
      have m': "m' = AList.update out (TupleGetItem k c (length pre)) m" "off' = length pre + 1" "k' = Suc k"
        using r Some TensorType by (auto simp: output_map_def)
      have "checked_type (TupleGetItem k c (length pre)) = checked_type out"
        using component_type[OF ty, of 0] Some TensorType by (simp add: tensor_types_def)
      moreover have "eval I env (TupleGetItem k c (length pre)) = eval I env out" for env
      proof -
        obtain vs ws where "length vs = length pre" "eval I env c = TupleV (vs @ tensors (checked_type out) (eval I env out) @ ws)"
          using val by blast
        then show ?thesis using Some TensorType by (simp add: project_def tensors_def nth_append)
      qed
      moreover have "tensor_typed out" using Some TensorType by (simp add: tensor_typed_def)
      ultimately have "repl_ok I body c f s out (TupleGetItem k c (length pre))" using out by (auto simp: repl_ok_def)
      then show ?thesis using m' map_ok_update[OF m] Some TensorType by (simp add: tensor_types_def)
    next
      case (TupleType ts)
      let ?g = "\<lambda>var (m, n). and_then (getitem_index var) (\<lambda>i. Inr (AList.update var (TupleGetItem n c (length pre + i)) m, Suc n))"
      obtain used where u: "map_of output_uses out = Some used" and fo: "res_fold ?g used (m, k) = Inr (m', k')" and off: "off' = length pre + length ts"
        using r Some TupleType by (auto simp: output_map_def and_then_eq_Inr dict_get_Inr)
      have step: "map_ok (repl_ok I body c f s) (fst st') \<and> k \<le> snd st'"
        if x: "x \<in> set used" and st: "map_ok (repl_ok I body c f s) (fst st) \<and> k \<le> snd st" and g: "?g x st = Inr st'" for x st st'
      proof -
        obtain m1 n1 where s1: "st = (m1, n1)" by (cases st)
        obtain w tv i where xi: "x = TupleGetItem w tv i" and st': "st' = (AList.update x (TupleGetItem n1 c (length pre + i)) m1, Suc n1)"
          using g s1 by (cases x) (auto simp: getitem_index_def)
        have "producer x = out" "x \<in> outer body" using us u x by blast+
        then have tv: "tv = out" "x \<in> outer body" using xi by (simp_all add: producer_def)
        have "args_typed x"
          using outer_inherits(2)[OF tv(2), of "set ps"] main by (simp add: main_ok_def)
        then have i: "i < length ts" using xi tv(1) Some TupleType by (simp split: if_splits)
        have t: "checked_type (TupleGetItem n1 c (length pre + i)) = checked_type x"
          using component_type[OF ty, of i] i xi tv(1) Some TupleType by (simp add: tensor_types_def)
        have v: "eval I env (TupleGetItem n1 c (length pre + i)) = eval I env x" for env
        proof -
          obtain vs ws where l: "length vs = length pre" and e: "eval I env c = TupleV (vs @ tensors (checked_type out) (eval I env out) @ ws)"
            using val by blast
          have "project (eval I env c) (length vs + i) = project (eval I env out) i"
            by (rule component_value[of _ _ ts _ ws]) (use e Some TupleType i in simp_all)
          then show ?thesis using l xi tv(1) by simp
        qed
        have "repl_ok I body c f s x (TupleGetItem n1 c (length pre + i))"
          using t v tv out(3) xi by (auto simp: repl_ok_def)
        then show ?thesis using map_ok_update st s1 st' by simp
      qed
      have "map_ok (repl_ok I body c f s) (fst (m', k')) \<and> k \<le> snd (m', k')"
      proof (rule res_fold_invariant[OF fo])
        show "map_ok (repl_ok I body c f s) (fst (m, k)) \<and> k \<le> snd (m, k)" using m by simp
      qed (rule step)
      then show ?thesis using off Some TupleType by (simp add: tensor_types_def)
    next
      case (OtherType nm)
      then show ?thesis using r Some by (auto simp: output_map_def and_then_eq_Inr)
    qed
  qed (use r in \<open>auto simp: output_map_def\<close>)
  then show "map_ok (repl_ok I body c f s) m'" "off' = length (pre @ tensor_types (checked_type out))" "k \<le> k'" by blast+
qed

lemma relay_call_map_ok:
  fixes I :: "'v interp"
  assumes f: "f \<in> outer body" "is_Call f" and s: "s \<in> outer body" "is_Call s" and main: "main_ok ps body n"
    and us: "\<forall>k us. map_of output_uses k = Some us \<longrightarrow> (\<forall>x \<in> set us. producer x = k \<and> x \<in> outer body)"
    and ty: "checked_type c = fused_type f s both" and val: "\<forall>env. eval I env c = fused_value I env f s both"
    and g: "goutput g = pair_outputs f s both" and r: "relay_call_map g c output_uses k = Inr (m, k')" and cc: "is_Call c"
  shows "map_ok (repl_ok I body c f s) m" "k \<le> k'"
proof -
  have "map_ok (repl_ok I body c f s) m \<and> k \<le> k'"
  proof (cases both)
    case False
    then have "m = [(s, c)]" "k' = k" using r g by (auto simp: relay_call_map_def pair_outputs_def)
    moreover have "repl_ok I body c f s s c" using s ty val False cc by (simp add: repl_ok_def fused_type_def fused_value_def)
    ultimately show ?thesis by (simp add: map_ok_def)
  next
    case True
    obtain m1 o1 k1 o2 where 1: "output_map c output_uses f (([], 0), k) = Inr ((m1, o1), k1)"
      and 2: "output_map c output_uses s ((m1, o1), k1) = Inr ((m, o2), k')"
      using r g True by (auto simp: relay_call_map_def pair_outputs_def and_then_eq_Inr)
    have t: "checked_type c = Some (TupleType (tensor_types (checked_type f) @ tensor_types (checked_type s)))"
      using ty True by (simp add: fused_type_def)
    have v: "eval I env c = TupleV (tensors (checked_type f) (eval I env f) @ tensors (checked_type s) (eval I env s))" for env
      using val True by (simp add: fused_value_def)
    have len: "length (tensors (checked_type f) w) = length (tensor_types (checked_type f))" for w :: "'v val"
      using outer_call_ok(5)[OF main f] by (auto simp: tensors_def tensor_types_def split: option.splits rtype.splits)
    have a: "map_ok (repl_ok I body c f s) m1 \<and> o1 = length ([] @ tensor_types (checked_type f)) \<and> k \<le> k1"
    proof (intro conjI)
      note ok = output_map_ok[OF f(1,2) disjI1[OF refl] main us, of c "[]" "tensor_types (checked_type s)" I s "[]" k m1 o1 k1]
      have "checked_type c = Some (TupleType ([] @ tensor_types (checked_type f) @ tensor_types (checked_type s)))" using t by simp
      moreover have "\<And>env. \<exists>vs ws. length vs = length ([] :: rtype list) \<and> eval I env c = TupleV (vs @ tensors (checked_type f) (eval I env f) @ ws)"
        using v by simp
      moreover have "map_ok (repl_ok I body c f s) []" by (simp add: map_ok_def)
      ultimately show "map_ok (repl_ok I body c f s) m1" "o1 = length ([] @ tensor_types (checked_type f))" "k \<le> k1"
        using ok 1 by simp_all
    qed
    then have o1: "o1 = length (tensor_types (checked_type f))" by simp
    note ok = output_map_ok[OF s(1,2) disjI2[OF refl] main us, of c "tensor_types (checked_type f)" "[]" I f m1 k1 m o2 k']
    have "checked_type c = Some (TupleType (tensor_types (checked_type f) @ tensor_types (checked_type s) @ []))" using t by simp
    moreover have "\<And>env. \<exists>vs ws. length vs = length (tensor_types (checked_type f)) \<and> eval I env c = TupleV (vs @ tensors (checked_type s) (eval I env s) @ ws)"
      using v len by (metis append_Nil2)
    ultimately have "map_ok (repl_ok I body c f s) m" "k1 \<le> k'" using ok a 2[unfolded o1] by simp_all
    then show ?thesis using a by simp
  qed
  then show "map_ok (repl_ok I body c f s) m" "k \<le> k'" by blast+
qed



section \<open>The rewritten main function\<close>

lemma anchors_call_get: "outer_ok P x \<Longrightarrow> is_Call x \<or> is_TupleGetItem x \<Longrightarrow> anchors x \<noteq> {}"
  by (cases x) (auto simp: list_ex_iff)

lemma params_kept_main:
  assumes "list_all is_Var ps" and "\<forall>p \<in> set ps. map_of m p = None" and "params_kept m body"
  shows "params_kept m (Function u ps body t a)"
  unfolding params_kept_def
proof
  fix x assume "x \<in> nodes (Function u ps body t a)"
  then consider "x = Function u ps body t a" | p where "p \<in> set ps" "x \<in> nodes p" | "x \<in> nodes body"
    using nodes_unfold[of x "Function u ps body t a"] by auto
  then show "case x of Function u ps b t a \<Rightarrow> \<forall>p \<in> set ps. is_Var p \<and> map_of m p = None | _ \<Rightarrow> True"
  proof cases
    case 1
    then show ?thesis using assms(1,2) by (simp add: list_all_iff)
  next
    case (2 p)
    then have "is_Var p" using assms(1) by (simp add: list_all_iff)
    then have "is_Var x" using 2(2) nodes_unfold[of x p] by (cases p) auto
    then show ?thesis by (cases x) auto
  next
    case 3
    then show ?thesis using assms(3) unfolding params_kept_def by blast
  qed
qed

text \<open>The replacements are outside the fused call, so the visit of a replacement leaves it as it is.\<close>

definition fused_pair :: "'v interp \<Rightarrow> expr list \<Rightarrow> expr \<Rightarrow> nat \<Rightarrow> expr \<Rightarrow> expr \<Rightarrow> expr \<Rightarrow> (expr, expr) dict \<Rightarrow> nat \<Rightarrow> bool" where
  "fused_pair I ps body n f s c m n' \<longleftrightarrow> main_ok ps body n \<and> f \<in> outer body \<and> is_Call f \<and> s \<in> outer body \<and> is_Call s \<and>
     separated f s \<and> outer_ok (set ps) c \<and> args_typed c \<and> n \<le> n' \<and> map_ok (repl_ok I body c f s) m \<and>
     (\<exists>u w vs b t at. c = Call u (Function w vs b t at) (init_args [f, s]) None \<and> vs \<noteq> [] \<and>
        (\<forall>v \<in> set vs. n \<le> var_addr v \<and> var_addr v < n'))"

lemma repl_ok_kind: "repl_ok I body c f s x y \<Longrightarrow> is_Call f \<Longrightarrow> is_Call s \<Longrightarrow> is_Call x \<or> is_TupleGetItem x"
  unfolding repl_ok_def by auto

lemma fused_pairD:
  assumes "fused_pair I ps body n f s c m n'"
  shows "main_ok ps body n" "f \<in> outer body" "is_Call f" "s \<in> outer body" "is_Call s" "separated f s"
    "outer_ok (set ps) c" "args_typed c" "n \<le> n'" "\<And>x y. map_of m x = Some y \<Longrightarrow> repl_ok I body c f s x y"
    "\<And>x y. map_of m x = Some y \<Longrightarrow> is_Call x \<or> is_TupleGetItem x" "is_Call c" "call_args c = init_args [f, s]"
proof -
  have F: "main_ok ps body n \<and> f \<in> outer body \<and> is_Call f \<and> s \<in> outer body \<and> is_Call s \<and>
     separated f s \<and> outer_ok (set ps) c \<and> args_typed c \<and> n \<le> n'" and m: "map_ok (repl_ok I body c f s) m"
    and c: "\<exists>u w vs b t at. c = Call u (Function w vs b t at) (init_args [f, s]) None"
    using assms unfolding fused_pair_def by blast+
  show "main_ok ps body n" "f \<in> outer body" "is_Call f" "s \<in> outer body" "is_Call s" "separated f s"
    "outer_ok (set ps) c" "args_typed c" "n \<le> n'" using F by simp_all
  show "\<And>x y. map_of m x = Some y \<Longrightarrow> repl_ok I body c f s x y" using m unfolding map_ok_def by blast
  then show "\<And>x y. map_of m x = Some y \<Longrightarrow> is_Call x \<or> is_TupleGetItem x" using repl_ok_kind F by metis
  show "is_Call c" "call_args c = init_args [f, s]" using c by auto
qed

lemma fused_pair_keys:
  assumes F: "fused_pair I ps body n f s c m n'"
  shows "outer_keys (set ps) m"
  unfolding outer_keys_def
proof (intro allI impI)
  fix x y assume x: "map_of m x = Some y"
  then have "x \<in> outer body" using fused_pairD(10)[OF F x] by (simp add: repl_ok_def)
  then have "outer_ok (set ps) x" using outer_inherits(1) fused_pairD(1)[OF F] by (simp add: main_ok_def)
  then show "outer_ok (set ps) x \<and> anchors x \<noteq> {}" using anchors_call_get fused_pairD(11)[OF F x] by blast
qed

lemma fused_pair_fparams:
  assumes F: "fused_pair I ps body n f s c m n'"
  shows "\<exists>v \<in> fparams c. n \<le> var_addr v" "\<forall>v \<in> fparams c. var_addr v < n'"
proof -
  obtain u w vs b t at where c: "c = Call u (Function w vs b t at) (init_args [f, s]) None" "vs \<noteq> []"
    "\<forall>v \<in> set vs. n \<le> var_addr v \<and> var_addr v < n'" using F unfolding fused_pair_def by blast
  then show "\<exists>v \<in> fparams c. n \<le> var_addr v" by (cases vs) auto
  have sub: "fparams x \<subseteq> fparams f \<union> fparams s" if "x \<in> set (init_args [f, s])" for x
  proof -
    have "x \<in> set (call_args f) \<or> x \<in> set (call_args s)" using that by (auto simp: set_init_args)
    moreover have "fparams y \<subseteq> fparams k" if "y \<in> set (call_args k)" for y k
      using that by (cases k rule: expr.exhaust) auto
    ultimately show ?thesis by blast
  qed
  have "var_addr v < n" if "v \<in> fparams f \<union> fparams s" for v
    using outer_call_ok(3)[OF fused_pairD(1-3)[OF F]] outer_call_ok(3)[OF fused_pairD(1,4,5)[OF F]] that by blast
  moreover have "fparams c = set vs \<union> \<Union> (fparams ` set (init_args [f, s]))" by (simp add: c(1))
  ultimately show "\<forall>v \<in> fparams c. var_addr v < n'"
    using sub c(3) fused_pairD(9)[OF F] less_le_trans by blast
qed

lemma fused_call_no_key:
  assumes F: "fused_pair I ps body n f s c m n'"
  shows "map_of m c = None" "map_of m (TupleGetItem v c i) = None"
proof -
  have new: "c \<noteq> f" "c \<noteq> s"
    using fused_pair_fparams(1)[OF F] outer_call_ok(3)[OF fused_pairD(1-3)[OF F]] outer_call_ok(3)[OF fused_pairD(1,4,5)[OF F]]
    by (auto dest!: bspec)
  have no: "\<not> is_TupleGetItem c" using fused_pairD(12)[OF F] by (cases c) auto
  show "map_of m c = None"
  proof (rule ccontr)
    assume "map_of m c \<noteq> None"
    then obtain y where "repl_ok I body c f s c y" using fused_pairD(10)[OF F] by blast
    then show False using new no unfolding repl_ok_def by (metis is_TupleGetItem.simps(1))
  qed
  show "map_of m (TupleGetItem v c i) = None"
  proof (rule ccontr)
    assume "map_of m (TupleGetItem v c i) \<noteq> None"
    then obtain y where "repl_ok I body c f s (TupleGetItem v c i) y" using fused_pairD(10)[OF F] by blast
    then have "TupleGetItem v c i = f \<or> TupleGetItem v c i = s \<or> c = f \<or> c = s" unfolding repl_ok_def by blast
    then show False using new fused_pairD(3,5)[OF F] by auto
  qed
qed

lemma fused_call_stays:
  assumes F: "fused_pair I ps body n f s c m n'"
  shows "subst m c = c"
proof -
  obtain u w vs b t at where c: "c = Call u (Function w vs b t at) (init_args [f, s]) None" using F unfolding fused_pair_def by blast
  note keys = fused_pair_keys[OF F]
  have "subst m x = x" if x: "x \<in> set (init_args [f, s])" for x
  proof (rule subst_outer_id[OF keys])
    show "outer_ok (set ps) x" using fused_pairD(7)[OF F] x by (simp add: c list_all_iff)
    show "\<forall>z \<in> outer x. map_of m z = None"
    proof (rule ballI, rule ccontr)
      fix z assume z: "z \<in> outer x" "map_of m z \<noteq> None"
      then have "z = f \<or> z = s \<or> (\<exists>u i. z = TupleGetItem u f i \<or> z = TupleGetItem u s i)"
        using fused_pairD(10)[OF F] unfolding repl_ok_def by blast
      then have "f \<in> outer x \<or> s \<in> outer x" using z(1) subs_kid[OF z(1)] by (auto simp: kids_def)
      then show False using fused_pairD(6)[OF F] x by (auto simp: separated_def)
    qed
  qed
  then have "map (subst m) (init_args [f, s]) = init_args [f, s]" by (simp add: map_idI)
  moreover have "subst m (Function w vs b t at) = Function w vs b t at"
    by (rule subst_function_id[OF keys, of _ "init_args [f, s]"]) (use fused_pairD(7)[OF F] c in simp)
  ultimately show ?thesis using fused_call_no_key(1)[OF F] unfolding c by (simp only: subst_None)
qed

lemma fused_pair_image:
  assumes F: "fused_pair I ps body n f s c m n'" and x: "map_of m x = Some y"
  shows "outer_ok (set ps) y" "anchors y \<noteq> {}" "checked_type y = checked_type x" "eval I env y = eval I env x"
    "args_typed y" "fparams y \<subseteq> fparams c" "subst m y = y" "is_Call x \<Longrightarrow> is_Call y \<or> tensor_typed x"
proof -
  have r: "repl_ok I body c f s x y" by (rule fused_pairD(10)[OF F x])
  have an: "anchors c \<noteq> {}" by (rule anchors_call_get[OF fused_pairD(7)[OF F]]) (simp add: fused_pairD(12)[OF F])
  have y: "y = c \<or> (\<exists>v i. y = TupleGetItem v c i)" using r by (simp add: repl_ok_def)
  show ty: "checked_type y = checked_type x" "eval I env y = eval I env x" using r by (simp_all add: repl_ok_def)
  show "is_Call x \<Longrightarrow> is_Call y \<or> tensor_typed x" using r by (simp add: repl_ok_def)
  have cc: "is_Call c" using fused_pairD(12)[OF F] by simp
  show "outer_ok (set ps) y" "anchors y \<noteq> {}" "fparams y \<subseteq> fparams c" using y fused_pairD(7)[OF F] an by auto
  show "subst m y = y" using y fused_call_stays[OF F] fused_call_no_key[OF F] by (auto simp: subst_None)
  have "x \<in> outer body" using r by (simp add: repl_ok_def)
  then have "args_typed x" using outer_inherits(2)[of x body "set ps"] fused_pairD(1)[OF F] by (simp add: main_ok_def)
  then have "checked_type y \<noteq> None" using fused_pairD(11)[OF F x] ty(1) by (cases x) auto
  then show "args_typed y" using y cc fused_pairD(8)[OF F] by (auto simp del: checked_type.simps)
qed

lemma fused_pair_stable:
  assumes F: "fused_pair I ps body n f s c m n'"
  shows "stable_map m"
  unfolding stable_map_def
  using fused_pair_image(1,7)[OF F] params_kept_outer[OF fused_pair_keys[OF F]] by blast

lemma fused_pair_params:
  assumes F: "fused_pair I ps body n f s c m n'" and p: "p \<in> set ps"
  shows "map_of m p = None" "subst m p = p"
proof -
  have v: "is_Var p" using fused_pairD(1)[OF F] p by (simp add: main_ok_def list_all_iff)
  then show none: "map_of m p = None" using fused_pairD(11)[OF F, of p] by (cases p; cases "map_of m p") auto
  show "subst m p = p" using v none by (cases p rule: expr.exhaust) auto
qed

lemma fused_body_ok:
  assumes F: "fused_pair I ps body n f s c m n'" and e: "erase body' = erase (subst m body)" and k: "n' \<le> k"
  shows "main_ok ps body' k" "checked_type body' = checked_type body" "eval I env body' = eval I env body"
proof -
  note keys = fused_pair_keys[OF F] and img = fused_pair_image[OF F]
  have bo: "outer_ok (set ps) body" "list_all is_Var ps" "args_typed body" "anchors body \<noteq> {}"
    "\<forall>v \<in> set ps \<union> fparams body. var_addr v < n" using fused_pairD(1)[OF F] unfolding main_ok_def by blast+
  have "outer_ok (set ps) (subst m body)"
    by (rule subst_outer[OF keys _ _ bo(1)]) (use img(1-3) fparams_outer[OF bo(1)] in auto)
  moreover have "args_typed (subst m body)" by (rule subst_args_typed[OF keys _ bo(1,3)]) (use img(3,5,8) in blast)
  moreover have "anchors (subst m body) \<noteq> {}" by (rule subst_anchors_nonempty[OF _ bo(4)]) (use img(2) in blast)
  moreover have "fparams (subst m body) \<subseteq> fparams body \<union> fparams c"
    by (rule subst_fparams[OF keys _ bo(1)]) (use img(6) in blast)
  then have "\<forall>p \<in> set ps \<union> fparams (subst m body). var_addr p < k"
    using fused_pair_fparams(2)[OF F] bo(5) k fused_pairD(9)[OF F] by (meson UnE le_trans less_le_trans subsetD UnCI)
  ultimately have "main_ok ps (subst m body) k" using bo(2) by (simp add: main_ok_def)
  then show "main_ok ps body' k"
    using erase_eqD(3,5)[OF e] args_typed_erase[of body'] args_typed_erase[of "subst m body"]
      fparams_erase[of body'] fparams_erase[of "subst m body"] e by (simp add: main_ok_def)
  have "checked_type (subst m body) = checked_type body" by (rule subst_type[OF keys _ bo(1)]) (use img(3) in blast)
  then show "checked_type body' = checked_type body" using erase_eqD(2)[OF e] by simp
  have "eval I env (subst m body) = eval I env body" by (rule subst_eval[OF keys _ _ bo(1)]) (use img(4) in auto)
  then show "eval I env body' = eval I env body" using erase_eqD(1)[OF e, of I env] by simp
qed

lemma fused_main:
  assumes F: "fused_pair I ps body n f s c m n'" and r: "ReplaceParams limit m (Function v ps body rt a) k = Inr (main', k')"
  shows "\<exists>v' body'. main' = Function v' ps body' rt a \<and> erase body' = erase (subst m body)"
proof -
  have bo: "outer_ok (set ps) body" "list_all is_Var ps" using fused_pairD(1)[OF F] by (simp_all add: main_ok_def)
  have "erase main' = erase (subst m (Function v ps body rt a))"
    by (rule ReplaceParams_subst[OF fused_pair_stable[OF F] _ r], rule params_kept_main[OF bo(2)])
      (use fused_pair_params(1)[OF F] params_kept_outer[OF fused_pair_keys[OF F] bo(1)] in blast)+
  moreover have "map (subst m) ps = ps" using fused_pair_params(2)[OF F] by (simp add: map_idI)
  ultimately show ?thesis by (cases main') auto
qed

lemma fused_type_ok:
  assumes "checked_type s \<noteq> None" "checked_type s \<noteq> Some (TupleType [])"
  shows "fused_type f s both \<noteq> None" "fused_type f s both \<noteq> Some (TupleType [])"
  using assms by (auto simp: fused_type_def tensor_types_def split: option.splits rtype.splits if_splits)

lemma InferType_id: "InferType f = Inr g \<Longrightarrow> g = f"
  by (cases f) (auto simp: InferType_def split: option.splits if_splits)

theorem fusion_step:
  fixes I :: "'v interp"
  assumes main: "main_ok ps body n" and c1: "c1 \<in> outer body" "is_Call c1" and c2: "c2 \<in> outer body" "is_Call c2"
    and ne: "c1 \<noteq> c2" and sep: "separated c1 c2" and cl: "set call_list \<subseteq> outer body"
    and r: "fusion_call2call limit (c1, c2) (Function v ps body rt a) call_list n = Inr (main', n')"
  shows "\<exists>v' body'. main' = Function v' ps body' rt a \<and> main_ok ps body' n' \<and> checked_type body' = checked_type body \<and>
    (\<forall>env. eval I env body' = eval I env body)"
proof -
  let ?d = "uses_outside body c1 c2 call_list"
  obtain grp us where plan: "fuse_plan c1 c2 ?d = (grp, us)" by (cases "fuse_plan c1 c2 ?d")
  obtain f s both where p: "grp = [f, s]" "{f, s} = {c1, c2}" "f \<noteq> s" "fusible (set ps) f s n"
    "dict_keys us = pair_outputs f s both" "\<forall>k v. map_of us k = Some v \<longrightarrow> v = dict_get_default ?d k []"
    by (rule fuse_plan_cases[OF main c1 c2 ne plan])
  have f: "f \<in> outer body" "is_Call f" and s: "s \<in> outer body" "is_Call s" using p(2) c1 c2 by (auto simp: doubleton_eq_iff)
  have sp: "separated f s" using sep separated_swap p(2) by (auto simp: doubleton_eq_iff)
  obtain g0 g k1 c m k2 where g0: "res_fold add_output (dict_keys us) (GroupOp grp) = Inr g0"
    and fu: "Group_Op.fuse limit g0 n = Inr (g, k1)" and c: "fused_func g = Some c"
    and mp: "relay_call_map g c us k1 = Inr (m, k2)" and rp: "ReplaceParams limit m (Function v ps body rt a) k2 = Inr (main', n')"
    using r plan by (auto simp: fusion_call2call_def Let_def and_then_eq_Inr split: option.splits dest!: InferType_id)
  have g0': "g0 = pair_group f s both" using add_outputs[OF p(3)] g0 p(1,5) by simp
  obtain u w vs b t at where fc: "c = Call u (Function w vs b t at) (init_args [f, s]) None" "outer_ok (set ps) c"
    "\<forall>env. eval I env c = fused_value I env f s both" "checked_type c = fused_type f s both"
    "goutput g = pair_outputs f s both" "vs \<noteq> []" "\<forall>v \<in> set vs. n \<le> var_addr v \<and> var_addr v < k1"
    using fuse_call[OF p(4) fu[unfolded g0'], of I] unfolding c by (elim exE conjE) (metis option.inject)
  have uo: "\<forall>k us'. map_of us k = Some us' \<longrightarrow> (\<forall>x \<in> set us'. producer x = k \<and> x \<in> outer body)"
  proof (intro allI impI ballI)
    fix k us' x assume "map_of us k = Some us'" "x \<in> set us'"
    then have "x \<in> set (dict_get_default ?d k [])" using p(6) by blast
    then obtain xs where "map_of ?d k = Some xs" "x \<in> set xs"
      by (cases "map_of ?d k") (auto simp: dict_get_default_def)
    then show "producer x = k \<and> x \<in> outer body" using uses_outside_ok[OF cl] uses_okD by blast
  qed
  note mo = relay_call_map_ok[OF f s main uo fc(4,3,5) mp, unfolded fc(1), simplified, folded fc(1)]
  have "list_all tensor_typed (init_args [f, s]) \<and> list_all args_typed (init_args [f, s])"
  proof -
    have "tensor_typed x \<and> args_typed x" if "x \<in> set (init_args [f, s])" for x
    proof -
      have "x \<in> set (call_args f) \<or> x \<in> set (call_args s)" using that by (auto simp: set_init_args)
      moreover have "args_typed y" if "args_typed k" "y \<in> set (call_args k)" for y k
        using that by (cases k rule: expr.exhaust) (auto simp: list_all_iff)
      ultimately show ?thesis
        using outer_call_ok(2,6)[OF main f] outer_call_ok(2,6)[OF main s] by (auto simp: list_all_iff)
    qed
    then show ?thesis by (simp add: list_all_iff)
  qed
  then have "args_typed c"
    using fused_type_ok[of s f both] outer_call_ok(4,5)[OF main s] fc(1,4) by (simp del: checked_type.simps)
  moreover have "n \<le> k1" using fc(6,7) by (cases vs) auto
  ultimately have F: "fused_pair I ps body n f s c m k1"
    unfolding fused_pair_def using main f s sp fc(1,2,6,7) mo(1) by blast
  obtain v' body' where b: "main' = Function v' ps body' rt a" "erase body' = erase (subst m body)"
    using fused_main[OF F rp] by blast
  have "k1 \<le> n'" using mo(2) rp advances_mutators(1)[of k2 limit m] by (fastforce simp: advances_def)
  then show ?thesis using b fused_body_ok[OF F b(2)] by blast
qed

end
