(* ===== verification/Dnn_Fusion.thy ===== *)
theory Dnn_Fusion
  imports Graph_Partitioner Group_Op
begin

text \<open>
  \<^verbatim>\<open>DNNFusion\<close> (\<^verbatim>\<open>relay/transform/dnn_fusion.py\<close>): the calls of a function are split into groups from the
  last call upwards by the mapping types of their operators, and every group is fused.

  The loops are \<^const>\<open>run_while\<close>: they may raise, and where nothing bounds them they may not return.
\<close>

section \<open>Mapping types\<close>

datatype MappingType = OneToOne | OneToMany | ManyToMany | Reorganize | Shuffle | MTuple | MOpaque | Parallel

fun mapping_value :: "MappingType \<Rightarrow> int" where
  "mapping_value OneToOne = 0"
| "mapping_value OneToMany = 1"
| "mapping_value ManyToMany = 2"
| "mapping_value Reorganize = 3"
| "mapping_value Shuffle = 4"
| "mapping_value MTuple = 7"
| "mapping_value MOpaque = 8"
| "mapping_value Parallel = 9"

type_synonym mapping = "MappingType option"

text \<open>\<^verbatim>\<open>register_pattern\<close> and \<^verbatim>\<open>get_pattern\<close>: an attribute of the operators, \<^const>\<open>None\<close> where it is not registered.\<close>

type_synonym df_registry = "(string, MappingType) dict"

definition register_pattern :: "string \<Rightarrow> MappingType \<Rightarrow> df_registry \<Rightarrow> df_registry" where
  "register_pattern op_name pat R = AList.update op_name pat R"

definition df_patterns :: df_registry where
  "df_patterns = register_pattern ''add'' OneToMany (register_pattern ''multiply'' OneToMany
     (register_pattern ''nn.conv2d'' ManyToMany []))"

definition get_pattern :: "df_registry \<Rightarrow> expr \<Rightarrow> mapping res" where
  "get_pattern R f = (case f of Op nm \<Rightarrow> Inr (map_of R nm) | _ \<Rightarrow> Inl AttributeError)"

definition call_pattern :: "df_registry \<Rightarrow> expr \<Rightarrow> mapping res" where
  "call_pattern R c = and_then (call_op c) (get_pattern R)"

text \<open>\<^verbatim>\<open>TagFuseMapper\<close>.\<close>

type_synonym tag_mapper = "(string, MappingType) dict"

definition register_tag_pattern :: "string \<Rightarrow> MappingType \<Rightarrow> tag_mapper \<Rightarrow> tag_mapper" where
  "register_tag_pattern key v m = AList.update key v m"

definition get_tag_pattern :: "tag_mapper \<Rightarrow> string \<Rightarrow> MappingType" where
  "get_tag_pattern m key = (if key \<notin> set (dict_keys m) then MOpaque else dict_get_default m key MOpaque)"

text \<open>\<^verbatim>\<open>pattern_map\<close>, \<^verbatim>\<open>fuseable\<close> and \<^verbatim>\<open>fuse_table\<close>.\<close>

definition pattern_map :: "(int, MappingType) dict" where
  "pattern_map = [(ELEMWISE, OneToOne), (BROADCAST, OneToMany), (INJECTIVE, OneToOne), (COMM_REDUCE, ManyToMany),
     (OUT_ELEMWISE_FUSABLE, ManyToMany), (TUPLE, MTuple), (OPAQUE, MOpaque)]"

definition fuseable :: "mapping \<Rightarrow> mapping \<Rightarrow> bool" where
  "fuseable first_op second_op \<longleftrightarrow>
     \<not> (first_op \<in> {Some OneToMany, Some ManyToMany} \<and> second_op \<in> {Some ManyToMany})"

definition fuse_table :: "mapping \<Rightarrow> mapping \<Rightarrow> mapping" where
  "fuse_table first_op second_op =
     (if first_op = Some OneToOne then second_op
      else if first_op \<in> {Some OneToMany, Some ManyToMany} then first_op
      else if second_op \<in> {Some OneToMany, Some ManyToMany} then second_op
      else if second_op = Some Reorganize then Some Reorganize
      else first_op)"

text \<open>
  \<^verbatim>\<open>change_node_pattern\<close>: every pattern of the graph is replaced by its mapping type, a number of the same kind.
  The nodes of \<^verbatim>\<open>post_dfs_order\<close> are those of \<^verbatim>\<open>node_map\<close>, so the final assertion asks that they are there.
\<close>

definition change_pattern :: "expr \<times> ifg_node \<Rightarrow> (expr \<times> ifg_node) res" where
  "change_pattern = (\<lambda>(k, nd). case node_pattern nd of
       None \<Rightarrow> Inl KeyError
     | Some p \<Rightarrow> and_then (dict_get pattern_map p) (\<lambda>t. Inr (k, nd\<lparr>node_pattern := Some (mapping_value t)\<rparr>)))"

definition change_node_pattern :: "ifg \<Rightarrow> ifg res" where
  "change_node_pattern g =
     and_then (res_map change_pattern (node_map g)) (\<lambda>m.
     and_then (py_assert (set (post_dfs_order g) \<subseteq> set (dict_keys m))) (\<lambda>_. Inr (g\<lparr>node_map := m\<rparr>)))"


section \<open>Sorting the calls\<close>

definition group_depends :: "expr list \<Rightarrow> expr \<Rightarrow> expr list" where
  "group_depends call_group node = filter (\<lambda>arg. arg \<in> set call_group) (call_args node)"

definition build_depends :: "expr list \<Rightarrow> (expr, expr list) dict" where
  "build_depends call_group = fold (\<lambda>node. AList.update node (group_depends call_group node)) call_group []"

text \<open>One round of \<^verbatim>\<open>topo_sort\<close>; \<^verbatim>\<open>depends.remove\<close> removes one occurrence.\<close>

definition pop_node :: "'a \<Rightarrow> ('a, 'a list) dict \<Rightarrow> ('a, 'a list) dict" where
  "pop_node node dep = map (\<lambda>(k, ds). (k, if node \<in> set ds then remove1 node ds else ds)) (AList.delete node dep)"

definition dnn_topo_round :: "('a, 'a list) dict \<times> 'a list \<Rightarrow> ('a, 'a list) dict \<times> 'a list" where
  "dnn_topo_round s =
     (let add_nodes = map fst (filter (\<lambda>(node, depends). depends = []) (fst s))
      in (fold pop_node add_nodes (fst s), snd s @ add_nodes))"

definition dnn_topo_sort :: "expr list \<Rightarrow> expr list option" where
  "dnn_topo_sort call_group =
     map_option snd (while_option (\<lambda>s. 0 < length (fst s)) dnn_topo_round (build_depends call_group, []))"

definition graph_calls :: "ifg \<Rightarrow> expr list" where
  "graph_calls g = concat (map (\<lambda>k.
     case node_ref (current_node g k) of Some e \<Rightarrow> if is_Call e then [e] else [] | None \<Rightarrow> []) (post_dfs_order g))"

definition get_call_nodes :: "ifg \<Rightarrow> expr list option" where
  "get_call_nodes g = dnn_topo_sort (graph_calls g)"

definition get_all_ancestor :: "expr \<Rightarrow> (expr, expr list) dict \<Rightarrow> expr set res option" where
  "get_all_ancestor node rel =
     run_then (run_while (\<lambda>(unvisit, anc). 0 < length unvisit) (\<lambda>(unvisit, anc).
         Some (and_then (py_nth unvisit 0) (\<lambda>node. and_then (dict_get rel node) (\<lambda>ds.
           Inr (remove1 node unvisit @ ds, insert node anc))))) ([node], {}))
       (\<lambda>(_, anc). Some (Inr anc))"


section \<open>Splitting into groups\<close>

text \<open>The state of the inner loop of \<^verbatim>\<open>partition\<close>.\<close>

record fuse_state =
  cand_nodes :: "expr list"
  fpattern :: mapping
  sub_group :: "expr list"
  call_group :: "expr list"
  unfused_nodes :: "expr set"

definition add_cand :: "expr list \<Rightarrow> expr \<Rightarrow> expr list \<Rightarrow> expr list" where
  "add_cand cg c cands = (if c \<in> set cg \<and> c \<notin> set cands then cands @ [c] else cands)"

definition fuse_candidate :: "df_registry \<Rightarrow> (expr, expr list) dict \<Rightarrow> fuse_state \<Rightarrow> fuse_state res option" where
  "fuse_candidate R rel s =
     run_then (Some (py_nth (cand_nodes s) 0)) (\<lambda>node.
       let cands = remove1 node (cand_nodes s)
       in run_then (Some (call_pattern R node)) (\<lambda>np.
          if fuseable np (fpattern s) then
            if node \<in> unfused_nodes s then Some (Inr (s\<lparr>cand_nodes := cands\<rparr>))
            else Some (and_then (py_remove node (call_group s)) (\<lambda>cg.
                 and_then (dict_get rel node) (\<lambda>ds.
                   Inr (s\<lparr>cand_nodes := fold (add_cand cg) ds cands, fpattern := fuse_table np (fpattern s),
                     sub_group := sub_group s @ [node], call_group := cg\<rparr>))))
          else run_then (get_all_ancestor node rel) (\<lambda>anc.
            Some (Inr (s\<lparr>cand_nodes := cands, unfused_nodes := unfused_nodes s \<union> anc\<rparr>)))))"

definition next_group :: "df_registry \<Rightarrow> (expr, expr list) dict \<Rightarrow> expr list \<times> expr list list \<Rightarrow> (expr list \<times> expr list list) res option" where
  "next_group R rel = (\<lambda>(cg, partial_group).
     run_then (Some (py_nth cg (- 1))) (\<lambda>node.
     run_then (Some (py_remove node cg)) (\<lambda>cg.
     run_then (Some (call_pattern R node)) (\<lambda>pat.
     run_then (Some (dict_get rel node)) (\<lambda>ds.
     run_then (run_while (\<lambda>s. 0 < length (cand_nodes s)) (fuse_candidate R rel)
         \<lparr>cand_nodes = ds, fpattern = pat, sub_group = [node], call_group = cg, unfused_nodes = {}\<rparr>) (\<lambda>s.
     case dnn_topo_sort (sub_group s) of
       None \<Rightarrow> None
     | Some sub \<Rightarrow> Some (Inr (call_group s, partial_group @ [sub]))))))))"

definition dnn_partition :: "df_registry \<Rightarrow> ifg \<Rightarrow> expr list list res option" where
  "dnn_partition R g =
     (case get_call_nodes g of
        None \<Rightarrow> None
      | Some cg \<Rightarrow> run_then (run_while (\<lambda>(cg, _). 0 < length cg) (next_group R (build_depends cg)) (cg, []))
          (\<lambda>(_, partial_group). Some (Inr partial_group)))"


section \<open>Fusing the groups\<close>

text \<open>\<^verbatim>\<open>call_map\<close> holds the position of the group of a call in \<^verbatim>\<open>packed_groups\<close>.\<close>

definition pack_groups :: "expr list list \<Rightarrow> group_op list \<times> (expr, nat) dict" where
  "pack_groups grps = (map GroupOp grps,
     fold (\<lambda>(i, grp). fold (\<lambda>k. AList.update k i) grp) (enumerate 0 grps) [])"

definition add_output_at :: "(expr, nat) dict \<Rightarrow> expr \<Rightarrow> group_op list \<Rightarrow> group_op list res" where
  "add_output_at call_map arg gs =
     and_then (dict_get call_map arg) (\<lambda>i. and_then (add_output arg (gs ! i)) (\<lambda>g. Inr (gs[i := g])))"

definition add_group_outputs :: "(expr, nat) dict \<Rightarrow> group_op list \<Rightarrow> group_op list res" where
  "add_group_outputs call_map gs =
     res_fold (\<lambda>arg gs. if is_Call arg \<and> arg \<in> set (dict_keys call_map) then add_output_at call_map arg gs else Inr gs)
       (concat (map gargs gs)) gs"

definition fuse_all :: "nat \<Rightarrow> group_op list \<Rightarrow> nat \<Rightarrow> (group_op list \<times> nat) res" where
  "fuse_all limit gs n =
     res_fold (\<lambda>g (gs, n). and_then (fuse limit g n) (\<lambda>(g, n). Inr (gs @ [g], n))) gs ([], n)"

text \<open>The replacement of every output by the fused call, or by its projection.\<close>

definition group_call_map :: "group_op \<Rightarrow> (expr, expr) dict \<times> nat \<Rightarrow> ((expr, expr) dict \<times> nat) res" where
  "group_call_map g s =
     (case fused_func g of
        None \<Rightarrow> Inl AttributeError
      | Some fused \<Rightarrow>
          if length (goutput g) = 1 then Inr (AList.update (goutput g ! 0) fused (fst s), snd s)
          else Inr (fold (\<lambda>(idx, out) (m, n). (AList.update out (TupleGetItem n fused idx) m, Suc n)) (enumerate 0 (goutput g)) s))"

definition fuse_op :: "nat \<Rightarrow> expr \<Rightarrow> group_op list \<Rightarrow> nat \<Rightarrow> (expr \<times> nat) res" where
  "fuse_op limit e fused_node n =
     and_then (res_fold group_call_map fused_node ([], n)) (\<lambda>(m, n). ReplaceParams limit m e n)"

definition run_fuse :: "nat \<Rightarrow> expr list list \<Rightarrow> expr \<Rightarrow> expr \<Rightarrow> nat \<Rightarrow> (expr \<times> nat) res" where
  "run_fuse limit grps body all_output n =
     (case pack_groups grps of (gs, call_map) \<Rightarrow>
        and_then (add_group_outputs call_map gs) (\<lambda>gs.
        and_then (add_output_at call_map all_output gs) (\<lambda>gs.
        and_then (fuse_all limit gs n) (\<lambda>(gs, n). fuse_op limit body gs n))))"

definition DNNFusion_transform :: "nat \<Rightarrow> op_registry \<Rightarrow> df_registry \<Rightarrow> expr \<Rightarrow> nat \<Rightarrow> (expr \<times> nat) res option" where
  "DNNFusion_transform limit R D body n =
     (case body of
        Function u ps out t at \<Rightarrow>
          run_then (Some (Create R body)) (\<lambda>g.
          run_then (Some (change_node_pattern g)) (\<lambda>g.
          run_then (dnn_partition D g) (\<lambda>grps. Some (run_fuse limit grps body out n))))
      | _ \<Rightarrow> Some (Inl AttributeError))"


section \<open>When sorting returns\<close>

lemma fold_pop_node:
  "fold pop_node ns dep = map (\<lambda>(k, ds). (k, fold remove1 ns ds)) (filter (\<lambda>(k, ds). k \<notin> set ns) dep)"
proof (induction ns arbitrary: dep)
  case (Cons n ns)
  have "pop_node n dep = map (\<lambda>(k, ds). (k, remove1 n ds)) (filter (\<lambda>(k, ds). k \<noteq> n) dep)"
    by (induction dep) (auto simp: pop_node_def remove1_idem)
  then show ?case by (simp add: Cons.IH filter_map o_def case_prod_unfold conj_commute)
qed simp

lemma fold_remove1:
  "mset (fold remove1 ns ds) = mset ds - mset ns"
  "distinct ds \<Longrightarrow> fold remove1 ns ds = filter (\<lambda>x. x \<notin> set ns) ds"
  by (induction ns arbitrary: ds)
    (auto simp: distinct_remove1_removeAll removeAll_filter_not_eq intro: filter_cong)

definition ready_nodes :: "('a, 'a list) dict \<Rightarrow> 'a list" where
  "ready_nodes dep = map fst (filter (\<lambda>(node, depends). depends = []) dep)"

lemma dnn_topo_round_eq:
  "dnn_topo_round (dep, new) = (map (\<lambda>(k, ds). (k, fold remove1 (ready_nodes dep) ds)) (filter (\<lambda>(k, ds). k \<notin> set (ready_nodes dep)) dep),
     new @ ready_nodes dep)"
  by (simp add: dnn_topo_round_def ready_nodes_def Let_def fold_pop_node)

lemma set_ready_nodes: "set (ready_nodes dep) = {k. (k, []) \<in> set dep}"
  by (force simp: ready_nodes_def)

lemma distinct_ready_nodes: "distinct (dict_keys dep) \<Longrightarrow> distinct (ready_nodes dep)"
  by (induction dep) (auto simp: ready_nodes_def)

lemma topo_from_all: "\<forall>x \<in> set xs. D x \<subseteq> S \<Longrightarrow> topo_from D S xs"
proof (induction xs arbitrary: S)
  case (Cons a xs)
  then have "\<forall>x \<in> set xs. D x \<subseteq> insert a S" by auto
  with Cons show ?case by simp
qed simp

text \<open>
  The state of the loop on a dependency dictionary without repetitions: the placed nodes are in order, and
  every other node keeps the dependencies that are not placed.
\<close>

definition dnn_sorting :: "('a \<Rightarrow> 'a list) \<Rightarrow> 'a set \<Rightarrow> ('a, 'a list) dict \<times> 'a list \<Rightarrow> bool" where
  "dnn_sorting D N s \<longleftrightarrow> distinct (dict_keys (fst s)) \<and> distinct (snd s) \<and>
     set (dict_keys (fst s)) \<inter> set (snd s) = {} \<and> set (dict_keys (fst s)) \<union> set (snd s) = N \<and>
     (\<forall>(k, ds) \<in> set (fst s). ds = filter (\<lambda>x. x \<notin> set (snd s)) (D k)) \<and> topo_ordered (\<lambda>k. set (D k)) (snd s)"

lemma dnn_sorting_round:
  assumes s: "dnn_sorting D N (dep, new)" and d: "\<forall>k \<in> N. distinct (D k)"
  shows "dnn_sorting D N (dnn_topo_round (dep, new))"
proof -
  let ?r = "ready_nodes dep"
  let ?dep = "map (\<lambda>(k, ds). (k, fold remove1 ?r ds)) (filter (\<lambda>(k, ds). k \<notin> set ?r) dep)"
  have keys: "dict_keys ?dep = filter (\<lambda>k. k \<notin> set ?r) (dict_keys dep)"
    by (simp add: filter_map o_def case_prod_unfold)
  have S: "distinct (dict_keys dep)" "distinct new" "set (dict_keys dep) \<inter> set new = {}" "set (dict_keys dep) \<union> set new = N"
      "\<forall>(k, ds) \<in> set dep. ds = filter (\<lambda>x. x \<notin> set new) (D k)" "topo_ordered (\<lambda>k. set (D k)) new"
    using s by (auto simp: dnn_sorting_def)
  have r: "set ?r \<subseteq> set (dict_keys dep)" by (force simp: set_ready_nodes)
  have "set (D k) \<subseteq> set new" if "k \<in> set ?r" for k
  proof -
    have "[] = filter (\<lambda>x. x \<notin> set new) (D k)" using that S(5) by (auto simp: set_ready_nodes)
    then show ?thesis by (auto dest!: sym[of "[]"] simp: filter_empty_conv)
  qed
  then have "topo_ordered (\<lambda>k. set (D k)) (new @ ?r)"
    using S(6) by (simp add: topo_from_append topo_from_all)
  moreover have "ds = filter (\<lambda>x. x \<notin> set (new @ ?r)) (D k)" if m: "(k, ds) \<in> set ?dep" for k ds
  proof -
    obtain es where es: "(k, es) \<in> set dep" "ds = fold remove1 ?r es" using m by auto
    have "es = filter (\<lambda>x. x \<notin> set new) (D k)" using bspec[OF S(5) es(1)] by simp
    moreover have "k \<in> set (dict_keys dep)" using es(1) by force
    then have "k \<in> N" using S(4) by blast
    ultimately show ?thesis using es(2) d by (simp add: fold_remove1(2) conj_commute)
  qed
  then have "\<forall>(k, ds) \<in> set ?dep. ds = filter (\<lambda>x. x \<notin> set (new @ ?r)) (D k)" by blast
  moreover have "distinct (dict_keys ?dep)" "distinct (new @ ?r)" "set (dict_keys ?dep) \<inter> set (new @ ?r) = {}"
      "set (dict_keys ?dep) \<union> set (new @ ?r) = N"
    unfolding keys using S(1-4) r distinct_ready_nodes[OF S(1)] by auto
  ultimately show ?thesis
    unfolding dnn_topo_round_eq dnn_sorting_def fst_conv snd_conv by blast
qed

lemma dnn_ready_ex:
  fixes rank :: "'a \<Rightarrow> nat"
  assumes s: "dnn_sorting D N (dep, new)" and closed: "\<forall>k \<in> N. set (D k) \<subseteq> N" and rank: "\<forall>k \<in> N. \<forall>x \<in> set (D k). rank x < rank k"
    and "dep \<noteq> []"
  shows "ready_nodes dep \<noteq> []"
proof -
  have "set (dict_keys dep) \<noteq> {}" using assms(4) by simp
  then obtain k where k: "k \<in> set (dict_keys dep)" "\<forall>y \<in> set (dict_keys dep). rank k \<le> rank y"
    using arg_min_if_finite(1)[of "set (dict_keys dep)" rank] arg_min_least[of "set (dict_keys dep)" _ rank] by (metis List.finite_set)
  then obtain ds where ds: "(k, ds) \<in> set dep" by auto
  have "x \<in> set new" if "x \<in> set (D k)" for x
  proof (rule ccontr)
    assume "x \<notin> set new"
    have "k \<in> N" using k s by (auto simp: dnn_sorting_def)
    then have "x \<in> N" "rank x < rank k" using that closed rank by auto
    with \<open>x \<notin> set new\<close> have "x \<in> set (dict_keys dep)" using s by (auto simp: dnn_sorting_def)
    with k \<open>rank x < rank k\<close> show False by (meson leD)
  qed
  moreover have "ds = filter (\<lambda>x. x \<notin> set new) (D k)" using ds s by (auto simp: dnn_sorting_def)
  ultimately have "ds = []" by (simp add: filter_empty_conv)
  with ds have "k \<in> set (ready_nodes dep)" by (simp add: set_ready_nodes)
  then show ?thesis by auto
qed

lemma dnn_topo_loop_returns:
  fixes rank :: "'a \<Rightarrow> nat"
  assumes "dnn_sorting D N (dep, [])" and d: "\<forall>k \<in> N. distinct (D k)"
    and closed: "\<forall>k \<in> N. set (D k) \<subseteq> N" and rank: "\<forall>k \<in> N. \<forall>x \<in> set (D k). rank x < rank k"
  shows "\<exists>r. while_option (\<lambda>s. 0 < length (fst s)) dnn_topo_round (dep, []) = Some ([], r) \<and> distinct r \<and> set r = N \<and>
    topo_ordered (\<lambda>k. set (D k)) r"
proof -
  have "\<exists>t. while_option (\<lambda>s. 0 < length (fst s)) dnn_topo_round (dep, []) = Some t \<and> dnn_sorting D N t \<and> \<not> 0 < length (fst t)"
  proof (rule while_option_total[where m = "\<lambda>s. length (fst s)"])
    fix s :: "('a, 'a list) dict \<times> 'a list" assume s: "dnn_sorting D N s" "0 < length (fst s)"
    obtain dp nw where e: "s = (dp, nw)" by (cases s)
    have "ready_nodes dp \<noteq> []" using dnn_ready_ex[of D N dp nw rank] s closed rank e by auto
    then obtain k where "k \<in> set (ready_nodes dp)" by (meson list.set_sel(1))
    then have "(k, []) \<in> set dp" by (simp add: set_ready_nodes)
    then have "length (filter (\<lambda>(k, ds). k \<notin> set (ready_nodes dp)) dp) < length dp"
      using \<open>k \<in> set (ready_nodes dp)\<close> by (intro length_filter_less) auto
    then show "dnn_sorting D N (dnn_topo_round s) \<and> length (fst (dnn_topo_round s)) < length (fst s)"
      using dnn_sorting_round[OF s(1)[unfolded e] d] by (simp add: e dnn_topo_round_eq)
  qed (rule assms(1))
  then obtain t where t: "while_option (\<lambda>s. 0 < length (fst s)) dnn_topo_round (dep, []) = Some t"
    "dnn_sorting D N t" "fst t = []" by auto
  then show ?thesis by (cases t) (auto simp: dnn_sorting_def)
qed

text \<open>A node that lists a dependency twice is never ready: placing the dependency removes one of the two.\<close>

definition dnn_stuck :: "'a \<Rightarrow> 'a \<Rightarrow> ('a, 'a list) dict \<times> 'a list \<Rightarrow> bool" where
  "dnn_stuck k x s \<longleftrightarrow> distinct (dict_keys (fst s)) \<and>
     (\<exists>ds. (k, ds) \<in> set (fst s) \<and> (if x \<in> set (dict_keys (fst s)) then 2 \<le> count (mset ds) x else 1 \<le> count (mset ds) x))"

lemma dnn_stuck_round:
  assumes "dnn_stuck k x s"
  shows "0 < length (fst s) \<and> dnn_stuck k x (dnn_topo_round s)"
proof -
  obtain dep new where e: "s = (dep, new)" by (cases s)
  let ?r = "ready_nodes dep"
  let ?dep = "map (\<lambda>(k, ds). (k, fold remove1 ?r ds)) (filter (\<lambda>(k, ds). k \<notin> set ?r) dep)"
  have keys: "dict_keys ?dep = filter (\<lambda>k. k \<notin> set ?r) (dict_keys dep)"
    by (simp add: filter_map o_def case_prod_unfold)
  obtain ds where ds: "(k, ds) \<in> set dep" "if x \<in> set (dict_keys dep) then 2 \<le> count (mset ds) x else 1 \<le> count (mset ds) x"
    and dist: "distinct (dict_keys dep)"
    using assms by (auto simp: dnn_stuck_def e)
  have "ds \<noteq> []" using ds(2) by (auto split: if_splits)
  then have k: "k \<notin> set ?r" using ds(1) dist by (auto simp: set_ready_nodes dest: eq_key_imp_eq_value)
  have in_dep: "(k, fold remove1 ?r ds) \<in> set ?dep" using ds(1) k by force
  have "count (mset ?r) x = (if x \<in> set ?r then 1 else 0)"
    using distinct_ready_nodes[OF dist] by (simp add: distinct_count_atmost_1)
  moreover have "x \<in> set ?r \<Longrightarrow> x \<in> set (dict_keys dep)" by (force simp: set_ready_nodes)
  ultimately have "if x \<in> set (dict_keys ?dep) then 2 \<le> count (mset (fold remove1 ?r ds)) x else 1 \<le> count (mset (fold remove1 ?r ds)) x"
    unfolding keys fold_remove1(1) using ds(2) by (simp split: if_splits del: count_mset_0_iff set_map)
  then have "dnn_stuck k x (?dep, new @ ?r)"
    unfolding dnn_stuck_def fst_conv using in_dep dist keys by (metis distinct_filter)
  with ds(1) show ?thesis by (auto simp: e dnn_topo_round_eq)
qed

lemma build_depends_eq: "distinct cg \<Longrightarrow> build_depends cg = map (\<lambda>c. (c, group_depends cg c)) cg"
proof -
  have "fold (\<lambda>node. AList.update node (f node)) xs acc = acc @ map (\<lambda>c. (c, f c)) xs"
    if "distinct xs" "set xs \<inter> set (dict_keys acc) = {}" for xs acc and f :: "expr \<Rightarrow> expr list"
    using that by (induction xs arbitrary: acc) (auto simp: update_new)
  then show "distinct cg \<Longrightarrow> ?thesis" by (simp add: build_depends_def)
qed

lemma size_call_args: "x \<in> set (call_args c) \<Longrightarrow> size x < size c"
  by (cases c) (auto dest!: size_elem_list)

lemma distinct_le1: "distinct xs \<longleftrightarrow> (\<forall>x. \<not> 2 \<le> count (mset xs) x)"
proof -
  have "count (mset xs) x = (if x \<in> set xs then 1 else 0) \<longleftrightarrow> \<not> 2 \<le> count (mset xs) x" for x
  proof (cases "x \<in> set xs")
    case True
    then have "0 < count (mset xs) x" by simp
    then show ?thesis using True by (auto simp del: count_greater_zero_iff)
  next
    case False
    then have "count (mset xs) x = 0" by simp
    then show ?thesis using False by (simp del: count_mset_0_iff)
  qed
  then show ?thesis by (simp add: distinct_count_atmost_1)
qed

lemma distinct_count: "distinct (filter P xs) \<longleftrightarrow> \<not> (\<exists>x. P x \<and> 2 \<le> count (mset xs) x)"
proof -
  have "count (mset (filter P xs)) x = (if P x then count (mset xs) x else 0)" for x by simp
  then show ?thesis by (simp add: distinct_le1)
qed

lemma dnn_topo_sort_ok:
  assumes "distinct cg" "\<forall>c \<in> set cg. distinct (group_depends cg c)"
  shows "\<exists>r. dnn_topo_sort cg = Some r \<and> distinct r \<and> set r = set cg \<and> topo_ordered (\<lambda>c. set (group_depends cg c)) r"
proof -
  have "dnn_sorting (group_depends cg) (set cg) (build_depends cg, [])"
    using assms(1) by (auto simp: dnn_sorting_def build_depends_eq o_def)
  from dnn_topo_loop_returns[OF this assms(2), of size]
  show ?thesis by (force simp: dnn_topo_sort_def group_depends_def size_call_args)
qed

lemma dnn_topo_sort_diverges:
  assumes "distinct cg" "c \<in> set cg" "\<not> distinct (group_depends cg c)"
  shows "dnn_topo_sort cg = None"
proof -
  obtain x where x: "x \<in> set cg" "2 \<le> count (mset (call_args c)) x"
    using assms(3) by (auto simp: group_depends_def distinct_count)
  have "dnn_stuck c x (build_depends cg, [])"
    unfolding dnn_stuck_def using assms(1,2) x
    by (auto simp: build_depends_eq o_def group_depends_def intro!: exI[of _ "group_depends cg c"])
  then show ?thesis
    unfolding dnn_topo_sort_def option.map_disc_iff
    by (rule while_option_diverges[where P = "dnn_stuck c x"]) (rule dnn_stuck_round)
qed


text \<open>C30: \<^verbatim>\<open>DNNFusion.topo_sort\<close> on distinct calls returns exactly when no call of the group lists another call of
  the group twice among its arguments; it then returns every call once, after the calls it uses. Otherwise it
  never returns.\<close>

theorem dnn_topo_sort_returns_iff:
  assumes "distinct cg"
  shows "case dnn_topo_sort cg of
      None \<Rightarrow> \<exists>c \<in> set cg. \<exists>x \<in> set cg. 2 \<le> count (mset (call_args c)) x
    | Some r \<Rightarrow> (\<forall>c \<in> set cg. \<forall>x \<in> set cg. count (mset (call_args c)) x \<le> 1) \<and>
        distinct r \<and> set r = set cg \<and> topo_ordered (\<lambda>c. set (call_args c) \<inter> set cg) r"
proof (cases "\<forall>c \<in> set cg. distinct (group_depends cg c)")
  case True
  then have "\<forall>c \<in> set cg. \<forall>x \<in> set cg. count (mset (call_args c)) x \<le> 1"
    unfolding group_depends_def distinct_count by (metis Suc_1 not_less_eq_eq)
  moreover have "(\<lambda>c. set (group_depends cg c)) = (\<lambda>c. set (call_args c) \<inter> set cg)" by (auto simp: group_depends_def)
  ultimately show ?thesis using dnn_topo_sort_ok[OF assms True] by auto
next
  case False
  then obtain c where c: "c \<in> set cg" "\<not> distinct (group_depends cg c)" by blast
  then show ?thesis
    using dnn_topo_sort_diverges[OF assms c] by (auto simp: group_depends_def distinct_count)
qed

definition ex_square :: expr where
  "ex_square = Call 6 (Op ''multiply'') [ex_a, ex_a] None"

theorem dnn_topo_sort_returns_iff_witness:
  "dnn_topo_sort [ex_b, ex_a] = Some [ex_a, ex_b] \<and> topo_ordered (\<lambda>c. set (call_args c) \<inter> {ex_b, ex_a}) [ex_a, ex_b] \<and>
   dnn_topo_sort [ex_a, ex_square] = None"
proof -
  have 1: "dnn_topo_sort [ex_b, ex_a] = Some [ex_a, ex_b]" by code_simp
  have "distinct [ex_b, ex_a]" "distinct [ex_a, ex_square]" by (simp_all add: ex_square_def ex_defs)
  note iff = this[THEN dnn_topo_sort_returns_iff]
  have "2 \<le> count (mset (call_args ex_square)) ex_a" by (simp add: ex_square_def)
  then have "dnn_topo_sort [ex_a, ex_square] = None" using iff(2) by (auto split: option.splits)
  with 1 iff(1) show ?thesis by simp
qed


section \<open>The groups of a partition\<close>





















definition ex_ifg :: "expr list \<Rightarrow> ifg" where
  "ex_ifg es = \<lparr>node_map = map (\<lambda>(i, e). (e, new_ifg_node\<lparr>node_ref := Some e, node_index := i\<rparr>)) (enumerate 0 es), post_dfs_order = es\<rparr>"


text \<open>
  Two convolutions of one activation and a third convolution of both: each of the two takes the activation into
  its group, and removing it from the calls a second time raises.
\<close>

definition ex_shared :: "expr list" where
  "ex_shared = (let a = Call 1 (Op ''nn.relu'') [ex_in] None; b = Call 2 (Op ''nn.conv2d'') [a] None;
     c = Call 3 (Op ''nn.conv2d'') [a] None; d = Call 4 (Op ''nn.conv2d'') [b, c] None in [ex_in, a, b, c, d])"

lemma shared_input_raises: "dnn_partition df_patterns (ex_ifg ex_shared) = Some (Inl ValueError)"
  by code_simp

text \<open>
  A group that is not convex: the second convolution reads one member of the first group and is read by
  another.
\<close>

definition ex_skip :: "expr list" where
  "ex_skip = (let x = Call 1 (Op ''add'') [ex_in, ex_in] None; w = Call 2 (Op ''nn.conv2d'') [ex_in] None;
     y = Call 3 (Op ''nn.conv2d'') [x] None; r = Call 4 (Op ''stack'') [x, w, y] None in [ex_in, x, w, y, r])"

lemma group_not_convex:
  "dnn_partition df_patterns (ex_ifg ex_skip) = Some (Inr [[ex_skip ! 1, ex_skip ! 2, ex_skip ! 4], [ex_skip ! 3]]) \<and>
   ex_skip ! 1 \<in> set (call_args (ex_skip ! 3)) \<and> ex_skip ! 3 \<in> set (call_args (ex_skip ! 4))"
  by code_simp

end
