(* ===== verification/Stencil_Fusion.thy ===== *)
theory Stencil_Fusion
  imports Fusion_Step Dnn_Fusion Stream_Solve
begin

text \<open>
  \<^verbatim>\<open>StencilFusion\<close> (\<^verbatim>\<open>relay/transform/dnn_fusion.py\<close>): pairs of independent parallel stencils and pairs of
  pointwise stencils of which one reads the other are fused, all pairs in one rewriting of the function.

  The calls are iterated in the order of a Python \<^verbatim>\<open>set\<close>, which is a parameter (\<open>ord\<close>).
\<close>

section \<open>The call graph\<close>

definition st_pattern :: "tag_mapper \<Rightarrow> expr \<Rightarrow> MappingType res" where
  "st_pattern T c =
     (case c of Call u f as a \<Rightarrow> and_then (attrs_tag a) (\<lambda>t. Inr (get_tag_pattern T t)) | _ \<Rightarrow> Inl AttributeError)"

definition st_call_list :: "expr \<Rightarrow> expr list" where
  "st_call_list e = collect True is_Call e"

text \<open>An argument that projects a call: the edges are added once.\<close>

definition add_item_edge :: "expr \<Rightarrow> expr \<Rightarrow> expr io_graph \<Rightarrow> expr io_graph res" where
  "add_item_edge node tv g =
     and_then (dict_get g node) (\<lambda>r.
       let g1 = (if tv \<notin> set (inputs r) then AList.update node (r\<lparr>inputs := inputs r @ [tv]\<rparr>) g else g)
       in and_then (dict_get g1 tv) (\<lambda>r2.
            Inr (if node \<notin> set (outputs r2) then AList.update tv (r2\<lparr>outputs := outputs r2 @ [node]\<rparr>) g1 else g1)))"

definition st_add_arg :: "expr list \<Rightarrow> expr \<Rightarrow> expr \<Rightarrow> expr io_graph \<Rightarrow> expr io_graph res" where
  "st_add_arg call_list node arg g =
     (if arg \<in> set call_list then add_edge node arg g
      else case arg of TupleGetItem u tv i \<Rightarrow> add_item_edge node tv g | _ \<Rightarrow> Inr g)"

definition st_build_graph :: "(expr list \<Rightarrow> expr list) \<Rightarrow> expr \<Rightarrow> expr io_graph res" where
  "st_build_graph ord e =
     (let call_list = ord (st_call_list e)
      in res_fold (\<lambda>node. res_fold (st_add_arg call_list node) (call_args node)) call_list (empty_graph call_list))"

definition st_build_depence :: "nat \<Rightarrow> expr io_graph \<Rightarrow> (expr, expr set) dict res" where
  "st_build_depence limit g =
     res_map (\<lambda>node.
       and_then (find_father limit (input_dict g) node) (\<lambda>fs.
       and_then (find_father limit (output_dict g) node) (\<lambda>cs.
         Inr (node, set (fs @ cs))))) (dict_keys g)"


section \<open>The pairs\<close>

definition of_pattern :: "tag_mapper \<Rightarrow> MappingType \<Rightarrow> expr list \<Rightarrow> expr list res" where
  "of_pattern T pat call_list =
     and_then (res_map (st_pattern T) call_list) (\<lambda>pats. Inr (map fst (filter (\<lambda>(c, p). p = pat) (zip call_list pats))))"

definition parallel_pair :: "(expr, expr set) dict \<Rightarrow> expr \<times> expr \<Rightarrow> expr set \<times> (expr \<times> expr) list \<Rightarrow> (expr set \<times> (expr \<times> expr) list) res" where
  "parallel_pair dep = (\<lambda>(node1, node2) (merged, pairs).
     if node1 \<noteq> node2 \<and> node1 \<notin> merged \<and> node2 \<notin> merged then
       and_then (dict_get dep node2) (\<lambda>d2.
         if node1 \<notin> d2 then
           and_then (dict_get dep node1) (\<lambda>d1.
             if node2 \<notin> d1 then Inr (insert node2 (insert node1 merged), pairs @ [(node1, node2)]) else Inr (merged, pairs))
         else Inr (merged, pairs))
     else Inr (merged, pairs))"

definition fuse_parallel :: "nat \<Rightarrow> expr \<times> expr \<Rightarrow> group_op list \<times> nat \<Rightarrow> (group_op list \<times> nat) res" where
  "fuse_parallel limit = (\<lambda>(node1, node2) (gs, n).
     and_then (res_fold add_output [node1, node2] (GroupOp [node1, node2])) (\<lambda>g.
     and_then (fuse limit g n) (\<lambda>(g, n). Inr (gs @ [g], n))))"

definition parallel_merge :: "nat \<Rightarrow> tag_mapper \<Rightarrow> expr io_graph \<Rightarrow> nat \<Rightarrow> (group_op list \<times> nat) res" where
  "parallel_merge limit T g n =
     and_then (st_build_depence limit g) (\<lambda>dep.
     and_then (of_pattern T Parallel (dict_keys g)) (\<lambda>parallel_list.
     and_then (res_fold (parallel_pair dep) (List.product parallel_list parallel_list) ({}, [])) (\<lambda>(_, pairs).
       res_fold (fuse_parallel limit) pairs ([], n))))"

definition serial_pair :: "nat \<Rightarrow> expr io_graph \<Rightarrow> expr \<times> expr \<Rightarrow> expr set \<times> group_op list \<times> nat \<Rightarrow> (expr set \<times> group_op list \<times> nat) res" where
  "serial_pair limit gr = (\<lambda>(node1, node2) (merged, gs, n).
     if node1 \<noteq> node2 \<and> node1 \<notin> merged \<and> node2 \<notin> merged then
       and_then (dict_get gr node2) (\<lambda>r.
         if node1 \<in> set (inputs r) then
           and_then (add_output node2 (GroupOp [node1, node2])) (\<lambda>g.
           and_then (fuse limit g n) (\<lambda>(g, n). Inr (insert node2 (insert node1 merged), gs @ [g], n)))
         else Inr (merged, gs, n))
     else Inr (merged, gs, n))"

definition serial_merge :: "nat \<Rightarrow> tag_mapper \<Rightarrow> expr io_graph \<Rightarrow> nat \<Rightarrow> (group_op list \<times> nat) res" where
  "serial_merge limit T g n =
     and_then (of_pattern T OneToOne (dict_keys g)) (\<lambda>serial_list.
     and_then (res_fold (serial_pair limit g) (List.product serial_list serial_list) ({}, [], n)) (\<lambda>(_, gs, n).
       Inr (gs, n)))"

definition StencilFusion_transform :: "nat \<Rightarrow> tag_mapper \<Rightarrow> (expr list \<Rightarrow> expr list) \<Rightarrow> expr \<Rightarrow> nat \<Rightarrow> (expr \<times> nat) res" where
  "StencilFusion_transform limit T ord e n =
     and_then (st_build_graph ord e) (\<lambda>g.
     and_then (parallel_merge limit T g n) (\<lambda>(gs1, n).
     and_then (serial_merge limit T g n) (\<lambda>(gs2, n).
       fuse_op limit e (gs1 @ gs2) n)))"


section \<open>The graph holds the uses\<close>

definition call_source :: "expr list \<Rightarrow> expr \<Rightarrow> expr option" where
  "call_source cl x = (if x \<in> set cl then Some x else case x of TupleGetItem u tv i \<Rightarrow> Some tv | _ \<Rightarrow> None)"

lemma st_add_arg_inputs:
  assumes "st_add_arg cl node arg g = Inr g'"
  shows "set (node_inputs g' m) = set (node_inputs g m) \<union> (if m = node then set_option (call_source cl arg) else {})"
    "set (dict_keys g') = set (dict_keys g)"
proof -
  have edge: "set (node_inputs g' m) = set (node_inputs g m) \<union> (if m = node then {src} else {}) \<and> set (dict_keys g') = set (dict_keys g)"
    if ed: "add_edge node src g = Inr g'" for src
  proof -
    obtain r where r: "map_of g node = Some r" using ed by (auto simp: add_edge_def and_then_eq_Inr dict_get_Inr)
    then have "node \<in> set (dict_keys g)" by (rule map_of_key)
    moreover have "src \<in> set (dict_keys g)"
    proof (rule ccontr)
      assume s: "src \<notin> set (dict_keys g)"
      then have "src \<notin> set (dict_keys (AList.update node (r\<lparr>inputs := inputs r @ [src]\<rparr>) g))"
        using \<open>node \<in> set (dict_keys g)\<close> by (simp add: dict_keys_update_same del: set_map)
      then have "dict_get (AList.update node (r\<lparr>inputs := inputs r @ [src]\<rparr>) g) src = Inl KeyError" by (simp add: dict_get_Inl del: set_map)
      then show False using ed r by (simp add: add_edge_def dict_get_def)
    qed
    ultimately show ?thesis using add_edge_ok[of node g src] ed by (auto simp del: set_map)
  qed
  have item: "set (node_inputs g' m) = set (node_inputs g m) \<union> (if m = node then {tv} else {}) \<and> set (dict_keys g') = set (dict_keys g)"
    if ed: "add_item_edge node tv g = Inr g'" for tv
  proof -
    obtain r where r: "map_of g node = Some r" using ed by (auto simp: add_item_edge_def and_then_eq_Inr dict_get_Inr)
    define g1 where "g1 = (if tv \<notin> set (inputs r) then AList.update node (r\<lparr>inputs := inputs r @ [tv]\<rparr>) g else g)"
    let ?g2 = "\<lambda>r2. if node \<notin> set (outputs r2) then AList.update tv (r2\<lparr>outputs := outputs r2 @ [node]\<rparr>) g1 else g1"
    have "add_item_edge node tv g = and_then (dict_get g1 tv) (\<lambda>r2. Inr (?g2 r2))"
      unfolding add_item_edge_def dict_get_Inr[THEN iffD2, OF r] and_then_simps Let_def g1_def[symmetric] ..
    then have "and_then (dict_get g1 tv) (\<lambda>r2. Inr (?g2 r2)) = Inr g'" using ed by metis
    then have "\<exists>r2. map_of g1 tv = Some r2 \<and> ?g2 r2 = g'" by (simp only: and_then_eq_Inr dict_get_Inr sum.inject)
    then obtain r2 where r2: "map_of g1 tv = Some r2" and g': "g' = ?g2 r2" by metis
    have "dict_keys g1 = dict_keys g"
      unfolding g1_def by (cases "tv \<in> set (inputs r)") (simp_all only: dict_keys_update_same[OF map_of_key[OF r]] if_True if_False not_True_eq_False not_False_eq_True)
    moreover have "dict_keys g' = dict_keys g1"
      unfolding g' by (cases "node \<in> set (outputs r2)") (simp_all only: dict_keys_update_same[OF map_of_key[OF r2]] if_True if_False not_True_eq_False not_False_eq_True)
    ultimately have k: "set (dict_keys g') = set (dict_keys g)" by metis
    have "set (node_inputs g1 m) = set (node_inputs g m) \<union> (if m = node then {tv} else {})"
      using r by (auto simp: g1_def node_inputs_def update_conv')
    moreover have "set (node_inputs g' m) = set (node_inputs g1 m)"
      using r2 by (auto simp: g' node_inputs_def update_conv')
    ultimately show ?thesis using k by blast
  qed
  have "set (node_inputs g' m) = set (node_inputs g m) \<union> (if m = node then set_option (call_source cl arg) else {}) \<and> set (dict_keys g') = set (dict_keys g)"
  proof (cases "arg \<in> set cl")
    case True
    then show ?thesis using edge[of arg] assms by (simp add: st_add_arg_def call_source_def del: set_map)
  next
    case False
    then show ?thesis using item assms
      by (cases arg) (auto simp: st_add_arg_def call_source_def simp del: set_map)
  qed
  then show "set (node_inputs g' m) = set (node_inputs g m) \<union> (if m = node then set_option (call_source cl arg) else {})"
    "set (dict_keys g') = set (dict_keys g)" by blast+
qed

lemma st_add_args_inputs:
  assumes "res_fold (st_add_arg cl node) as g = Inr g'"
  shows "set (node_inputs g' m) = set (node_inputs g m) \<union> (if m = node then (\<Union>x \<in> set as. set_option (call_source cl x)) else {}) \<and>
    set (dict_keys g') = set (dict_keys g)"
  using assms
proof (induction as arbitrary: g)
  case (Cons a as)
  then obtain g1 where g1: "st_add_arg cl node a g = Inr g1" "res_fold (st_add_arg cl node) as g1 = Inr g'"
    by (auto simp: and_then_eq_Inr)
  show ?case using st_add_arg_inputs[OF g1(1)] Cons.IH[OF g1(2)] by (auto simp del: set_map)
qed simp

lemma st_graph_inputs:
  assumes "res_fold (\<lambda>node. res_fold (st_add_arg cl node) (call_args node)) ns g = Inr g'"
  shows "set (node_inputs g' m) = set (node_inputs g m) \<union> (if m \<in> set ns then (\<Union>x \<in> set (call_args m). set_option (call_source cl x)) else {}) \<and>
    set (dict_keys g') = set (dict_keys g)"
  using assms
proof (induction ns arbitrary: g)
  case (Cons n ns)
  then obtain g1 where g1: "res_fold (st_add_arg cl n) (call_args n) g = Inr g1"
      "res_fold (\<lambda>node. res_fold (st_add_arg cl node) (call_args node)) ns g1 = Inr g'"
    by (auto simp: and_then_eq_Inr)
  show ?case using st_add_args_inputs[OF g1(1), of m] Cons.IH[OF g1(2)] by (auto simp del: set_map)
qed simp


section \<open>The calls of a function without inner functions\<close>

definition op_program :: "expr \<Rightarrow> bool" where
  "op_program e \<longleftrightarrow> (\<forall>x \<in> nodes e. \<not> is_Function x \<and> (is_Call x \<longrightarrow> tensor_typed x))"

lemma op_program_outer:
  assumes "outer_ok P e" "\<forall>x \<in> nodes e. \<not> is_Function x" "c \<in> nodes e" "is_Call c"
  shows "c \<in> outer e"
  using assms
proof (induction "size e" arbitrary: e rule: less_induct)
  case less
  show ?case
  proof (cases "c = e")
    case False
    then obtain k where k: "k \<in> set (children True e)" "c \<in> nodes k"
      using less.prems(3) by (auto simp: subs_iff[of c True _ e] kids_def)
    have "k \<in> set (children False e) \<or> is_Op k"
    proof (cases e)
      case (Call u f as a)
      have "f \<in> nodes e" using nodes_child[of f e] subs_self[of f True] by (auto simp: Call)
      then have "is_Op f" using less.prems(1,2) by (cases f) (auto simp: Call)
      then show ?thesis using k(1) by (auto simp: Call)
    qed (use k(1) in auto)
    moreover have "\<not> is_Op k"
    proof
      assume "is_Op k"
      then obtain nm where o: "k = Op nm" by (cases k) auto
      have "nodes (Op nm) = {Op nm}" by (subst subs.simps) (simp add: kids_def)
      with k(2) less.prems(4) o show False by simp
    qed
    ultimately have kf: "k \<in> set (children False e)" by simp
    have "outer_ok P k" using kf less.prems(1) by (cases e rule: expr.exhaust) (auto simp: list_all_iff)
    then have "c \<in> outer k"
      using less.hyps[OF children_size[OF k(1)]] less.prems(2,4) nodes_child[OF k(1)] k(2) by blast
    then show ?thesis using kf by (auto simp: subs_iff[of c False _ e] kids_def)
  qed simp
qed

lemma nodes_main:
  assumes "list_all is_Var ps"
  shows "x \<in> nodes (Function u ps body t at) \<longleftrightarrow> x = Function u ps body t at \<or> x \<in> set ps \<or> x \<in> nodes body"
proof -
  have "nodes p = {p}" if p: "p \<in> set ps" for p
  proof -
    have "is_Var p" using p assms by (simp add: list_all_iff)
    then obtain v nm ty where "p = Var v nm ty" by (cases p) auto
    then show ?thesis by (subst subs.simps) (simp add: kids_def)
  qed
  then show ?thesis by (subst subs_iff) (auto simp: kids_def)
qed

lemma main_calls:
  assumes "main_ok ps body n" "op_program body"
  shows "set (st_call_list (Function u ps body t at)) = {c \<in> outer body. is_Call c}"
    "c \<in> outer body \<Longrightarrow> is_Call c \<Longrightarrow> tensor_typed c"
proof -
  have out: "outer x \<subseteq> nodes x" for x
  proof (induction "size x" arbitrary: x rule: less_induct)
    case less
    have "set (children False x) \<subseteq> set (children True x)" by (cases x) auto
    then have "outer k \<subseteq> nodes x" if "k \<in> set (children False x)" for k
      using less[of k] that nodes_child[of k x] children_size[of k True x] by blast
    then have "\<forall>y. y \<in> outer x \<longrightarrow> y \<in> nodes x"
      using outer_unfold[of _ x] subs_self[of x True "\<lambda>_. False"] by (metis subsetD)
    then show ?case by blast
  qed
  have ps: "list_all is_Var ps" "outer_ok (set ps) body" using assms(1) by (auto simp: main_ok_def)
  have "set (st_call_list (Function u ps body t at)) = {c \<in> nodes (Function u ps body t at). is_Call c}"
    unfolding st_call_list_def by (rule collect_spec[THEN conjunct2])
  also have "\<dots> = {c \<in> nodes body. is_Call c}"
  proof -
    have "\<not> is_Call p" if "p \<in> set ps" for p using that ps(1) by (cases p rule: expr.exhaust) (auto simp: list_all_iff)
    then show ?thesis using nodes_main[OF ps(1), of _ u body t at] by auto
  qed
  also have "\<dots> = {c \<in> outer body. is_Call c}"
    using op_program_outer[OF ps(2)] assms(2) out[of body] by (auto simp: op_program_def)
  finally show "set (st_call_list (Function u ps body t at)) = {c \<in> outer body. is_Call c}" .
  show "c \<in> outer body \<Longrightarrow> is_Call c \<Longrightarrow> tensor_typed c" using assms(2) out[of body] by (auto simp: op_program_def)
qed


section \<open>Every pair can be fused\<close>

definition pair_ok :: "expr set \<Rightarrow> expr \<times> expr \<Rightarrow> bool" where
  "pair_ok C p \<longleftrightarrow> fst p \<in> C \<and> snd p \<in> C \<and> fst p \<noteq> snd p \<and> \<not> uses (fst p) (snd p)"

lemma find_father_direct: "find_father k d n = Inr fs \<Longrightarrow> map_of d n = Some ds \<Longrightarrow> set ds \<subseteq> set fs"
  by (cases k) (auto simp: and_then_eq_Inr dict_get_def)

lemma st_build_depence_inputs:
  assumes "st_build_depence limit g = Inr dep" and "map_of dep n = Some d"
  shows "set (node_inputs g n) \<subseteq> d"
proof -
  obtain i where i: "i < length dep" "dep ! i = (n, d)" using map_of_SomeD[OF assms(2)] by (auto simp: in_set_conv_nth)
  have "length dep = length g" "\<forall>i < length g. and_then (find_father limit (input_dict g) (fst (g ! i))) (\<lambda>fs.
       and_then (find_father limit (output_dict g) (fst (g ! i))) (\<lambda>cs. Inr (fst (g ! i), set (fs @ cs)))) = Inr (dep ! i)"
    using assms(1) by (auto simp: st_build_depence_def res_map_eq_Inr)
  then obtain fs where fs: "find_father limit (input_dict g) n = Inr fs" "set fs \<subseteq> d" "n = fst (g ! i)"
    using i by (fastforce simp: and_then_eq_Inr)
  obtain r where "map_of g n = Some r"
    using dict_key_Some[of n g] fs(3) i(1) \<open>length dep = length g\<close> by (metis length_map nth_map nth_mem)
  then show ?thesis
    using find_father_direct[OF fs(1)] fs(2) by (auto simp: input_dict_def map_of_map_snd node_inputs_def)
qed

definition uses_in :: "expr io_graph \<Rightarrow> expr set \<Rightarrow> bool" where
  "uses_in g C \<longleftrightarrow> set (dict_keys g) = C \<and> (\<forall>a \<in> C. \<forall>b \<in> C. b \<in> set (node_inputs g a) \<longleftrightarrow> uses a b)"

lemma st_build_graph_uses:
  assumes "st_build_graph ord e = Inr g" and "set (ord (st_call_list e)) = C" "distinct (ord (st_call_list e))" and "\<forall>c \<in> C. is_Call c"
  shows "uses_in g C"
proof -
  let ?cl = "ord (st_call_list e)"
  have src: "b \<in> set_option (call_source ?cl x) \<longleftrightarrow> producer x = b" if "b \<in> C" for b x
    using that assms(2,4) by (cases x) (auto simp: call_source_def producer_def)
  note g = st_graph_inputs[OF assms(1)[unfolded st_build_graph_def Let_def]]
  have k: "set (dict_keys g) = C" using g[of undefined] empty_graph_spec(1)[OF assms(3)] assms(2) by (simp del: set_map)
  have "b \<in> set (node_inputs g a) \<longleftrightarrow> uses a b" if ab: "a \<in> C" "b \<in> C" for a b
    using g[of a] ab assms(2) src[OF ab(2)] by (auto simp: empty_graph_spec(2)[OF assms(3)] uses_def)
  then show ?thesis using k unfolding uses_in_def by blast
qed

lemma of_pattern_sub:
  assumes "of_pattern T p cl = Inr l" shows "set l \<subseteq> set cl"
  using assms by (auto simp: of_pattern_def and_then_eq_Inr elim!: in_set_zipE)

lemma parallel_pairs_ok:
  assumes dep: "st_build_depence limit g = Inr dep" and u: "uses_in g C" and l: "set l \<subseteq> C"
    and r: "res_fold (parallel_pair dep) (List.product l l) ({}, []) = Inr (mg, pairs)"
  shows "\<forall>p \<in> set pairs. pair_ok C p"
proof -
  have "\<forall>p \<in> set (snd (mg, pairs)). pair_ok C p"
  proof (rule res_fold_invariant[OF r])
    fix x s s' assume x: "x \<in> set (List.product l l)" and s: "\<forall>p \<in> set (snd s). pair_ok C p" and st: "parallel_pair dep x s = Inr s'"
    obtain a b where ab: "x = (a, b)" by (cases x)
    have in_C: "a \<in> C" "b \<in> C" using x l by (auto simp: ab)
    have "snd s' = snd s \<or> (\<exists>d. snd s' = snd s @ [(a, b)] \<and> a \<noteq> b \<and> map_of dep a = Some d \<and> b \<notin> d)"
      using st by (auto simp: parallel_pair_def ab and_then_eq_Inr dict_get_Inr split: if_splits prod.splits)
    moreover have "\<not> uses a b" if "map_of dep a = Some d" "b \<notin> d" for d
      using st_build_depence_inputs[OF dep that(1)] that(2) u in_C by (auto simp: uses_in_def)
    ultimately show "\<forall>p \<in> set (snd s'). pair_ok C p" using s in_C by (auto simp: pair_ok_def)
  qed simp
  then show ?thesis by simp
qed


section \<open>The rewritten function\<close>

definition fused_ok :: "'v interp \<Rightarrow> expr set \<Rightarrow> group_op \<Rightarrow> bool" where
  "fused_ok I C g \<longleftrightarrow> (\<exists>c1 c2 both c. c1 \<in> C \<and> c2 \<in> C \<and> c1 \<noteq> c2 \<and> goutput g = pair_outputs c1 c2 both \<and> fused_func g = Some c \<and>
     well_formed c \<and> (\<forall>env. eval I env c = fused_value I env c1 c2 both))"

lemma fuse_pair_ok:
  assumes main: "main_ok ps body n" and C: "C = {c \<in> outer body. is_Call c}" and p: "pair_ok C (a, b)"
    and n: "n \<le> k" and r: "fuse limit (pair_group a b both) k = Inr (g, k')"
  shows "fused_ok I C g" "n \<le> k'"
proof -
  have ab: "a \<in> outer body" "is_Call a" "b \<in> outer body" "is_Call b" "a \<noteq> b" "\<not> uses a b" using p C by (auto simp: pair_ok_def)
  have f: "fusible (set ps) a b k" by (rule fusible_mono[OF fusible_outer[OF main ab] n])
  from fuse_call[OF f r, of I] obtain u w vs bd t at where c: "fused_func g = Some (Call u (Function w vs bd t at) (init_args [a, b]) None)"
      "outer_ok (set ps) (Call u (Function w vs bd t at) (init_args [a, b]) None)"
      "\<forall>env. eval I env (Call u (Function w vs bd t at) (init_args [a, b]) None) = fused_value I env a b both"
      "goutput g = pair_outputs a b both" "vs \<noteq> []" "\<forall>v \<in> set vs. k \<le> var_addr v \<and> var_addr v < k'"
    by blast
  show "fused_ok I C g" unfolding fused_ok_def using c(1,3,4) well_formed_outer[OF c(2)] p by (auto simp: pair_ok_def)
  show "n \<le> k'" using c(5,6) n by (cases vs) auto
qed

definition replaces :: "'v interp \<Rightarrow> (expr, expr) dict \<Rightarrow> bool" where
  "replaces I m \<longleftrightarrow> (\<forall>x y. map_of m x = Some y \<longrightarrow> \<not> is_Var x \<and> well_formed y \<and> (\<forall>env. eval I env y = eval I env x))"

lemma replaces_update:
  assumes "replaces I m" "is_Call x" "well_formed y" "\<forall>env. eval I env y = eval I env x"
  shows "replaces I (AList.update x y m)"
  using assms by (cases x) (auto simp: replaces_def update_conv')

lemma well_formed_item: "well_formed c \<Longrightarrow> well_formed (TupleGetItem u c i)"
  by (auto simp: well_formed_def subs_iff[of _ True _ "TupleGetItem u c i"] kids_def)

lemma group_call_map_ok:
  assumes m: "replaces I (fst s)" and g: "fused_ok I C g" and C: "\<forall>c \<in> C. is_Call c \<and> tensor_typed c"
    and r: "group_call_map g s = Inr s'"
  shows "replaces I (fst s')"
proof -
  obtain c1 c2 both c where c: "c1 \<in> C" "c2 \<in> C" "goutput g = pair_outputs c1 c2 both" "fused_func g = Some c"
      "well_formed c" "\<forall>env. eval I env c = fused_value I env c1 c2 both"
    using g unfolding fused_ok_def by blast
  have one: "tensors (checked_type x) v = [v]" if "x \<in> C" for x and v :: "'a val"
    using C that by (auto simp: tensor_typed_def tensors_def split: option.splits rtype.splits)
  show ?thesis
  proof (cases both)
    case False
    then have "fst s' = AList.update c2 c (fst s)" using r c(3,4) by (auto simp: group_call_map_def pair_outputs_def)
    then show ?thesis using replaces_update[OF m, of c2 c] C c(2,5,6) False by (simp add: fused_value_def)
  next
    case True
    obtain m n where s: "s = (m, n)" by (cases s)
    have s': "fst s' = AList.update c2 (TupleGetItem (Suc n) c 1) (AList.update c1 (TupleGetItem n c 0) m)"
      using r c(3,4) True by (auto simp: group_call_map_def pair_outputs_def s enumerate_eq_zip upt_rec[of 0] upt_rec[of "Suc 0"])
    have v: "eval I env c = TupleV [eval I env c1, eval I env c2]" for env
      using c(6) True one[OF c(1)] one[OF c(2)] by (simp add: fused_value_def)
    have "replaces I (AList.update c1 (TupleGetItem n c 0) m)"
      using replaces_update[of I m c1] assms(1) C c(1,5) v by (simp add: s well_formed_item project_def)
    then show ?thesis
      unfolding s' using replaces_update[of I _ c2] C c(2,5) v by (simp add: well_formed_item project_def)
  qed
qed

lemma fuse_op_agree:
  assumes g: "\<forall>g \<in> set gs. fused_ok I C g" and C: "\<forall>c \<in> C. is_Call c \<and> tensor_typed c"
    and e: "well_formed e" and r: "fuse_op limit e gs n = Inr (e', n')"
  shows "agree I env env e e'"
proof -
  obtain m k where m: "res_fold group_call_map gs ([], n) = Inr (m, k)" and rp: "ReplaceParams limit m e k = Inr (e', n')"
    using r by (auto simp: fuse_op_def and_then_eq_Inr)
  have "replaces I (fst (m, k))"
  proof (rule res_fold_invariant[OF m, where P = "\<lambda>s. replaces I (fst s)"])
    show "replaces I (fst ([], n))" by (simp add: replaces_def)
  qed (use g group_call_map_ok[OF _ _ C] in blast)
  then show ?thesis by (intro ReplaceParams_agree[OF _ e rp]) (simp add: replaces_def)
qed

lemma fuse_parallel_ok:
  assumes main: "main_ok ps body n" and C: "C = {c \<in> outer body. is_Call c}" and p: "\<forall>p \<in> set pairs. pair_ok C p"
    and r: "res_fold (fuse_parallel limit) pairs ([], n) = Inr (gs, k)"
  shows "(\<forall>g \<in> set gs. fused_ok I C g) \<and> n \<le> k"
proof -
  have "(\<forall>g \<in> set (fst (gs, k)). fused_ok I C g) \<and> n \<le> snd (gs, k)"
  proof (rule res_fold_invariant[OF r, where P = "\<lambda>s. (\<forall>g \<in> set (fst s). fused_ok I C g) \<and> n \<le> snd s"])
    fix x s s' assume x: "x \<in> set pairs" and s: "(\<forall>g \<in> set (fst s). fused_ok I C g) \<and> n \<le> snd s" and st: "fuse_parallel limit x s = Inr s'"
    obtain a b where ab: "x = (a, b)" by (cases x)
    have ok: "pair_ok C (a, b)" using p x ab by blast
    obtain g g' k' where g: "res_fold add_output [a, b] (GroupOp [a, b]) = Inr g" "fuse limit g (snd s) = Inr (g', k')" "s' = (fst s @ [g'], k')"
      using st by (auto simp: fuse_parallel_def ab and_then_eq_Inr split: prod.splits)
    have "g = pair_group a b True" using add_outputs[of a b True g] g(1) ok by (simp add: pair_outputs_def pair_ok_def)
    then have "fused_ok I C g'" "n \<le> k'" using fuse_pair_ok[OF main C ok] s g(2) by blast+
    then show "(\<forall>g \<in> set (fst s'). fused_ok I C g) \<and> n \<le> snd s'" using s g(3) by auto
  qed simp
  then show ?thesis by simp
qed

lemma serial_merge_ok:
  assumes main: "main_ok ps body n" and C: "C = {c \<in> outer body. is_Call c}" and u: "uses_in gr C" and n: "n \<le> k"
    and r: "serial_merge limit T gr k = Inr (gs, k')"
  shows "\<forall>g \<in> set gs. fused_ok I C g"
proof -
  obtain l mg where l: "of_pattern T OneToOne (dict_keys gr) = Inr l"
    and f: "res_fold (serial_pair limit gr) (List.product l l) ({}, [], k) = Inr (mg, gs, k')"
    using r by (auto simp: serial_merge_def and_then_eq_Inr)
  have lC: "set l \<subseteq> C" using of_pattern_sub[OF l] u by (simp add: uses_in_def)
  have "(\<forall>g \<in> set (fst (snd (mg, gs, k'))). fused_ok I C g) \<and> n \<le> snd (snd (mg, gs, k'))"
  proof (rule res_fold_invariant[OF f, where P = "\<lambda>s. (\<forall>g \<in> set (fst (snd s)). fused_ok I C g) \<and> n \<le> snd (snd s)"])
    fix x s s' assume x: "x \<in> set (List.product l l)" and s: "(\<forall>g \<in> set (fst (snd s)). fused_ok I C g) \<and> n \<le> snd (snd s)"
      and st: "serial_pair limit gr x s = Inr s'"
    obtain a b where ab: "x = (a, b)" by (cases x)
    have in_C: "a \<in> C" "b \<in> C" using x lC by (auto simp: ab)
    have "s' = s \<or> (a \<noteq> b \<and> a \<in> set (node_inputs gr b) \<and> (\<exists>g g' k'. add_output b (GroupOp [a, b]) = Inr g \<and>
        fuse limit g (snd (snd s)) = Inr (g', k') \<and> fst (snd s') = fst (snd s) @ [g'] \<and> snd (snd s') = k'))"
      using st by (auto simp: serial_pair_def ab and_then_eq_Inr dict_get_Inr node_inputs_def split: if_splits prod.splits)
    then show "(\<forall>g \<in> set (fst (snd s')). fused_ok I C g) \<and> n \<le> snd (snd s')"
    proof (elim disjE conjE exE)
      fix g g' k' assume h: "a \<noteq> b" "a \<in> set (node_inputs gr b)" "add_output b (GroupOp [a, b]) = Inr g"
        "fuse limit g (snd (snd s)) = Inr (g', k')" "fst (snd s') = fst (snd s) @ [g']" "snd (snd s') = k'"
      have "uses b a" using u in_C h(2) by (simp add: uses_in_def)
      then have "\<not> uses a b" using uses_size[of a b] uses_size[of b a] by auto
      then have ok: "pair_ok C (a, b)" using in_C h(1) by (simp add: pair_ok_def)
      have "g = pair_group a b False" using add_outputs[of a b False g] h(1,3) by (simp add: pair_outputs_def)
      then have "fused_ok I C g'" "n \<le> k'" using fuse_pair_ok[OF main C ok] s h(4) by blast+
      then show ?thesis using s h(5,6) by auto
    qed (use s in simp)
  qed (simp add: n)
  then show ?thesis by simp
qed

text \<open>C10: On a function of the stencil fragment whose calls are all operator calls that return one tensor, a
  fused function returned by \<^verbatim>\<open>StencilFusion.transform\<close> has the same parameters and the same value as the
  original under every interpretation of the operators, for every order in which the set of calls is
  iterated.\<close>

theorem StencilFusion_keeps_meaning:
  fixes I :: "'v interp"
  assumes main: "main_ok ps body n" and op: "op_program body"
    and ord: "\<forall>xs. distinct (ord xs) \<and> set (ord xs) = set xs"
    and r: "StencilFusion_transform limit T ord (Function u ps body t at) n = Inr (e', n')"
  shows "\<exists>u' body'. e' = Function u' ps body' t at \<and> (\<forall>env. eval I env body' = eval I env body)"
proof -
  let ?e = "Function u ps body t at"
  define C where "C = {c \<in> outer body. is_Call c}"
  obtain g gs1 k gs2 k2 where g: "st_build_graph ord ?e = Inr g" and 1: "parallel_merge limit T g n = Inr (gs1, k)"
    and 2: "serial_merge limit T g k = Inr (gs2, k2)" and f: "fuse_op limit ?e (gs1 @ gs2) k2 = Inr (e', n')"
    using r by (auto simp: StencilFusion_transform_def and_then_eq_Inr)
  have cl: "set (ord (st_call_list ?e)) = C" using ord main_calls(1)[OF main op] by (simp add: C_def)
  have CC: "\<forall>c \<in> C. is_Call c \<and> tensor_typed c" using main_calls(2)[OF main op] by (auto simp: C_def)
  have u: "uses_in g C" using st_build_graph_uses[OF g cl] ord CC by blast
  obtain dep l mg pairs where dep: "st_build_depence limit g = Inr dep" and l: "of_pattern T Parallel (dict_keys g) = Inr l"
    and p: "res_fold (parallel_pair dep) (List.product l l) ({}, []) = Inr (mg, pairs)" and fp: "res_fold (fuse_parallel limit) pairs ([], n) = Inr (gs1, k)"
    using 1 by (auto simp: parallel_merge_def and_then_eq_Inr)
  have lC: "set l \<subseteq> C" using of_pattern_sub[OF l] u by (simp add: uses_in_def)
  note g1 = fuse_parallel_ok[OF main C_def parallel_pairs_ok[OF dep u lC p] fp]
  have g2: "\<forall>g \<in> set gs2. fused_ok I C g" using serial_merge_ok[OF main C_def u _ 2] g1 by blast
  have ps: "list_all is_Var ps" and wf: "well_formed body" using main well_formed_outer by (auto simp: main_ok_def)
  have "case x of Call u f as a \<Rightarrow> is_Op f \<or> is_Function f | Function u ps b t a \<Rightarrow> list_all is_Var ps | _ \<Rightarrow> True" if "x \<in> set ps" for x
    using that ps by (cases x rule: expr.exhaust) (auto simp: list_all_iff)
  then have we: "well_formed ?e" using ps wf unfolding well_formed_def Ball_def nodes_main[OF ps] by auto
  have "\<forall>g \<in> set (gs1 @ gs2). fused_ok I C g" using g1[of I] g2 by auto
  from fuse_op_agree[OF this CC we f] show ?thesis by auto
qed

definition ex_tags :: tag_mapper where
  "ex_tags = [(''P_1'', Parallel), (''P_2'', Parallel)]"

theorem StencilFusion_keeps_meaning_witness:
  "\<exists>u' body' n'. StencilFusion_transform 40 ex_tags remdups ex_main 6 = Inr (Function u' [ex_in] body' None None, n') \<and>
     (\<forall>env. eval (undefined :: nat interp) env body' = eval undefined env ex_d)"
proof -
  have "case StencilFusion_transform 40 ex_tags remdups ex_main 6 of Inr _ \<Rightarrow> True | Inl _ \<Rightarrow> False" by code_simp
  then obtain e' n' where r: "StencilFusion_transform 40 ex_tags remdups ex_main 6 = Inr (e', n')" by (auto split: sum.splits)
  have m: "main_ok [ex_in] ex_d 6" by (simp add: main_ok_def ex_defs tensor_typed_def stencil_rel_def grid_ops_def)
  have o: "op_program ex_d"
    by (simp add: op_program_def ex_defs subs.simps kids_def tensor_typed_def stencil_rel_def grid_ops_def)
  have "\<forall>xs :: expr list. distinct (remdups xs) \<and> set (remdups xs) = set xs" by simp
  from StencilFusion_keeps_meaning[OF m o this r[unfolded ex_main_def], of "undefined :: nat interp"] r show ?thesis by blast
qed


section \<open>Replacements that lead back to themselves\<close>

text \<open>
  A replaced call is visited again, so a replacement that contains the replaced call, or another one that leads
  back to it, is visited without end. Pairs of independent stencils are chosen one after the other; two pairs
  can be independent each and not both.
\<close>

definition leads_on :: "(expr \<Rightarrow> override res) \<Rightarrow> expr set \<Rightarrow> expr \<Rightarrow> bool" where
  "leads_on ov S e \<longleftrightarrow> (\<exists>y \<in> S. ov e = Inr (Visit y)) \<or> (ov e = Inr Default \<and> (\<exists>k \<in> S. k \<in> set (children True e)))"

definition memo_avoids :: "expr set \<Rightarrow> mstate \<Rightarrow> bool" where
  "memo_avoids S s \<longleftrightarrow> (\<forall>x \<in> S. map_of (memo_map s) x = None)"

lemma rebuild_visits:
  assumes "rebuild rec e s = Inr (r, s')"
  shows "\<exists>rs t. visit_list rec (children True e) s = Inr (rs, t) \<and> memo_map t = memo_map s'"
proof (cases e)
  case (Function u ps b t at)
  then obtain ps' s1 b' s2 where "visit_list rec ps s = Inr (ps', s1)" "rec b s1 = Inr (b', s2)" "memo_map s2 = memo_map s'"
    using assms by (auto simp: and_then_eq_Inr new_node_def)
  moreover have "visit_list rec (xs @ [b]) s = and_then (visit_list rec xs s) (\<lambda>(rs, s). and_then (rec b s) (\<lambda>(r, s). Inr (rs @ [r], s)))" for xs s
    by (induction xs arbitrary: s) (auto simp: and_then_def split: sum.splits prod.splits)
  ultimately show ?thesis by (simp add: Function)
qed (use assms in \<open>auto simp: and_then_eq_Inr new_node_def split: if_splits\<close>)

definition avoiding :: "expr set \<Rightarrow> (expr \<Rightarrow> mstate \<Rightarrow> (expr \<times> mstate) res) \<Rightarrow> bool" where
  "avoiding S rec \<longleftrightarrow> (\<forall>e s r s'. memo_avoids S s \<and> rec e s = Inr (r, s') \<longrightarrow> e \<notin> S \<and> memo_avoids S s')"

lemma visit_list_avoids:
  "avoiding S rec \<Longrightarrow> memo_avoids S s \<Longrightarrow> visit_list rec es s = Inr (rs, s') \<Longrightarrow> set es \<inter> S = {} \<and> memo_avoids S s'"
proof (induction es arbitrary: s rs)
  case (Cons e es)
  then obtain r s1 rs1 where 1: "rec e s = Inr (r, s1)" "visit_list rec es s1 = Inr (rs1, s')" by (auto simp: and_then_eq_Inr)
  then have "e \<notin> S" "memo_avoids S s1" using Cons.prems unfolding avoiding_def by blast+
  then show ?case using Cons.IH[OF Cons.prems(1) _ 1(2)] by auto
qed simp

lemma mutate_avoids:
  assumes "\<forall>e \<in> S. leads_on ov S e"
  shows "avoiding S (mutate k ov)"
proof (induction k)
  case (Suc k)
  show ?case unfolding avoiding_def
  proof (intro allI impI, elim conjE)
    fix e s r s' assume s: "memo_avoids S s" and r: "mutate (Suc k) ov e s = Inr (r, s')"
    show "e \<notin> S \<and> memo_avoids S s'"
    proof (cases "map_of (memo_map s) e")
      case None
      obtain t where t: "dispatch ov (mutate k ov) e s = Inr (r, t)" "s' = t\<lparr>memo_map := AList.update e r (memo_map t)\<rparr>"
        using r None by (auto simp: and_then_eq_Inr)
      then obtain a where a: "ov e = Inr a" "(case a of Return r \<Rightarrow> Inr (r, s) | Visit y \<Rightarrow> mutate k ov y s | Default \<Rightarrow> rebuild (mutate k ov) e s) = Inr (r, t)"
        by (auto simp: dispatch_def and_then_eq_Inr)
      have "e \<notin> S \<and> memo_avoids S t"
      proof (cases a)
        case Default
        then obtain rs u where "visit_list (mutate k ov) (children True e) s = Inr (rs, u)" "memo_map u = memo_map t"
          using rebuild_visits a(2) by fastforce
        then have "set (children True e) \<inter> S = {}" "memo_avoids S t"
          using visit_list_avoids[OF Suc s, of "children True e" rs u] by (simp_all add: memo_avoids_def)
        then show ?thesis using assms a(1) by (auto simp: leads_on_def Default)
      next
        case (Visit y)
        then have "y \<notin> S \<and> memo_avoids S t" using Suc s a(2) unfolding avoiding_def by auto
        then show ?thesis using assms a(1) by (auto simp: leads_on_def Visit)
      next
        case (Return q)
        then show ?thesis using assms a s by (auto simp: leads_on_def)
      qed
      then show ?thesis using t(2) by (auto simp: memo_avoids_def update_conv')
    qed (use s r in \<open>auto simp: memo_avoids_def\<close>)
  qed
qed (simp add: avoiding_def)

text \<open>C31: If every expression of a set is replaced by an expression of the set, or is not replaced and has a
  child in the set, then \<^verbatim>\<open>ReplaceParams\<close> raises on each of them, whatever the recursion limit: two fused pairs that
  read each other cannot be put in place.\<close>

theorem ReplaceParams_cycle_raises:
  assumes "\<forall>e \<in> S. (is_Call e \<or> is_TupleGetItem e) \<and>
      (case map_of m e of Some y \<Rightarrow> y \<in> S | None \<Rightarrow> \<exists>k \<in> S. k \<in> set (children True e))" and "e \<in> S"
  shows "\<exists>x. ReplaceParams limit m e n = Inl x"
proof -
  have "leads_on (replace_override m) S e" if "e \<in> S" for e
    using assms(1) that by (cases e rule: expr.exhaust; cases "map_of m e") (auto simp: leads_on_def)
  then have "avoiding S (mutate limit (replace_override m))" by (intro mutate_avoids) blast
  then have "\<not> (\<exists>p. mutate limit (replace_override m) e \<lparr>memo_map = [], next_addr = n\<rparr> = Inr p)"
    using assms(2) unfolding avoiding_def memo_avoids_def by force
  then show ?thesis
    by (cases "mutate limit (replace_override m) e \<lparr>memo_map = [], next_addr = n\<rparr>") (auto simp: ReplaceParams_def visit_new_def)
qed

text \<open>Two chains of two stencils: each pair takes the first stencil of one chain and the second of the other.\<close>

definition ex_cross :: expr where
  "ex_cross = (let s = (\<lambda>u t x. Call u (Op ''stencil.grid1stencil'') [x] (Some (GridAttrs t)));
     a = s 1 ''A'' ex_in; d = s 2 ''B'' ex_in; c = s 3 ''C'' a; b = s 4 ''D'' d
     in Function 6 [ex_in] (Call 5 (Op ''stencil.grid2stencil'') [c, b] (Some (GridAttrs ''E''))) None None)"

definition ex_cross_tags :: tag_mapper where
  "ex_cross_tags = [(''A'', Parallel), (''B'', Parallel), (''C'', Parallel), (''D'', Parallel)]"

definition ex_cross_order :: "expr list \<Rightarrow> expr list" where
  "ex_cross_order xs = [xs ! 2, xs ! 3, xs ! 1, xs ! 4, xs ! 0]"

lemma crossing_pairs_raise:
  "(case and_then (st_build_graph ex_cross_order ex_cross) (\<lambda>g. parallel_merge 30 ex_cross_tags g 7) of
      Inr (gs, n) \<Rightarrow> map (\<lambda>g. map (\<lambda>c. case fuse_tag c of Inr t \<Rightarrow> concat t | Inl _ \<Rightarrow> []) (goutput g)) gs = [[''A'', ''D''], [''C'', ''B'']] | Inl _ \<Rightarrow> False) \<and>
   StencilFusion_transform 30 ex_cross_tags ex_cross_order ex_cross 7 = Inl RecursionError"
  by code_simp

theorem ReplaceParams_cycle_raises_witness:
  "\<exists>x. ReplaceParams 1000 [(ex_b, Call 7 (Op ''f'') [ex_c] None), (ex_c, Call 8 (Op ''g'') [ex_b] None)] ex_b 9 = Inl x"
  by (rule ReplaceParams_cycle_raises[where S = "{ex_b, ex_c, Call 7 (Op ''f'') [ex_c] None, Call 8 (Op ''g'') [ex_b] None}"])
    (simp_all add: ex_defs)

end
