(* ===== verification/Mlir_Parse.thy ===== *)
theory Mlir_Parse
  imports Node_Fusion
begin

text \<open>
  The reader of \<^verbatim>\<open>relay/transform/mlir.py\<close>: \<^verbatim>\<open>MLIRCodeGen.from_mlir\<close> turns the lines of an MLIR file with
  \<^verbatim>\<open>stencil.\<close> operations into a Relay function and remembers the text of every stencil; \<^verbatim>\<open>ReplaceCallOp\<close> finds the
  names back in a rewritten function.

  The state of the generator is a record; relay nodes are allocated at its field \<open>mg_addr\<close>.
\<close>

section \<open>The generator\<close>

text \<open>An entry of \<^verbatim>\<open>tag2code\<close>; a variable has no \<^verbatim>\<open>mlir_body\<close>.\<close>

record code_entry =
  ce_type :: string
  ce_data :: expr
  ce_body :: "string list option"

text \<open>\<^verbatim>\<open>data2shape\<close> is keyed by relay variables and by tags.\<close>

datatype shape_key = VarKey expr | TagKey string

record mlir_gen =
  mg_module :: "expr option"
  mg_calls :: "expr list"
  mg_dtype :: string
  mg_args_base :: int
  mg_tag2code :: "(string, code_entry) dict"
  mg_variable2name :: "(expr, string) dict"
  mg_dim_size :: int
  mg_data2shape :: "(shape_key, string) dict"
  mg_args_data :: "expr list"
  mg_ret_data :: "string list"
  mg_cast_data :: "string list"
  mg_program_data :: "string list"
  mg_in_code :: "string list"
  mg_func_args :: "string list"
  mg_fuse_name_map :: "(string, string) dict"
  mg_name :: string
  mg_step :: string
  mg_mesh_size :: int
  mg_halo_width :: int
  mg_output_on :: bool
  mg_addr :: nat

definition MLIRCodeGen :: "int \<Rightarrow> int \<Rightarrow> bool \<Rightarrow> mlir_gen" where
  "MLIRCodeGen mesh_size halo_width output_on =
     \<lparr>mg_module = None, mg_calls = [], mg_dtype = ''f64'', mg_args_base = 0, mg_tag2code = [], mg_variable2name = [],
      mg_dim_size = 72, mg_data2shape = [], mg_args_data = [], mg_ret_data = [], mg_cast_data = [], mg_program_data = [],
      mg_in_code = [], mg_func_args = [], mg_fuse_name_map = [], mg_name = [], mg_step = ''0'', mg_mesh_size = mesh_size,
      mg_halo_width = halo_width, mg_output_on = output_on, mg_addr = 0\<rparr>"

text \<open>\<^verbatim>\<open>self.tag2code[tag]["data"]\<close> and \<^verbatim>\<open>self.tag2code[tag]["mlir_body"]\<close>\<close>

definition tag_data :: "mlir_gen \<Rightarrow> string \<Rightarrow> expr res" where
  "tag_data g tag = and_then (dict_get (mg_tag2code g) tag) (\<lambda>e. Inr (ce_data e))"

definition tag_body :: "mlir_gen \<Rightarrow> string \<Rightarrow> string list res" where
  "tag_body g tag = and_then (dict_get (mg_tag2code g) tag) (\<lambda>e. case ce_body e of None \<Rightarrow> Inl KeyError | Some b \<Rightarrow> Inr b)"

definition set_tag_data :: "string \<Rightarrow> expr \<Rightarrow> mlir_gen \<Rightarrow> mlir_gen res" where
  "set_tag_data tag v g = and_then (dict_get (mg_tag2code g) tag) (\<lambda>e.
     Inr (g\<lparr>mg_tag2code := AList.update tag (e\<lparr>ce_data := v\<rparr>) (mg_tag2code g)\<rparr>))"


section \<open>Lines\<close>

definition format_code :: "string list \<Rightarrow> string list" where
  "format_code code = map py_strip code"

definition parse_shape :: "mlir_gen \<Rightarrow> string \<Rightarrow> int list res" where
  "parse_shape g s =
     (if py_in ''?'' s then Inr (replicate (py_count s ''x'') (mg_dim_size g))
      else and_then (res_map py_int (butlast (py_split s ''x''))) (\<lambda>shape. Inr (map (\<lambda>dim. max dim 1) shape)))"

text \<open>The text between the first occurrences of two delimiters.\<close>

definition text_between :: "string \<Rightarrow> string \<Rightarrow> string \<Rightarrow> string" where
  "text_between l r line = py_slice line (py_find line l + 1) (py_find line r)"

definition pair_split :: "string \<Rightarrow> string \<Rightarrow> (string \<times> string) res" where
  "pair_split s sep = (case py_split s sep of [a, b] \<Rightarrow> Inr (a, b) | _ \<Rightarrow> Inl ValueError)"

text \<open>The tag a \<^verbatim>\<open>stencil.apply\<close> line defines, and the number of results.\<close>

definition apply_result :: "string \<Rightarrow> (string \<times> int) res" where
  "apply_result mlir_tag =
     (if py_in '':'' mlir_tag then and_then (pair_split mlir_tag '':'') (\<lambda>(tag, num). and_then (py_int num) (\<lambda>n. Inr (tag, n)))
      else Inr (mlir_tag, 1))"

definition apply_args :: "string \<Rightarrow> string list res" where
  "apply_args line = res_map (\<lambda>arg. py_nth (py_split_ws arg) 2) (py_split (text_between ''('' '')'' line) '', '')"

text \<open>\<^verbatim>\<open>relay.TupleGetItem(var, index)\<close>: a negative index is rejected by the constructor's type.\<close>

definition arg_var :: "string \<Rightarrow> expr list \<times> mlir_gen \<Rightarrow> (expr list \<times> mlir_gen) res" where
  "arg_var tag = (\<lambda>(vs, g).
     if py_in ''#'' tag then
       and_then (pair_split tag ''#'') (\<lambda>(tag, ix). and_then (py_int ix) (\<lambda>index. and_then (tag_data g tag) (\<lambda>var.
         if index < 0 then Inl TVMError
         else Inr (vs @ [TupleGetItem (mg_addr g) var (nat index)], g\<lparr>mg_addr := Suc (mg_addr g)\<rparr>))))
     else and_then (tag_data g tag) (\<lambda>var. Inr (vs @ [var], g)))"

definition name2relayop :: "(string, string) dict" where
  "name2relayop = [(''in1out1'', ''stencil.grid1stencil''), (''in2out1'', ''stencil.grid2stencil''), (''in3out1'', ''stencil.grid3stencil''),
     (''in4out1'', ''stencil.grid4stencil''), (''in5out1'', ''stencil.grid5stencil''), (''in6out1'', ''stencil.grid6stencil''),
     (''in2mout'', ''stencil.grid2mostencil'')]"

text \<open>\<^verbatim>\<open>relay_op(*relay_args)\<close>: \<^verbatim>\<open>grid2mostencil\<close> takes the number of outputs, which the other operators do not take.\<close>

definition relay_call :: "nat \<Rightarrow> string \<Rightarrow> expr list \<Rightarrow> string \<Rightarrow> int \<Rightarrow> expr res" where
  "relay_call u op as tag ret_num =
     (if ret_num > 1 then
        (if op = ''stencil.grid2mostencil'' then Inr (Call u (Op op) as (Some (GridMOAttrs tag (nat ret_num)))) else Inl TypeError)
      else Inr (Call u (Op op) as (Some (if op = ''stencil.grid2mostencil'' then GridMOAttrs tag 1 else GridAttrs tag))))"

fun take_body :: "string list \<Rightarrow> string list \<times> string list" where
  "take_body [] = ([], [])"
| "take_body (line # code) =
     (if py_in ''stencil.return'' line then ([line], code)
      else case take_body code of (body, rest) \<Rightarrow> (line # body, rest))"

definition parse_apply :: "string \<Rightarrow> string list \<Rightarrow> mlir_gen \<Rightarrow> mlir_gen res" where
  "parse_apply line body g =
     and_then (py_nth (py_split_ws line) 0) (\<lambda>tok.
     and_then (apply_result tok) (\<lambda>(mlir_tag, ret_num).
     and_then (apply_args line) (\<lambda>args_tag.
     and_then (res_fold arg_var args_tag ([], g)) (\<lambda>(args_var, g).
     and_then (dict_get name2relayop (if ret_num = 1 then ''in'' @ str_of_nat (length args_var) @ ''out1''
         else ''in'' @ str_of_nat (length args_var) @ ''mout'')) (\<lambda>relay_op.
     and_then (relay_call (mg_addr g) relay_op args_var (py_replace mlir_tag ''%'' ''stencil_'') ret_num) (\<lambda>data.
       Inr (g\<lparr>mg_addr := Suc (mg_addr g),
         mg_tag2code := AList.update mlir_tag \<lparr>ce_type = ''func'', ce_data = data, ce_body = Some body\<rparr> (mg_tag2code g)\<rparr>)))))))"

definition parse_load :: "string \<Rightarrow> mlir_gen \<Rightarrow> (expr \<times> mlir_gen) res" where
  "parse_load line g =
     and_then (py_nth (py_split_ws line) 0) (\<lambda>mlir_tag.
     and_then (parse_shape g (text_between ''<'' ''>'' line)) (\<lambda>shape.
     and_then (py_nth (py_split_ws line) (- 1)) (\<lambda>mlir_shape.
       let data = Var (mg_addr g) (py_replace mlir_tag ''%'' ''data_'') (Some (TensorType shape ''float32''))
       in Inr (data, g\<lparr>mg_addr := Suc (mg_addr g),
            mg_data2shape := AList.update (TagKey mlir_tag) mlir_shape (AList.update (VarKey data) mlir_shape (mg_data2shape g)),
            mg_tag2code := AList.update mlir_tag \<lparr>ce_type = ''var'', ce_data = data, ce_body = None\<rparr> (mg_tag2code g)\<rparr>))))"

definition parse_store :: "string \<Rightarrow> mlir_gen \<Rightarrow> expr res" where
  "parse_store line g = and_then (py_nth (py_split_ws line) 1) (tag_data g)"

definition parse_program :: "string \<Rightarrow> mlir_gen \<Rightarrow> mlir_gen res" where
  "parse_program line g =
     and_then (py_nth (py_split line '':'') (- 2)) (\<lambda>s.
     and_then (py_nth (py_split s '', '') (- 1)) (\<lambda>last_args.
     and_then (py_int (py_replace last_args ''%arg'' '''')) (\<lambda>i. Inr (g\<lparr>mg_args_base := i + 1\<rparr>))))"


section \<open>Files\<close>

record parse_state =
  ps_gen :: mlir_gen
  ps_args :: "expr list"
  ps_ret_var :: "expr list"
  ps_ret :: "string list"
  ps_cast :: "string list"
  ps_program :: "string list"

definition parse_line :: "string \<Rightarrow> parse_state \<Rightarrow> parse_state res" where
  "parse_line line s =
     (if py_in ''stencil.load'' line then
        and_then (parse_load line (ps_gen s)) (\<lambda>(var, g).
          Inr (s\<lparr>ps_gen := g, ps_cast := ps_cast s @ [line], ps_args := ps_args s @ [var]\<rparr>))
      else if py_in ''stencil.store'' line then
        and_then (parse_store line (ps_gen s)) (\<lambda>var. Inr (s\<lparr>ps_ret := ps_ret s @ [line], ps_ret_var := ps_ret_var s @ [var]\<rparr>))
      else if py_in ''stencil.cast'' line then Inr (s\<lparr>ps_cast := ps_cast s @ [line]\<rparr>)
      else if py_in ''stencil.program'' line then
        and_then (parse_program line (ps_gen s)) (\<lambda>g. Inr (s\<lparr>ps_gen := g, ps_program := ps_program s @ [line]\<rparr>))
      else Inr s)"

lemma take_body_length [simp]: "length (snd (take_body code)) \<le> length code"
  by (induction code) (auto split: prod.splits)

function parse_code :: "string list \<Rightarrow> parse_state \<Rightarrow> parse_state res" where
  "parse_code [] s = Inr s"
| "parse_code (line # code) s =
     (if py_in ''stencil.apply'' line then
        and_then (parse_apply line (fst (take_body code)) (ps_gen s)) (\<lambda>g. parse_code (snd (take_body code)) (s\<lparr>ps_gen := g\<rparr>))
      else and_then (parse_line line s) (parse_code code))"
  by pat_completeness auto
termination
  by (relation "measure (\<lambda>(code, s). length code)") (auto simp: less_Suc_eq_le)

definition from_mlir :: "string list \<Rightarrow> string \<Rightarrow> mlir_gen \<Rightarrow> mlir_gen res" where
  "from_mlir code mlir_name g =
     and_then (parse_code (format_code code)
         \<lparr>ps_gen = g\<lparr>mg_name := mlir_name, mg_in_code := code\<rparr>, ps_args = [], ps_ret_var = [], ps_ret = [], ps_cast = [], ps_program = []\<rparr>) (\<lambda>s.
       let g = ps_gen s; n = mg_addr g;
           (ret_var, n) = (case ps_ret_var s of [v] \<Rightarrow> (v, n) | vs \<Rightarrow> (Tuple n vs, Suc n))
       in and_then (InferType (Function n (ps_args s) ret_var None None)) (\<lambda>m.
            Inr (g\<lparr>mg_addr := Suc n, mg_module := Some m, mg_args_data := ps_args s, mg_ret_data := ps_ret s,
              mg_cast_data := ps_cast s, mg_program_data := ps_program s\<rparr>)))"


section \<open>Names of calls\<close>

text \<open>\<^verbatim>\<open>GET_CALL_TAG\<close>: every exception of the two attempts is swallowed.\<close>

definition GET_CALL_TAG :: "expr \<Rightarrow> string" where
  "GET_CALL_TAG call =
     (case call of
        Call u (Op nm) as a \<Rightarrow>
          (if py_in ''stencil'' nm then (case attrs_tag a of Inr t \<Rightarrow> t | Inl _ \<Rightarrow> ''ERROR CALL TAG'') else ''ERROR CALL TAG'')
      | Call u f as a \<Rightarrow> (case op_attrs_tag f of Inr t \<Rightarrow> if py_in ''fuse'' t then t else ''ERROR CALL TAG'' | Inl _ \<Rightarrow> ''ERROR CALL TAG'')
      | _ \<Rightarrow> ''ERROR CALL TAG'')"

text \<open>A visitor whose hook may raise.\<close>

function visit_res :: "(expr \<Rightarrow> 's \<Rightarrow> 's res) \<Rightarrow> expr \<Rightarrow> expr set \<times> 's \<Rightarrow> (expr set \<times> 's) res" where
  "visit_res pre e (memo, s) =
     (if e \<in> memo then Inr (memo, s)
      else and_then (pre e s) (\<lambda>s. and_then (res_fold (visit_res pre) (children True e) (memo, s)) (\<lambda>(memo, s).
        Inr (insert e memo, s))))"
  by pat_completeness auto
termination
  by (relation "measure (\<lambda>(pre, e, st). size e)") (auto simp: children_size)

declare visit_res.simps [simp del]

definition replace_call_op :: "expr \<Rightarrow> mlir_gen \<Rightarrow> mlir_gen res" where
  "replace_call_op e g =
     (case e of
        Call u f as (Some a) \<Rightarrow>
          and_then (attrs_tag (Some a)) (\<lambda>t.
            let tag = py_replace t ''stencil_'' ''%''
            in and_then (set_tag_data tag e g) (\<lambda>g. Inr (g\<lparr>mg_variable2name := AList.update e tag (mg_variable2name g)\<rparr>)))
      | Call u f as None \<Rightarrow>
          and_then (op_attrs_tag f) (\<lambda>fuse_tag.
            Inr (g\<lparr>mg_variable2name := AList.update e (py_replace fuse_tag ''fuse_'' ''%'') (mg_variable2name g)\<rparr>))
      | Var u nm t \<Rightarrow>
          let tag = py_replace nm ''data_'' ''%''
          in if tag \<in> set (dict_keys (mg_tag2code g))
             then and_then (set_tag_data tag e g) (\<lambda>g. Inr (g\<lparr>mg_variable2name := AList.update e tag (mg_variable2name g)\<rparr>))
             else Inr g
      | _ \<Rightarrow> Inr g)"

definition reverse_variable_name :: "expr \<Rightarrow> mlir_gen \<Rightarrow> mlir_gen res" where
  "reverse_variable_name func g =
     (let g = g\<lparr>mg_variable2name := fold (\<lambda>(tag, e). AList.update (ce_data e) tag) (mg_tag2code g) (mg_variable2name g)\<rparr>
      in and_then (visit_res replace_call_op func ({}, g)) (\<lambda>(_, g). Inr g))"

definition apply_code :: "mlir_gen \<Rightarrow> expr \<Rightarrow> string list res" where
  "apply_code g call =
     (case call of
        Call u f as (Some a) \<Rightarrow>
          and_then (attrs_tag (Some a)) (\<lambda>call_tag. and_then (py_nth (py_split call_tag ''_'') 1) (\<lambda>t. tag_body g (''%'' @ t)))
      | Call u f as None \<Rightarrow>
          and_then (op_attrs_tag f) (\<lambda>fuse_tag.
          and_then (res_map (\<lambda>t. tag_body g (''%'' @ t)) (tl (py_split fuse_tag ''_''))) (\<lambda>bs. Inr (concat bs)))
      | _ \<Rightarrow> Inl AttributeError)"

definition build_apply2code :: "mlir_gen \<Rightarrow> (expr, string list) dict res" where
  "build_apply2code g = res_fold (\<lambda>call d. and_then (apply_code g call) (\<lambda>c. Inr (AList.update call c d))) (mg_calls g) []"

text \<open>The name of a fused call in the printed code.\<close>

definition replace_fuse_output_name :: "mlir_gen \<Rightarrow> mlir_gen res" where
  "replace_fuse_output_name g =
     and_then (res_fold (\<lambda>call (m, i).
         and_then (dict_get (mg_variable2name g) call) (\<lambda>name.
           if 0 < py_count name ''_'' then Inr (AList.update name (''%fuse_'' @ str_of_nat i) m, Suc i) else Inr (m, i)))
       (mg_calls g) ([], 0)) (\<lambda>(m, _). Inr (g\<lparr>mg_fuse_name_map := m\<rparr>))"

end
