(* ===== verification/Mlir_Fuse.thy ===== *)
theory Mlir_Fuse
  imports Mlir_Parse
begin

text \<open>
  The text of a fused stencil (\<^verbatim>\<open>MLIRCodeGen.fuse_body\<close> of \<^verbatim>\<open>relay/transform/mlir.py\<close>): the bodies of the
  stencils of the group are made disjoint by a suffix, their arguments are connected, and every access to a
  result computed in the group at an offset is replaced by a copy of the computation at that offset.

  \<^verbatim>\<open>repeat_access_once\<close> calls itself until nothing is left to copy; its first argument is the number of nested calls
  the interpreter grants.
\<close>

section \<open>Suffixes\<close>

definition suffix_token :: "nat \<Rightarrow> string \<Rightarrow> string" where
  "suffix_token idx token =
     py_replace (if py_in ''%'' token then token @ ''_'' @ str_of_nat idx else token) ('',_'' @ str_of_nat idx) (''_'' @ str_of_nat idx @ '','')"

definition suffix_line :: "nat \<Rightarrow> string \<Rightarrow> string" where
  "suffix_line idx line = py_join '' '' (map (suffix_token idx) (py_split_ws line))"

definition add_suffix :: "string list list \<Rightarrow> string list list" where
  "add_suffix body_list = map (\<lambda>(idx, body). map (suffix_line idx) body) (enumerate 0 body_list)"


section \<open>Connecting the stencils\<close>

type_synonym outputs = "(string \<times> string) list"

definition arg_name :: "int \<Rightarrow> nat \<Rightarrow> nat \<Rightarrow> string" where
  "arg_name base arg_id op_id = ''%arg'' @ str_of_int (base + int arg_id) @ ''_'' @ str_of_nat op_id"

text \<open>\<^verbatim>\<open>op.args\<close> of an entry of \<^verbatim>\<open>tag2code\<close>; a variable has no arguments.\<close>

fun expr_args :: "expr \<Rightarrow> expr list res" where
  "expr_args (Call u f as a) = Inr as"
| "expr_args _ = Inl AttributeError"

definition map_fuse_args :: "int \<Rightarrow> expr list \<Rightarrow> nat \<times> expr \<Rightarrow> (string, string) dict \<Rightarrow> (string, string) dict res" where
  "map_fuse_args base fuse_args = (\<lambda>(op_id, oper) m.
     and_then (expr_args oper) (\<lambda>as.
       res_fold (\<lambda>(arg_id, arg) m.
         if arg \<in> set fuse_args then
           and_then (py_index fuse_args arg) (\<lambda>k. Inr (AList.update (arg_name base arg_id op_id) (''%arg'' @ str_of_int (base + int k)) m))
         else Inr m) (enumerate 0 as) m))"

text \<open>The results a body stores, in the order of its \<^verbatim>\<open>stencil.return\<close>.\<close>

definition sort_outputs :: "string \<Rightarrow> outputs \<Rightarrow> outputs res" where
  "sort_outputs line so =
     (let order = tl (py_split_ws (py_replace (py_slice line 0 (py_find line '':'')) '','' ''''))
      in and_then (res_map (\<lambda>x. py_index order (snd x)) so) (\<lambda>ks.
           Inr (map snd (sort_key fst (zip ks so)))))"

definition collect_output :: "string \<Rightarrow> outputs \<Rightarrow> outputs res" where
  "collect_output line so =
     (if py_in ''stencil.store_result'' line then
        and_then (py_nth (py_split_ws line) 3) (\<lambda>v. and_then (py_nth (py_split_ws line) 0) (\<lambda>r. Inr (so @ [(v, r)])))
      else if py_in ''stencil.return'' line then sort_outputs line so
      else Inr so)"

definition connect_arg :: "int \<Rightarrow> nat \<Rightarrow> (expr, outputs) dict \<Rightarrow> nat \<times> expr \<Rightarrow> (string, string) dict \<Rightarrow> (string, string) dict res" where
  "connect_arg base op_id op_output = (\<lambda>(arg_id, arg) m.
     case map_of op_output arg of
       Some so \<Rightarrow> and_then (py_nth so 0) (\<lambda>p. Inr (AList.update (arg_name base arg_id op_id) (fst p) m))
     | None \<Rightarrow>
         (case arg of
            TupleGetItem u tv i \<Rightarrow> if tv \<in> set (dict_keys op_output) then Inl KeyError else Inr m
          | _ \<Rightarrow> Inr m))"

definition connect_op :: "int \<Rightarrow> string list list \<Rightarrow> nat \<times> expr \<Rightarrow> (expr, outputs) dict \<times> (string, string) dict \<Rightarrow>
    ((expr, outputs) dict \<times> (string, string) dict) res" where
  "connect_op base body_list = (\<lambda>(op_id, oper) (op_output, m).
     and_then (py_nth body_list (int op_id)) (\<lambda>body.
     and_then (res_fold collect_output body []) (\<lambda>sub_output.
       let op_output = AList.update oper sub_output op_output
       in and_then (expr_args oper) (\<lambda>as.
          and_then (res_fold (connect_arg base op_id op_output) (enumerate 0 as) m) (\<lambda>m. Inr (op_output, m))))))"

definition replace_args :: "(string, string) dict \<Rightarrow> string \<Rightarrow> string" where
  "replace_args m line = fold (\<lambda>(key, v) line. py_replace line (key @ '' '') (v @ '' '')) m line"

definition drop_outputs :: "string list \<Rightarrow> string list" where
  "drop_outputs body = filter (\<lambda>line. \<not> (py_in ''stencil.return'' line \<or> py_in ''stencil.store_result'' line)) body"

fun strip_items :: "expr \<Rightarrow> expr" where
  "strip_items (TupleGetItem u tv i) = strip_items tv"
| "strip_items e = e"

text \<open>An output that is not one of the stencils itself is found by its tag.\<close>

definition output_tag :: "expr \<Rightarrow> string res" where
  "output_tag e =
     (case e of
        Call u f as (Some a) \<Rightarrow> attrs_tag (Some a)
      | Call u (Function w ps (Call u2 f2 as2 a2) t at) as None \<Rightarrow> attrs_tag a2
      | _ \<Rightarrow> Inl AttributeError)"

definition call_tag_of :: "expr \<Rightarrow> string res" where
  "call_tag_of e = (case e of Call u f as a \<Rightarrow> attrs_tag a | _ \<Rightarrow> Inl AttributeError)"

fun find_by_tag :: "string \<Rightarrow> (expr, outputs) dict \<Rightarrow> outputs res" where
  "find_by_tag t [] = Inr []"
| "find_by_tag t ((key, v) # d) = and_then (call_tag_of key) (\<lambda>kt. if kt = t then Inr v else find_by_tag t d)"

definition output_vars :: "(expr, outputs) dict \<Rightarrow> expr \<Rightarrow> outputs res" where
  "output_vars op_output out =
     (case out of
        Call u f as a \<Rightarrow> dict_get op_output out
      | Tuple u fs \<Rightarrow>
          and_then (res_map (\<lambda>sub_out. case map_of op_output sub_out of
              Some v \<Rightarrow> Inr v | None \<Rightarrow> and_then (output_tag sub_out) (\<lambda>t. find_by_tag t op_output))
            (fold (\<lambda>f. add_new (strip_items f)) fs [])) (\<lambda>vs. Inr (concat vs))
      | _ \<Rightarrow> Inl TypeError)"

definition return_body :: "string \<Rightarrow> outputs \<Rightarrow> string list" where
  "return_body dtype ov =
     map (\<lambda>p. snd p @ '' = stencil.store_result '' @ fst p @ '' : ('' @ dtype @ '') -> !stencil.result<'' @ dtype @ ''>'') ov @
     [''stencil.return '' @ py_join '', '' (map snd ov) @ '' : '' @ py_join '', '' (replicate (length ov) (''!stencil.result<'' @ dtype @ ''>''))]"

definition args_replace :: "mlir_gen \<Rightarrow> string list list \<Rightarrow> expr \<Rightarrow> string list list res" where
  "args_replace g body_list call =
     and_then (dict_get (mg_variable2name g) call) (\<lambda>fuse_tag.
     case call of
       Call u (Function w fuse_args out t at) as a \<Rightarrow>
         and_then (res_map (\<lambda>tag. tag_data g (''%'' @ tag)) (py_split (py_slice fuse_tag 1 (int (length fuse_tag))) ''_'')) (\<lambda>sub_op.
         and_then (res_fold (map_fuse_args (mg_args_base g) fuse_args) (enumerate 0 sub_op) []) (\<lambda>args_map.
         and_then (res_fold (connect_op (mg_args_base g) body_list) (enumerate 0 sub_op) ([], args_map)) (\<lambda>(op_output, args_map).
         and_then (output_vars op_output out) (\<lambda>ov.
           Inr (map (\<lambda>(i, body). let body = map (replace_args args_map) body
                     in if i < length op_output then drop_outputs body else body) (enumerate 0 body_list)
                @ [return_body (mg_dtype g) ov])))))
     | _ \<Rightarrow> Inl AttributeError)"


section \<open>Copying computations to an offset\<close>

definition is_repeat :: "string \<Rightarrow> bool" where
  "is_repeat line \<longleftrightarrow> py_in ''stencil.access'' line \<and> \<not> py_in ''arg'' line"

type_synonym var_lines = "(string, (nat \<times> string) \<times> string list) dict"

text \<open>\<^verbatim>\<open>var_def2line\<close> and \<^verbatim>\<open>var_compute\<close>, which have the same keys, as one dictionary.\<close>

definition def_line :: "nat \<times> string \<Rightarrow> var_lines \<Rightarrow> var_lines res" where
  "def_line = (\<lambda>(idx, line) d.
     let toks = py_split_ws line
     in and_then (py_nth toks 1) (\<lambda>t.
          if t \<noteq> ''='' then Inr d
          else Inr (AList.update (toks ! 0) ((idx, line), map (\<lambda>tmp. py_replace tmp '','' '''') (filter (\<lambda>tmp. py_startswith tmp ''%'') (drop 2 toks))) d)))"

definition search_step :: "var_lines \<Rightarrow> string list \<times> (nat \<times> string) list \<Rightarrow> (string list \<times> (nat \<times> string) list) res option" where
  "search_step d = (\<lambda>(vars, ls).
     Some (and_then (py_nth vars 0) (\<lambda>var.
       case map_of d var of
         None \<Rightarrow> Inr (tl vars, ls)
       | Some (il, used) \<Rightarrow>
           and_then (py_nth (py_split var ''_'') 1) (\<lambda>body_idx.
             Inr (tl vars @ filter (\<lambda>x. last (py_split x ''_'') = body_idx) used, ls @ [il])))))"

definition search_related_line :: "var_lines \<Rightarrow> string \<Rightarrow> (nat \<times> string) list res option" where
  "search_related_line d root_var =
     run_then (run_while (\<lambda>(vars, ls). vars \<noteq> []) (search_step d) ([root_var], []))
       (\<lambda>(_, ls). Some (Inr (fold add_new (sort_key fst ls) [])))"

fun access_vars :: "var_lines \<Rightarrow> string list \<Rightarrow> (string, (nat \<times> string) list) dict \<Rightarrow> (string, (nat \<times> string) list) dict res option" where
  "access_vars d [] av = Some (Inr av)"
| "access_vars d (line # wait) av =
     run_then (Some (py_nth (py_split_ws line) 3)) (\<lambda>var.
       if var \<in> set (dict_keys av) then access_vars d wait av
       else run_then (search_related_line d var) (\<lambda>ls. access_vars d wait (av @ [(var, ls)])))"

definition access_var_depend :: "(string, (nat \<times> string) list) dict \<Rightarrow> (string, string list) dict res" where
  "access_var_depend av =
     res_map (\<lambda>(var, ls). and_then (res_map (\<lambda>l. py_nth (py_split_ws (snd l)) 3) (filter (\<lambda>l. is_repeat (snd l)) ls)) (\<lambda>ds. Inr (var, ds))) av"

definition filter_access :: "(string, (nat \<times> string) list) dict \<Rightarrow> string list \<Rightarrow> (string list \<times> string set) res" where
  "filter_access av repeat_access =
     and_then (access_var_depend av) (\<lambda>dep.
       let deep_var = set (concat (map snd dep)) \<inter> set (dict_keys dep)
       in and_then (res_map (\<lambda>line. and_then (py_nth (py_split_ws line) 3) (\<lambda>v. Inr (v, line))) repeat_access) (\<lambda>vl.
            Inr (map snd (filter (\<lambda>(v, line). v \<notin> deep_var) vl), deep_var)))"

definition parse_offset :: "string \<Rightarrow> int list res" where
  "parse_offset line = res_map py_int (py_split (text_between ''['' '']'' line) '', '')"

definition print_offset :: "int list \<Rightarrow> string" where
  "print_offset off = py_join '', '' (map str_of_int off)"

definition offset_token :: "string \<Rightarrow> string set \<Rightarrow> string \<Rightarrow> string res" where
  "offset_token str_offset deep_vars token =
     (if py_startswith token ''%'' then
        and_then (py_nth token 1) (\<lambda>c.
          if py_isdigit c \<and> token \<notin> deep_vars
          then Inr (if last token \<noteq> CHR '','' then token @ str_offset else butlast token @ str_offset @ '','')
          else Inr token)
      else Inr token)"

definition offset_line :: "int list \<Rightarrow> string set \<Rightarrow> nat \<times> string \<Rightarrow> (nat \<times> string) res" where
  "offset_line off deep_vars = (\<lambda>(idx, line).
     and_then (if py_in ''stencil.access'' line then
         and_then (parse_offset line) (\<lambda>origin_offset.
           Inr (py_replace line (print_offset origin_offset) (print_offset (map (\<lambda>(a, b). a + b) (zip origin_offset off)))))
       else Inr line) (\<lambda>line.
     and_then (res_map (offset_token (''_'' @ concat (map str_of_int off)) deep_vars) (py_split_ws line)) (\<lambda>toks.
       Inr (idx, py_join '' '' toks))))"

definition add_offset :: "(nat \<times> string) list \<Rightarrow> int list \<Rightarrow> string set \<Rightarrow> (nat \<times> string) list res" where
  "add_offset related off deep_vars = res_map (offset_line off deep_vars) related"

definition offset_access :: "(string, (nat \<times> string) list) dict \<Rightarrow> string set \<Rightarrow> string list \<Rightarrow> string \<Rightarrow>
    (string, (nat \<times> string) list) dict \<Rightarrow> (string, (nat \<times> string) list) dict res" where
  "offset_access av deep_vars ret_def_vars line oc =
     and_then (py_nth (py_split_ws line) 3) (\<lambda>var.
     and_then (parse_offset line) (\<lambda>off.
     and_then (dict_get av var) (\<lambda>related.
     and_then (add_offset related off deep_vars) (\<lambda>code.
       let oc = AList.update line code oc
       in if var \<in> set ret_def_vars
          then and_then (add_offset related (replicate (length off) 0) deep_vars) (\<lambda>code0. Inr (AList.update (''ret_var:'' @ var) code0 oc))
          else Inr oc))))"

text \<open>The lines that take the place of a line of the body.\<close>

definition add_copy :: "nat \<times> string \<Rightarrow> (nat, string list) dict \<Rightarrow> (nat, string list) dict" where
  "add_copy = (\<lambda>(idx, line) d. AList.update idx (add_new line (dict_get_default d idx [])) d)"

definition last_def :: "(nat \<times> string) list \<Rightarrow> string res" where
  "last_def code = and_then (py_nth code (- 1)) (\<lambda>l. py_nth (py_split_ws (snd l)) 0)"

definition replace_code :: "string \<times> (nat \<times> string) list \<Rightarrow> string list \<times> (nat, string list) dict \<times> (string, string) dict \<Rightarrow>
    (string list \<times> (nat, string list) dict \<times> (string, string) dict) res" where
  "replace_code = (\<lambda>(line, code) (body, lmap, rv).
     let ret = py_in ''ret_var'' line
     in and_then (if \<not> ret then py_nth (py_split_ws line) 0
          else and_then (last_def code) (\<lambda>v. Inr (py_replace v ''_000'' ''''))) (\<lambda>use_var.
        let lmap = fold add_copy code lmap
        in and_then (if \<not> ret then and_then (py_index body line) (\<lambda>i. Inr (body[i := []])) else Inr body) (\<lambda>body.
             Inr (body, lmap, case last_def code of Inr v \<Rightarrow> AList.update use_var v rv | Inl _ \<Rightarrow> rv))))"

definition copied_line :: "(nat, string list) dict \<Rightarrow> string list \<Rightarrow> nat \<times> string \<Rightarrow> string list" where
  "copied_line lmap ret_vars = (\<lambda>(idx, line).
     if line = [] then []
     else case map_of lmap idx of
       None \<Rightarrow> [line]
     | Some ls \<Rightarrow> (if (case py_split_ws line of [] \<Rightarrow> False | t # _ \<Rightarrow> t \<in> set ret_vars) then [line] else []) @ ls)"

definition rename_vars :: "(string, string) dict \<Rightarrow> string \<Rightarrow> string" where
  "rename_vars rv line = fold (\<lambda>(var, new_var) line.
     py_replace (py_replace line (var @ '','') (new_var @ '','')) (var @ '' '') (new_var @ '' '')) rv line"

definition copy_accesses :: "string list \<Rightarrow> (string list \<times> string set) res option" where
  "copy_accesses body =
     run_then (Some (res_fold def_line (enumerate 0 body) [])) (\<lambda>d.
     run_then (access_vars d (filter is_repeat body) []) (\<lambda>av.
     run_then (Some (py_nth body (- 1))) (\<lambda>ret_line.
       let ret_vars = filter (\<lambda>t. py_startswith t ''%'') (py_split_ws (py_replace ret_line '','' ''''))
       in run_then (Some (res_map (\<lambda>var. and_then (dict_get d var) (\<lambda>((_, l), _). py_nth (py_split_ws l) 3)) ret_vars)) (\<lambda>ret_def_vars.
          run_then (Some (filter_access av (filter is_repeat body))) (\<lambda>(wait, deep_vars).
          run_then (Some (res_fold (offset_access av deep_vars ret_def_vars) wait [])) (\<lambda>oc.
          run_then (Some (res_fold replace_code oc (body, [], []))) (\<lambda>(body, lmap, rv).
            Some (Inr (map (rename_vars rv) (concat (map (copied_line lmap ret_vars) (enumerate 0 body))), deep_vars)))))))))"

fun repeat_access_once :: "nat \<Rightarrow> string list \<Rightarrow> string set \<Rightarrow> string list res option" where
  "repeat_access_once 0 body deep = Some (Inl RecursionError)"
| "repeat_access_once (Suc k) body deep =
     (if filter is_repeat body = [] \<and> deep = {} then Some (Inr body)
      else run_then (copy_accesses body) (\<lambda>(body, deep). repeat_access_once k body deep))"

definition repeat_access :: "nat \<Rightarrow> string list list \<Rightarrow> string list res option" where
  "repeat_access limit body_list = repeat_access_once limit (concat body_list) {}"

definition fuse_body :: "nat \<Rightarrow> mlir_gen \<Rightarrow> string list list \<Rightarrow> expr \<Rightarrow> string res option" where
  "fuse_body limit g body_list call =
     (let lines = (\<lambda>ls. [CHR 0x0A, CHR 0x09] @ py_join [CHR 0x0A, CHR 0x09] ls @ [CHR 0x0A])
      in if length body_list = 1 then Some (Inr (lines (body_list ! 0)))
         else run_then (Some (args_replace g (add_suffix body_list) call)) (\<lambda>bl.
              run_then (repeat_access limit bl) (\<lambda>body. Some (Inr (lines body)))))"


section \<open>Names inside a stencil\<close>

definition var_token :: "string \<Rightarrow> bool res" where
  "var_token token = (if py_startswith token ''%'' then and_then (py_nth token 1) (\<lambda>c. Inr (py_isdigit c)) else Inr False)"

definition rename_var :: "string \<Rightarrow> (string, string) dict \<times> string \<Rightarrow> (string, string) dict \<times> string" where
  "rename_var var = (\<lambda>(m, body).
     let m = (if var \<in> set (dict_keys m) then m else m @ [(var, ''%var_'' @ str_of_nat (length m + 1))]);
         new_name = dict_get_default m var []
     in (m, py_replace (py_replace body (var @ '','') (new_name @ '','')) (var @ '' '') (new_name @ '' '')))"

definition var_name_in_apply :: "string \<Rightarrow> string res" where
  "var_name_in_apply body =
     and_then (res_map (\<lambda>t. and_then (var_token t) (\<lambda>b. Inr (b, t))) (py_split_ws body)) (\<lambda>ts.
       Inr (snd (fold rename_var (map (\<lambda>(b, t). py_replace t '','' '''') (filter fst ts)) ([], body))))"

text \<open>\<^verbatim>\<open>access_shape_replace\<close> is given a string, so that the lines it looks at are its characters.\<close>

definition access_shape_replace :: "string \<Rightarrow> (string, string) dict \<Rightarrow> string res" where
  "access_shape_replace body args_shape =
     res_fold (\<lambda>c body. if py_in ''stenci.access'' [c] then Inl TypeError else Inr body) body body"

end
