(* ===== verification/Stream_Sync.thy ===== *)
theory Stream_Sync
  imports Stream_Solve
begin

text \<open>
  \<^verbatim>\<open>MLIRCodeGen.generate_codengen_streamlist\<close> (\<^verbatim>\<open>relay/transform/mlir.py\<close>): from the levels of the
  stream solver to one list of kernels and synchronisation points per stream, with the redundant
  synchronisations removed. The synchronisation string \<^verbatim>\<open>'sync_' + str(i)\<close> is \<open>Sync i\<close>; its
  rendering is injective (\<open>sync_name_inj\<close>), so the two representations agree.
\<close>

section \<open>The construction\<close>

datatype 'c item = Sync nat | Run 'c

definition sync_name :: "nat \<Rightarrow> string" where
  "sync_name i = ''sync_'' @ str_of_nat i"

lemma sync_name_inj [simp]: "sync_name i = sync_name j \<longleftrightarrow> i = j"
  by (simp add: sync_name_def)

definition max_stream_number :: "'c list list \<Rightarrow> nat" where
  "max_stream_number tmp_list = fold (\<lambda>l m. max m (length l)) tmp_list 1"

text \<open>Stream \<open>i\<close> takes the \<open>i\<close>-th call of every level, a synchronisation before every level but the first.\<close>

fun stream_from :: "nat \<Rightarrow> nat \<Rightarrow> 'c list list \<Rightarrow> 'c item list" where
  "stream_from i step [] = []"
| "stream_from i step (l # ls) =
     (if step \<noteq> 0 then [Sync step] else []) @ (if i < length l then [Run (l ! i)] else []) @
     stream_from i (Suc step) ls"

text \<open>\<^verbatim>\<open>IsConsumerProcuce\<close>: a call of the first list reads a call of the second.\<close>

fun res_any :: "('a \<Rightarrow> bool res) \<Rightarrow> 'a list \<Rightarrow> bool res" where
  "res_any f [] = Inr False"
| "res_any f (x # xs) = and_then (f x) (\<lambda>b. if b then Inr True else res_any f xs)"

definition IsConsumerProcuce :: "'c io_graph \<Rightarrow> 'c list \<Rightarrow> 'c list \<Rightarrow> bool res" where
  "IsConsumerProcuce graph my_call_list other_call_list =
     res_any (\<lambda>a. res_any (\<lambda>b. and_then (dict_get graph a) (\<lambda>r. Inr (b \<in> set (inputs r)))) other_call_list)
       my_call_list"

fun is_run :: "'c item \<Rightarrow> bool" where
  "is_run (Run c) = True"
| "is_run (Sync i) = False"

fun the_call :: "'c item \<Rightarrow> 'c" where
  "the_call (Run c) = c"
| "the_call (Sync i) = undefined"

text \<open>The calls right after a synchronisation in a stream, and the calls right before it.\<close>

definition calls_after :: "nat \<Rightarrow> 'c item list \<Rightarrow> 'c list res" where
  "calls_after i l = and_then (py_index l (Sync i)) (\<lambda>idx.
     Inr (map the_call (takeWhile is_run (drop (Suc idx) l))))"

definition calls_before :: "nat \<Rightarrow> 'c item list \<Rightarrow> 'c list res" where
  "calls_before i l = and_then (py_index l (Sync i)) (\<lambda>idx.
     Inr (map the_call (takeWhile is_run (rev (take idx l)))))"

definition sync_needed :: "'c io_graph \<Rightarrow> nat \<Rightarrow> 'c item list list \<Rightarrow> bool res" where
  "sync_needed graph i streamlist =
     (let have_tag_list = filter (\<lambda>l. Sync i \<in> set l) streamlist
      in res_any (\<lambda>myl. and_then (calls_after i myl) (\<lambda>my_call_list.
           res_any (\<lambda>otherl.
             if otherl = myl then Inr False
             else and_then (calls_before i otherl) (IsConsumerProcuce graph my_call_list))
             have_tag_list)) have_tag_list)"

definition drop_sync :: "'c io_graph \<Rightarrow> nat \<Rightarrow> 'c item list list \<Rightarrow> 'c item list list res" where
  "drop_sync graph i streamlist =
     and_then (sync_needed graph i streamlist) (\<lambda>flag.
       Inr (if flag then streamlist else map (remove1 (Sync i)) streamlist))"

definition drop_lonely :: "'c item list \<Rightarrow> nat \<Rightarrow> 'c item list list \<Rightarrow> 'c item list list" where
  "drop_lonely element_list i streamlist =
     (if count_list element_list (Sync i) = 1 then map (remove1 (Sync i)) streamlist else streamlist)"

definition generate_codengen_streamlist :: "'c list list \<Rightarrow> 'c io_graph \<Rightarrow> 'c item list list res" where
  "generate_codengen_streamlist tmp_list graph =
     (let streamlist = map (\<lambda>i. stream_from i 0 tmp_list) [0..<max_stream_number tmp_list];
          max_step = length tmp_list
      in and_then (res_fold (drop_sync graph) [1..<max_step] streamlist) (\<lambda>streamlist.
           let element_list = concat streamlist
           in Inr (fold (drop_lonely element_list) [0..<max_step] streamlist)))"


section \<open>What the streams look like\<close>

text \<open>A stream in which only the synchronisations of \<open>K\<close> are left.\<close>

fun render :: "nat set \<Rightarrow> nat \<Rightarrow> nat \<Rightarrow> 'c list list \<Rightarrow> 'c item list" where
  "render K i step [] = []"
| "render K i step (l # ls) =
     (if step \<noteq> 0 \<and> step \<in> K then [Sync step] else []) @ (if i < length l then [Run (l ! i)] else []) @
     render K i (Suc step) ls"

lemma stream_from_render: "stream_from i step ls = render UNIV i step ls"
  by (induction ls arbitrary: step) auto

lemma sync_in_render: "Sync k \<in> set (render K i step ls) \<longleftrightarrow> k \<noteq> 0 \<and> k \<in> K \<and> step \<le> k \<and> k < step + length ls"
proof (induction ls arbitrary: step)
  case (Cons l ls)
  have "Sync k \<in> set (render K i step (l # ls)) \<longleftrightarrow>
      step \<noteq> 0 \<and> step \<in> K \<and> k = step \<or> Sync k \<in> set (render K i (Suc step) ls)"
    by simp blast
  then show ?case unfolding Cons.IH by (cases "k = step") auto
qed simp

lemma run_in_render: "Run c \<in> set (render K i step ls) \<longleftrightarrow> (\<exists>l \<in> set ls. i < length l \<and> l ! i = c)"
  by (induction ls arbitrary: step) auto

lemma render_append: "render K i step (xs @ ys) = render K i step xs @ render K i (step + length xs) ys"
  by (induction xs arbitrary: step) auto

lemma render_remove: "remove1 (Sync k) (render K i step ls) = render (K - {k}) i step ls"
proof (induction ls arbitrary: step)
  case (Cons l ls)
  have "Sync k \<notin> set (render K i (Suc k) ls)" by (simp add: sync_in_render)
  moreover have "render (K - {k}) i (Suc k) ls = render K i (Suc k) ls"
    by (metis (no_types) Cons.IH calculation remove1_idem)
  ultimately show ?case using Cons by auto
qed simp

lemma render_cong: "K \<inter> {step..<step + length ls} = L \<inter> {step..<step + length ls} \<Longrightarrow>
   render K i step ls = render L i step ls"
proof (induction ls arbitrary: step)
  case (Cons l ls)
  have "step \<in> K \<longleftrightarrow> step \<in> L" using Cons.prems by fastforce
  moreover have "K \<inter> {Suc step..<Suc step + length ls} = L \<inter> {Suc step..<Suc step + length ls}"
    using Cons.prems by fastforce
  ultimately show ?case using Cons.IH[of "Suc step"] by simp
qed simp

text \<open>A stream cut at a kept synchronisation.\<close>

lemma render_cut:
  assumes "0 < t" and "t < length ls" and "t \<in> K"
  shows "render K i 0 ls = render K i 0 (take t ls) @ Sync t #
    (if i < length (ls ! t) then [Run (ls ! t ! i)] else []) @ render K i (Suc t) (drop (Suc t) ls)"
proof -
  have "render K i 0 ls = render K i 0 (take t ls @ ls ! t # drop (Suc t) ls)"
    using assms(2) by (simp add: id_take_nth_drop[symmetric])
  then show ?thesis using assms by (simp add: render_append)
qed

lemma py_index_append: "x \<notin> set xs \<Longrightarrow> py_index (xs @ x # ys) x = Inr (length xs)"
  by (induction xs) auto

lemma render_index:
  assumes "0 < t" and "t < length ls" and "t \<in> K"
  shows "py_index (render K i 0 ls) (Sync t) = Inr (length (render K i 0 (take t ls)))"
  unfolding render_cut[OF assms] by (rule py_index_append) (simp add: sync_in_render)

lemma calls_after_render:
  assumes "0 < t" and "t < length ls" and "t \<in> K" and "Suc t \<in> K"
  shows "calls_after t (render K i 0 ls) = Inr (if i < length (ls ! t) then [ls ! t ! i] else [])"
proof -
  let ?A = "render K i 0 (take t ls)" and ?B = "render K i (Suc t) (drop (Suc t) ls)"
  have "takeWhile is_run ?B = []" using assms(4) by (cases "drop (Suc t) ls") auto
  moreover have "drop (Suc (length ?A)) (render K i 0 ls) = (if i < length (ls ! t) then [Run (ls ! t ! i)] else []) @ ?B"
    unfolding render_cut[OF assms(1-3)] by simp
  ultimately show ?thesis by (simp add: calls_after_def render_index[OF assms(1-3)])
qed

definition runs_before :: "nat set \<Rightarrow> nat \<Rightarrow> nat \<Rightarrow> 'c list list \<Rightarrow> 'c set" where
  "runs_before K i t ls = {c. \<exists>s<t. i < length (ls ! s) \<and> ls ! s ! i = c \<and> (\<forall>k. s < k \<and> k < t \<longrightarrow> k \<notin> K)}"

lemma runs_before_Suc:
  "runs_before K i (Suc n) ls = (if i < length (ls ! n) then {ls ! n ! i} else {}) \<union>
     (if n \<noteq> 0 \<and> n \<in> K then {} else runs_before K i n ls)"
  unfolding runs_before_def by (auto simp: less_Suc_eq)

lemma runs_before_render:
  "n \<le> length ls \<Longrightarrow>
   the_call ` set (takeWhile is_run (rev (render K i 0 (take n ls)))) = runs_before K i n ls"
proof (induction n)
  case 0
  then show ?case by (simp add: runs_before_def)
next
  case (Suc n)
  then show ?case by (auto simp: take_Suc_conv_app_nth render_append min_def runs_before_Suc)
qed

lemma calls_before_render:
  assumes "0 < t" and "t < length ls" and "t \<in> K"
  obtains cs where "calls_before t (render K i 0 ls) = Inr cs" "set cs = runs_before K i t ls"
proof
  let ?A = "render K i 0 (take t ls)"
  have "take (length ?A) (render K i 0 ls) = ?A"
    unfolding render_cut[OF assms] by simp
  then show "calls_before t (render K i 0 ls) = Inr (map the_call (takeWhile is_run (rev ?A)))"
    by (simp add: calls_before_def render_index[OF assms])
  show "set (map the_call (takeWhile is_run (rev ?A))) = runs_before K i t ls"
    using runs_before_render[of t ls K i] assms(2) by simp
qed


section \<open>When a synchronisation is kept\<close>

lemma res_any_Inr:
  "(\<forall>x \<in> set xs. f x = Inr (P x)) \<Longrightarrow> res_any f xs = Inr (\<exists>x \<in> set xs. P x)"
  by (induction xs) auto

lemma IsConsumerProcuce_spec:
  assumes "set my \<subseteq> fst ` set graph"
  shows "IsConsumerProcuce graph my other =
    Inr (\<exists>a \<in> set my. \<exists>b \<in> set other. \<exists>r. map_of graph a = Some r \<and> b \<in> set (inputs r))"
  unfolding IsConsumerProcuce_def
proof (rule res_any_Inr, rule ballI)
  fix a assume "a \<in> set my"
  then obtain r where "map_of graph a = Some r" using assms dict_key_Some[of a graph] by auto
  then show "res_any (\<lambda>b. and_then (dict_get graph a) (\<lambda>r. Inr (b \<in> set (inputs r)))) other =
      Inr (\<exists>b \<in> set other. \<exists>r. map_of graph a = Some r \<and> b \<in> set (inputs r))"
    by (subst res_any_Inr[where P = "\<lambda>b. b \<in> set (inputs r)"]) (auto simp: dict_get_def)
qed

text \<open>A call of level \<open>t\<close> reads, across streams, a call that no kept synchronisation separates from it.\<close>

definition reads :: "'c io_graph \<Rightarrow> 'c \<Rightarrow> 'c \<Rightarrow> bool" where
  "reads graph b a \<longleftrightarrow> (\<exists>r. map_of graph b = Some r \<and> a \<in> set (inputs r))"

definition unsynced :: "'c io_graph \<Rightarrow> 'c list list \<Rightarrow> nat set \<Rightarrow> nat \<Rightarrow> bool" where
  "unsynced graph ls K t \<longleftrightarrow>
     (\<exists>q < length (ls ! t). \<exists>p. p \<noteq> q \<and> (\<exists>a \<in> runs_before K p t ls. reads graph (ls ! t ! q) a))"

primrec kept :: "'c io_graph \<Rightarrow> 'c list list \<Rightarrow> nat \<Rightarrow> nat set" where
  "kept graph ls 0 = UNIV"
| "kept graph ls (Suc t) = (if t = 0 \<or> unsynced graph ls (kept graph ls t) t then kept graph ls t
     else kept graph ls t - {t})"

lemma kept_above: "t \<le> k \<Longrightarrow> k \<in> kept graph ls t"
  by (induction t) auto

lemma kept_stable: "k < t \<Longrightarrow> t \<le> n \<Longrightarrow> k \<in> kept graph ls n \<longleftrightarrow> k \<in> kept graph ls t"
proof (induction n)
  case (Suc n)
  then show ?case by (cases "t = Suc n") auto
qed simp

lemma runs_before_cong:
  "(\<And>k. k < t \<Longrightarrow> k \<in> K \<longleftrightarrow> k \<in> L) \<Longrightarrow> runs_before K p t ls = runs_before L p t ls"
  unfolding runs_before_def by blast

lemma kept_iff:
  assumes "0 < t" and "t < n"
  shows "t \<in> kept graph ls n \<longleftrightarrow> unsynced graph ls (kept graph ls n) t"
proof -
  have "t \<in> kept graph ls n \<longleftrightarrow> t \<in> kept graph ls (Suc t)" using kept_stable[of t "Suc t" n graph ls] assms by simp
  also have "\<dots> \<longleftrightarrow> unsynced graph ls (kept graph ls t) t"
    using assms(1) by (auto simp: kept_above)
  also have "\<dots> \<longleftrightarrow> unsynced graph ls (kept graph ls n) t"
    unfolding unsynced_def
    using runs_before_cong[of t "kept graph ls t" "kept graph ls n" _ ls] kept_stable[of _ t n graph ls] assms(2)
    by simp
  finally show ?thesis .
qed

definition streams :: "nat set \<Rightarrow> nat \<Rightarrow> 'c list list \<Rightarrow> 'c item list list" where
  "streams K m ls = map (\<lambda>i. render K i 0 ls) [0..<m]"

lemma max_stream_number_bounds:
  "1 \<le> max_stream_number ls" "l \<in> set ls \<Longrightarrow> length l \<le> max_stream_number ls"
proof -
  have *: "m \<le> fold (\<lambda>l m. max m (length l)) ls m \<and>
    (\<forall>l \<in> set ls. length l \<le> fold (\<lambda>l m. max m (length l)) ls m)" for m
    by (induction ls arbitrary: m) (auto intro: order_trans[OF max.cobounded1] order_trans[OF max.cobounded2])
  show "1 \<le> max_stream_number ls" "l \<in> set ls \<Longrightarrow> length l \<le> max_stream_number ls"
    using *[of 1] by (auto simp: max_stream_number_def)
qed

lemma max_stream_number_less:
  assumes "0 < n"
  shows "n < max_stream_number ls \<longleftrightarrow> (\<exists>l \<in> set ls. n < length l)"
proof -
  have "n < fold (\<lambda>l m. max m (length l)) ls m \<longleftrightarrow> n < m \<or> (\<exists>l \<in> set ls. n < length l)" for m
    by (induction ls arbitrary: m) (auto simp: less_max_iff_disj)
  then show ?thesis using assms by (simp add: max_stream_number_def)
qed

lemma runs_before_in_render:
  assumes "c \<in> runs_before K i t ls" and "t \<le> length ls"
  shows "Run c \<in> set (render L i 0 ls)"
  using assms unfolding runs_before_def run_in_render by (auto intro!: bexI[of _ "ls ! _"])

lemma distinct_position:
  assumes "distinct (concat ls)" and "s < length ls" and "t < length ls"
    and "p < length (ls ! s)" and "q < length (ls ! t)" and "ls ! s ! p = ls ! t ! q"
  shows "s = t \<and> p = q"
  using assms
proof (induction ls arbitrary: s t)
  case (Cons l ls)
  have disj: "ls ! j ! r \<notin> set l" if "j < length ls" "r < length (ls ! j)" for j r
  proof
    assume "ls ! j ! r \<in> set l"
    moreover have "ls ! j ! r \<in> set (concat ls)" using that by (auto intro!: bexI[of _ "ls ! j"])
    ultimately show False using Cons.prems(1) by auto
  qed
  show ?case
  proof (cases s; cases t)
    fix s' t' assume st: "s = Suc s'" "t = Suc t'"
    then show ?thesis using Cons.IH[of s' t'] Cons.prems by simp
  next
    fix t' assume st: "s = 0" "t = Suc t'"
    then show ?thesis using disj[of t' q] Cons.prems nth_mem[of p l] by simp
  next
    fix s' assume st: "s = Suc s'" "t = 0"
    then show ?thesis using disj[of s' p] Cons.prems nth_mem[of q l] by simp
  next
    assume "s = 0" "t = 0"
    then show ?thesis using Cons.prems by (simp add: nth_eq_iff_index_eq)
  qed
qed simp

lemma render_differ:
  assumes "distinct (concat ls)" and "Run c \<in> set (render K p 0 ls)" and "p \<noteq> q"
  shows "render K p 0 ls \<noteq> render K q 0 ls"
proof
  assume eq: "render K p 0 ls = render K q 0 ls"
  obtain s where "s < length ls" "p < length (ls ! s)" "ls ! s ! p = c"
    using assms(2) unfolding run_in_render by (auto simp: in_set_conv_nth)
  moreover obtain t where "t < length ls" "q < length (ls ! t)" "ls ! t ! q = c"
    using assms(2) unfolding eq run_in_render by (auto simp: in_set_conv_nth)
  ultimately show False using distinct_position[OF assms(1)] assms(3) by metis
qed

lemma runs_before_bound: "a \<in> runs_before K p t ls \<Longrightarrow> t \<le> length ls \<Longrightarrow> p < max_stream_number ls"
  unfolding runs_before_def using max_stream_number_bounds(2)[of _ ls]
  by (auto simp: less_le_trans)

lemma res_any_map: "res_any f (map g xs) = res_any (\<lambda>x. f (g x)) xs"
  by (induction xs) (simp_all cong: if_cong)

text \<open>The test of the streams \<open>q\<close> (reader) and \<open>p\<close> (read) at synchronisation \<open>t\<close>.\<close>

definition crosses :: "'c io_graph \<Rightarrow> 'c list list \<Rightarrow> nat set \<Rightarrow> nat \<Rightarrow> nat \<Rightarrow> nat \<Rightarrow> bool" where
  "crosses graph ls K t q p \<longleftrightarrow> render K p 0 ls \<noteq> render K q 0 ls \<and> q < length (ls ! t) \<and>
     (\<exists>a \<in> runs_before K p t ls. reads graph (ls ! t ! q) a)"

lemma crosses_unsynced:
  assumes "t < length ls" and "distinct (concat ls)"
  shows "(\<exists>q<max_stream_number ls. \<exists>p<max_stream_number ls. crosses graph ls K t q p) \<longleftrightarrow> unsynced graph ls K t"
proof
  assume "\<exists>q<max_stream_number ls. \<exists>p<max_stream_number ls. crosses graph ls K t q p"
  then obtain q p a where *: "render K p 0 ls \<noteq> render K q 0 ls" "q < length (ls ! t)"
      "a \<in> runs_before K p t ls" "reads graph (ls ! t ! q) a"
    unfolding crosses_def by blast
  then have "p \<noteq> q" by auto
  with * show "unsynced graph ls K t" unfolding unsynced_def by blast
next
  assume "unsynced graph ls K t"
  then obtain q p a where qp: "q < length (ls ! t)" "p \<noteq> q" "a \<in> runs_before K p t ls" "reads graph (ls ! t ! q) a"
    unfolding unsynced_def by blast
  have "Run a \<in> set (render K p 0 ls)" using runs_before_in_render[OF qp(3)] assms(1) by simp
  then have "render K p 0 ls \<noteq> render K q 0 ls" using render_differ[OF assms(2)] qp(2) by blast
  moreover have "q < max_stream_number ls" "p < max_stream_number ls"
    using qp(1) max_stream_number_bounds(2)[of "ls ! t" ls] runs_before_bound[OF qp(3)] assms(1) by auto
  ultimately show "\<exists>q<max_stream_number ls. \<exists>p<max_stream_number ls. crosses graph ls K t q p"
    unfolding crosses_def using qp by blast
qed

lemma pair_test:
  assumes t: "0 < t" "t < length ls" "t \<in> K" and keys: "set (concat ls) \<subseteq> fst ` set graph"
  shows "(if render K p 0 ls = render K q 0 ls then Inr False else and_then (calls_before t (render K p 0 ls))
      (IsConsumerProcuce graph (if q < length (ls ! t) then [ls ! t ! q] else []))) = Inr (crosses graph ls K t q p)"
proof -
  obtain cs where cs: "calls_before t (render K p 0 ls) = Inr cs" "set cs = runs_before K p t ls"
    using calls_before_render[OF t] .
  have "set (if q < length (ls ! t) then [ls ! t ! q] else []) \<subseteq> fst ` set graph"
    using keys t(2) by (auto intro!: subsetD[OF keys] bexI[of _ "ls ! t"])
  from IsConsumerProcuce_spec[OF this, of cs] show ?thesis
    by (auto simp: crosses_def cs reads_def)
qed

lemma sync_needed_streams:
  assumes t: "0 < t" "t < length ls" "t \<in> K" "Suc t \<in> K"
    and dist: "distinct (concat ls)" and keys: "set (concat ls) \<subseteq> fst ` set graph"
  shows "sync_needed graph t (streams K (max_stream_number ls) ls) = Inr (unsynced graph ls K t)"
proof -
  let ?m = "max_stream_number ls" and ?r = "\<lambda>i. render K i 0 ls"
  have tags: "filter (\<lambda>l. Sync t \<in> set l) (streams K ?m ls) = streams K ?m ls"
    using t by (simp add: streams_def filter_id_conv sync_in_render)
  have inner: "res_any (\<lambda>p. if ?r p = ?r q then Inr False else and_then (calls_before t (?r p))
      (IsConsumerProcuce graph (if q < length (ls ! t) then [ls ! t ! q] else []))) [0..<?m]
      = Inr (\<exists>p \<in> set [0..<?m]. crosses graph ls K t q p)" for q
    by (rule res_any_Inr) (simp add: pair_test[OF t(1-3) keys])
  have "sync_needed graph t (streams K ?m ls) = Inr (\<exists>q \<in> set [0..<?m]. \<exists>p \<in> set [0..<?m]. crosses graph ls K t q p)"
    unfolding sync_needed_def Let_def tags
    unfolding streams_def res_any_map calls_after_render[OF t] and_then_simps
    by (rule res_any_Inr) (simp add: inner)
  then show ?thesis using crosses_unsynced[OF t(2) dist] by (simp add: Bex_def)
qed

lemma drop_sync_streams:
  assumes "0 < t" and "t < length ls"
    and dist: "distinct (concat ls)" and keys: "set (concat ls) \<subseteq> fst ` set graph"
  shows "drop_sync graph t (streams (kept graph ls t) (max_stream_number ls) ls) =
    Inr (streams (kept graph ls (Suc t)) (max_stream_number ls) ls)"
  using assms sync_needed_streams[of t ls "kept graph ls t" graph]
  by (simp add: drop_sync_def kept_above) (simp add: streams_def render_remove)

lemma drop_syncs:
  assumes "n \<le> length ls"
    and dist: "distinct (concat ls)" and keys: "set (concat ls) \<subseteq> fst ` set graph"
  shows "res_fold (drop_sync graph) [1..<n] (streams UNIV (max_stream_number ls) ls) =
    Inr (streams (kept graph ls n) (max_stream_number ls) ls)"
  using assms(1)
proof (induction n)
  case (Suc n)
  show ?case
  proof (cases "n = 0")
    case False
    then show ?thesis using Suc drop_sync_streams[of n ls graph] dist keys
      by (simp add: res_fold_append)
  qed simp
qed simp

text \<open>With a single stream every synchronisation is already gone, so removing the ones that occur
  once changes nothing.\<close>

lemma count_render: "count_list (render K i step ls) (Sync k) =
    (if k \<noteq> 0 \<and> k \<in> K \<and> step \<le> k \<and> k < step + length ls then 1 else 0)"
  by (induction ls arbitrary: step) (auto simp: count_list_append)

lemma count_streams: "count_list (concat (streams K m ls)) (Sync k) =
    (if k \<noteq> 0 \<and> k \<in> K \<and> k < length ls then m else 0)"
  unfolding streams_def by (induction m) (auto simp: count_list_append count_render)

lemma single_stream_unsynced:
  assumes "max_stream_number ls = 1" and "t < length ls"
  shows "\<not> unsynced graph ls K t"
  unfolding unsynced_def
  using assms max_stream_number_bounds(2)[of "ls ! t" ls] runs_before_bound[of _ K _ t ls] by fastforce

lemma fold_unchanged: "(\<And>x. x \<in> set xs \<Longrightarrow> f x s = s) \<Longrightarrow> fold f xs s = s"
  by (induction xs) auto

theorem generate_codengen_streamlist_streams:
  assumes dist: "distinct (concat ls)" and keys: "set (concat ls) \<subseteq> fst ` set graph"
  shows "generate_codengen_streamlist ls graph =
    Inr (streams (kept graph ls (length ls)) (max_stream_number ls) ls)"
proof -
  let ?K = "kept graph ls (length ls)" and ?m = "max_stream_number ls"
  have "count_list (concat (streams ?K ?m ls)) (Sync i) \<noteq> 1" for i
    using single_stream_unsynced[of ls i graph ?K] kept_iff[of i "length ls" graph ls]
    by (auto simp: count_streams split: if_splits)
  then have "fold (drop_lonely (concat (streams ?K ?m ls))) [0..<length ls] (streams ?K ?m ls) = streams ?K ?m ls"
    by (intro fold_unchanged) (simp add: drop_lonely_def)
  moreover have "map (\<lambda>i. stream_from i 0 ls) [0..<?m] = streams UNIV ?m ls"
    by (simp add: streams_def stream_from_render)
  ultimately show ?thesis
    using drop_syncs[OF order_refl dist keys] by (simp add: generate_codengen_streamlist_def)
qed

end
