(* ===== verification/Launch_Threads.thy ===== *)
theory Launch_Threads
  imports Stream_Sync
begin

text \<open>
  What the generated \<^verbatim>\<open>main\<close> does at run time. \<^verbatim>\<open>GenMain.gen_launch_kernel\<close> and
  \<^verbatim>\<open>GenMain.gen_timing_and_run\<close> (\<^verbatim>\<open>relay/transform/maingen.py\<close>) emit one launch function per stream
  and a driver that creates the threads, waits for \<^verbatim>\<open>START\<close> and joins them. Their control skeleton is
  modelled as lists of instructions, with a small-step semantics in which a kernel launch only
  enqueues the kernel on the stream of its thread (the program is compiled with
  \<^verbatim>\<open>--default-stream per-thread\<close>, \<^verbatim>\<open>run.py\<close>), the device runs the kernels of one stream in order and
  different streams in any interleaving, \<^verbatim>\<open>cudaStreamSynchronize\<close> waits for the stream of the calling
  thread, and \<^verbatim>\<open>while(v != n);\<close> spins on an atomic counter.

  Shown for every list of streams that is \<open>well_synced\<close>: a kernel starts only when every kernel it
  reads has finished, no reachable state is stuck, and every run ends with all kernels finished.
\<close>

section \<open>The generated instructions\<close>

datatype barrier = START | SYNC nat
datatype 'c kernel = Warm nat | Ker 'c

datatype 'c instr =
    Launch "'c kernel" | StreamSync | Incr barrier | Wait barrier nat
  | Create nat | Join nat | DeviceSync

text \<open>\<^verbatim>\<open>sync_var_length\<close>: how often the synchronisation occurs in the stream list.\<close>

definition sync_var_length :: "'c item list list \<Rightarrow> nat \<Rightarrow> nat" where
  "sync_var_length S k = count_list (concat S) (Sync k)"

fun gen_single_call :: "'c item list list \<Rightarrow> 'c item \<Rightarrow> 'c instr list" where
  "gen_single_call S (Sync k) = [StreamSync, Incr (SYNC k), Wait (SYNC k) (sync_var_length S k)]"
| "gen_single_call S (Run c) = [Launch (Ker c)]"

definition launch_code :: "'c item list list \<Rightarrow> nat \<Rightarrow> 'c instr list" where
  "launch_code S i = [Launch (Warm i), StreamSync, Incr START, Wait START (length S)] @
     concat (map (gen_single_call S) (S ! i)) @ [StreamSync]"

definition main_code :: "'c item list list \<Rightarrow> 'c instr list" where
  "main_code S = map Create [0..<length S] @ [Wait START (length S)] @ map Join [0..<length S] @ [DeviceSync]"

text \<open>Thread \<open>length S\<close> is the main thread.\<close>

definition thread_code :: "'c item list list \<Rightarrow> nat \<Rightarrow> 'c instr list" where
  "thread_code S i = (if i < length S then launch_code S i else if i = length S then main_code S else [])"

text \<open>\<^verbatim>\<open>pthread_t threads[8]\<close>\<close>

definition threads_size :: nat where
  "threads_size = 8"


section \<open>Running them\<close>

record 'c exec =
  pc :: "nat \<Rightarrow> nat"
  live :: "nat set"
  queue :: "nat \<Rightarrow> 'c kernel list"
  running :: "nat \<Rightarrow> bool"
  counter :: "barrier \<Rightarrow> nat"
  finished :: "'c kernel set"

definition exec_init :: "nat \<Rightarrow> 'c exec" where
  "exec_init m = \<lparr>pc = (\<lambda>_. 0), live = {m}, queue = (\<lambda>_. []), running = (\<lambda>_. False), counter = (\<lambda>_. 0), finished = {}\<rparr>"

datatype 'c event = Tau | Begin "'c kernel" | End "'c kernel"

text \<open>The next instruction of a live thread.\<close>

definition at :: "(nat \<Rightarrow> 'c instr list) \<Rightarrow> 'c exec \<Rightarrow> nat \<Rightarrow> 'c instr \<Rightarrow> bool" where
  "at P s i a \<longleftrightarrow> i \<in> live s \<and> pc s i < length (P i) \<and> P i ! pc s i = a"

definition advance :: "nat \<Rightarrow> 'c exec \<Rightarrow> 'c exec" where
  "advance i s = s\<lparr>pc := (pc s)(i := Suc (pc s i))\<rparr>"

text \<open>
  A run is followed up to \<^verbatim>\<open>pthread_create(&threads[j], ...)\<close> with \<open>j\<close> outside the array: C leaves what
  such a write does undefined, so that nothing is said of the program beyond it. \<open>threads_overflow\<close> tells
  when such a write is reached.
\<close>

inductive exec_step :: "nat \<Rightarrow> (nat \<Rightarrow> 'c instr list) \<Rightarrow> 'c exec \<Rightarrow> 'c event \<Rightarrow> 'c exec \<Rightarrow> bool"
  for m :: nat and P :: "nat \<Rightarrow> 'c instr list" where
  launch: "at P s i (Launch c) \<Longrightarrow>
     exec_step m P s Tau ((advance i s)\<lparr>queue := (queue s)(i := queue s i @ [c])\<rparr>)"
| begin_kernel: "queue s i = c # cs \<Longrightarrow> \<not> running s i \<Longrightarrow>
     exec_step m P s (Begin c) (s\<lparr>running := (running s)(i := True)\<rparr>)"
| end_kernel: "queue s i = c # cs \<Longrightarrow> running s i \<Longrightarrow>
     exec_step m P s (End c) (s\<lparr>queue := (queue s)(i := cs), running := (running s)(i := False),
       finished := insert c (finished s)\<rparr>)"
| stream_sync: "at P s i StreamSync \<Longrightarrow> queue s i = [] \<Longrightarrow> exec_step m P s Tau (advance i s)"
| incr: "at P s i (Incr v) \<Longrightarrow>
     exec_step m P s Tau ((advance i s)\<lparr>counter := (counter s)(v := Suc (counter s v))\<rparr>)"
| wait: "at P s i (Wait v n) \<Longrightarrow> counter s v = n \<Longrightarrow> exec_step m P s Tau (advance i s)"
| create: "at P s i (Create j) \<Longrightarrow> j < threads_size \<Longrightarrow>
     exec_step m P s Tau ((advance i s)\<lparr>live := insert j (live s)\<rparr>)"
| join: "at P s i (Join j) \<Longrightarrow> pc s j = length (P j) \<Longrightarrow> exec_step m P s Tau (advance i s)"
| device_sync: "at P s i DeviceSync \<Longrightarrow> (\<forall>j<m. queue s j = []) \<Longrightarrow> exec_step m P s Tau (advance i s)"

inductive exec_run :: "nat \<Rightarrow> (nat \<Rightarrow> 'c instr list) \<Rightarrow> nat \<Rightarrow> 'c exec \<Rightarrow> bool"
  for m :: nat and P :: "nat \<Rightarrow> 'c instr list" where
  run_init: "exec_run m P 0 (exec_init m)"
| run_step: "exec_run m P n s \<Longrightarrow> exec_step m P s e s' \<Longrightarrow> exec_run m P (Suc n) s'"

inductive_cases begin_stepE: "exec_step m P s (Begin c) s'"

lemma advance_simps [simp]:
  "pc (advance i s) = (pc s)(i := Suc (pc s i))" "live (advance i s) = live s"
  "queue (advance i s) = queue s" "running (advance i s) = running s"
  "counter (advance i s) = counter s" "finished (advance i s) = finished s"
  by (simp_all add: advance_def)


section \<open>Order in a list\<close>

fun before :: "'a \<Rightarrow> 'a \<Rightarrow> 'a list \<Rightarrow> bool" where
  "before x y [] = False"
| "before x y (a # l) = (a = x \<and> y \<in> set l \<or> before x y l)"

lemma before_set: "before x y l \<Longrightarrow> x \<in> set l \<and> y \<in> set l"
  by (induction l) auto

lemma before_append: "before x y (l @ r) \<longleftrightarrow> before x y l \<or> before x y r \<or> x \<in> set l \<and> y \<in> set r"
  by (induction l) auto

lemma before_cut: "y \<notin> set vs \<Longrightarrow> before x y (us @ y # vs) \<longleftrightarrow> x \<in> set us"
  by (auto simp: before_append dest: before_set)

lemma before_take: "before x y (take n l) \<Longrightarrow> before x y l"
  by (metis append_take_drop_id before_append)

text \<open>In a list in which \<open>y\<close> occurs once, a prefix that contains \<open>y\<close> contains what is before \<open>y\<close>.\<close>

lemma before_in_take:
  assumes "count_list l y = 1" and "before x y l" and "y \<in> set (take n l)"
  shows "before x y (take n l)"
proof -
  obtain us vs where t: "take n l = us @ y # vs" using assms(3) split_list by metis
  then have l: "l = us @ y # (vs @ drop n l)" by (metis append_take_drop_id append.assoc append_Cons)
  have "count_list (us @ y # (vs @ drop n l)) y = 1" using l assms(1) by simp
  then have "y \<notin> set (vs @ drop n l)" by (simp add: count_list_append count_list_0_iff)
  then show ?thesis using assms(2) l before_cut[of y "vs @ drop n l" x us] before_cut[of y vs x us] t
    by (metis UnCI set_append)
qed


section \<open>Safety\<close>

definition launches :: "'c instr list \<Rightarrow> 'c kernel list" where
  "launches l = List.map_filter (\<lambda>a. case a of Launch c \<Rightarrow> Some c | _ \<Rightarrow> None) l"

lemma launches_simps [simp]:
  "launches [] = []" "launches (a # l) = (case a of Launch c \<Rightarrow> c # launches l | _ \<Rightarrow> launches l)"
  "launches (l @ r) = launches l @ launches r"
  by (auto simp: launches_def map_filter_simps map_filter_def split: instr.splits)

lemma in_launches: "c \<in> set (launches l) \<longleftrightarrow> Launch c \<in> set l"
  by (induction l) (auto split: instr.splits)

lemma before_launches: "before (Launch a) (Launch c) l \<Longrightarrow> before a c (launches l)"
  by (induction l) (auto simp: in_launches split: instr.splits)

lemma count_launches: "count_list l (Launch c) = count_list (launches l) c"
  by (induction l) (auto split: instr.splits)

definition passed :: "(nat \<Rightarrow> 'c instr list) \<Rightarrow> 'c exec \<Rightarrow> nat \<Rightarrow> 'c instr list" where
  "passed P s i = take (pc s i) (P i)"

lemma passed_advance [simp]:
  "at P s i a \<Longrightarrow> passed P (advance i s) j = (if j = i then passed P s i @ [a] else passed P s j)"
  by (auto simp: passed_def at_def take_Suc_conv_app_nth)

lemma passed_update [simp]:
  "passed P (s\<lparr>queue := q\<rparr>) = passed P s" "passed P (s\<lparr>running := r\<rparr>) = passed P s"
  "passed P (s\<lparr>counter := c\<rparr>) = passed P s" "passed P (s\<lparr>live := lv\<rparr>) = passed P s"
  "passed P (s\<lparr>finished := f\<rparr>) = passed P s"
  by (auto simp: passed_def fun_eq_iff)

text \<open>What a thread has passed: its queue holds the launched kernels that have not finished, all
  kernels before a stream synchronisation have finished.\<close>

definition queue_ok :: "(nat \<Rightarrow> 'c instr list) \<Rightarrow> 'c exec \<Rightarrow> nat \<Rightarrow> bool" where
  "queue_ok P s i \<longleftrightarrow> (\<exists>fs. launches (passed P s i) = fs @ queue s i \<and> set fs \<subseteq> finished s) \<and>
     (\<forall>c. before (Launch c) StreamSync (passed P s i) \<longrightarrow> c \<in> finished s)"

lemma queue_ok_step:
  assumes "exec_step m P s e s'" and "queue_ok P s i"
  shows "queue_ok P s' i"
  using assms unfolding queue_ok_def
  by (cases rule: exec_step.cases)
    (auto simp: before_append in_launches[symmetric] dest: before_set split: if_splits)

definition threads_bounded :: "nat \<Rightarrow> (nat \<Rightarrow> 'c instr list) \<Rightarrow> bool" where
  "threads_bounded m P \<longleftrightarrow> (\<forall>i>m. P i = [])"

definition wait_totals :: "nat \<Rightarrow> (nat \<Rightarrow> 'c instr list) \<Rightarrow> bool" where
  "wait_totals m P \<longleftrightarrow> (\<forall>i v n. Wait v n \<in> set (P i) \<longrightarrow> n = (\<Sum>j\<le>m. count_list (P j) (Incr v)))"

definition counter_ok :: "nat \<Rightarrow> (nat \<Rightarrow> 'c instr list) \<Rightarrow> 'c exec \<Rightarrow> bool" where
  "counter_ok m P s \<longleftrightarrow> (\<forall>v. counter s v = (\<Sum>j\<le>m. count_list (passed P s j) (Incr v)))"

definition all_incremented :: "nat \<Rightarrow> (nat \<Rightarrow> 'c instr list) \<Rightarrow> 'c exec \<Rightarrow> barrier \<Rightarrow> bool" where
  "all_incremented m P s v \<longleftrightarrow> (\<forall>j\<le>m. count_list (passed P s j) (Incr v) = count_list (P j) (Incr v))"

definition wait_ok :: "nat \<Rightarrow> (nat \<Rightarrow> 'c instr list) \<Rightarrow> 'c exec \<Rightarrow> bool" where
  "wait_ok m P s \<longleftrightarrow> (\<forall>i v n. Wait v n \<in> set (passed P s i) \<longrightarrow> all_incremented m P s v)"

lemma count_passed_le: "count_list (passed P s j) a \<le> count_list (P j) a"
proof -
  have "count_list (take (pc s j) (P j) @ drop (pc s j) (P j)) a = count_list (P j) a" by simp
  then show ?thesis unfolding passed_def count_list_append by linarith
qed

lemma passed_step:
  assumes "exec_step m P s e s'"
  shows "passed P s' j = passed P s j \<or> (\<exists>a. at P s j a \<and> passed P s' j = passed P s j @ [a])"
  using assms by (cases rule: exec_step.cases) auto

lemma all_incremented_step:
  assumes "exec_step m P s e s'" and "all_incremented m P s v"
  shows "all_incremented m P s' v"
  unfolding all_incremented_def
proof (intro allI impI)
  fix j assume "j \<le> m"
  have "count_list (passed P s j) (Incr v) \<le> count_list (passed P s' j) (Incr v)"
    using passed_step[OF assms(1), of j] by (auto simp: count_list_append)
  then show "count_list (passed P s' j) (Incr v) = count_list (P j) (Incr v)"
    using assms(2) count_passed_le[of P s' j "Incr v"] \<open>j \<le> m\<close> by (simp add: all_incremented_def)
qed

lemma counter_full:
  assumes "counter_ok m P s" and "counter s v = (\<Sum>j\<le>m. count_list (P j) (Incr v))"
  shows "all_incremented m P s v"
proof -
  have "(\<Sum>j\<le>m. count_list (passed P s j) (Incr v)) = (\<Sum>j\<le>m. count_list (P j) (Incr v))"
    using assms by (simp add: counter_ok_def)
  then show ?thesis unfolding all_incremented_def
    using sum_mono_inv[of "\<lambda>j. count_list (passed P s j) (Incr v)" "{..m}" "\<lambda>j. count_list (P j) (Incr v)"]
      count_passed_le by (metis atMost_iff finite_atMost)
qed

lemma counter_step_other:
  assumes "at P s i a" and "counter_ok m P s" and "a \<noteq> Incr v"
  shows "counter s v = (\<Sum>j\<le>m. count_list (passed P (advance i s) j) (Incr v))"
proof -
  have "count_list (passed P (advance i s) j) (Incr v) = count_list (passed P s j) (Incr v)" for j
    using assms(1,3) by (simp add: count_list_append)
  then show ?thesis using assms(2) by (simp add: counter_ok_def)
qed

lemma counter_step_incr:
  assumes "at P s i (Incr v)" and "counter_ok m P s" and "i \<le> m"
  shows "Suc (counter s v) = (\<Sum>j\<le>m. count_list (passed P (advance i s) j) (Incr v))"
proof -
  have "count_list (passed P (advance i s) j) (Incr v) =
      count_list (passed P s j) (Incr v) + (if j = i then 1 else 0)" for j
    using assms(1) by (simp add: count_list_append)
  then show ?thesis using assms(2,3) by (simp add: counter_ok_def sum.distrib)
qed

lemma counter_ok_step:
  assumes "exec_step m P s e s'" and "counter_ok m P s" and "threads_bounded m P"
  shows "counter_ok m P s'"
proof -
  have le: "i \<le> m" if "at P s i a" for i a
    using that assms(3) by (metis at_def threads_bounded_def list.size(3) not_less_zero not_le)
  show ?thesis using assms(1)
  proof (cases rule: exec_step.cases)
    case (incr i v)
    then show ?thesis
      using counter_step_incr[OF incr(3) assms(2) le] counter_step_other[OF incr(3) assms(2)]
      unfolding counter_ok_def by (auto simp del: passed_advance)
  qed (use counter_step_other[OF _ assms(2)] assms(2) in
      \<open>auto simp: counter_ok_def simp del: passed_advance\<close>)
qed

lemma wait_ok_step:
  assumes st: "exec_step m P s e s'" and "counter_ok m P s" and "wait_ok m P s" and "wait_totals m P"
  shows "wait_ok m P s'"
  unfolding wait_ok_def
proof (intro allI impI)
  fix i v n assume w: "Wait v n \<in> set (passed P s' i)"
  have "all_incremented m P s v"
  proof (cases "Wait v n \<in> set (passed P s i)")
    case True
    then show ?thesis using assms(3) by (auto simp: wait_ok_def)
  next
    case False
    then have "at P s i (Wait v n)" "passed P s' i \<noteq> passed P s i"
      using passed_step[OF st, of i] w by auto
    moreover have "counter s v = n" using st calculation
      by (cases rule: exec_step.cases) (auto simp: at_def split: if_splits)
    moreover have "Wait v n \<in> set (P i)" using calculation(1) by (metis at_def nth_mem)
    ultimately show ?thesis using assms(2,4) counter_full unfolding wait_totals_def by blast
  qed
  then show "all_incremented m P s' v" by (rule all_incremented_step[OF st])
qed

definition exec_inv :: "nat \<Rightarrow> (nat \<Rightarrow> 'c instr list) \<Rightarrow> 'c exec \<Rightarrow> bool" where
  "exec_inv m P s \<longleftrightarrow> (\<forall>i. queue_ok P s i) \<and> counter_ok m P s \<and> wait_ok m P s"

lemma exec_inv_run:
  assumes "exec_run m P n s" and "threads_bounded m P" and "wait_totals m P"
  shows "exec_inv m P s"
  using assms(1)
proof induction
  case run_init
  show ?case by (simp add: exec_inv_def queue_ok_def counter_ok_def wait_ok_def exec_init_def passed_def)
next
  case (run_step n s e s')
  then show ?case using assms(2,3) queue_ok_step counter_ok_step wait_ok_step
    unfolding exec_inv_def by blast
qed

text \<open>What must have been passed when \<open>b\<close> can only be launched after \<open>a\<close> was waited for.\<close>

definition ordered :: "nat \<Rightarrow> (nat \<Rightarrow> 'c instr list) \<Rightarrow> nat \<Rightarrow> 'c kernel \<Rightarrow> nat \<Rightarrow> 'c kernel \<Rightarrow> bool" where
  "ordered m P j a i b \<longleftrightarrow> (j = i \<and> before (Launch a) (Launch b) (P i)) \<or>
     (j \<le> m \<and> (\<exists>v n xs ys. P j = xs @ Incr v # ys \<and> Incr v \<notin> set xs \<and> before (Launch a) StreamSync xs \<and>
       before (Wait v n) (Launch b) (P i)))"

lemma begin_after_inputs:
  assumes inv: "exec_inv m P s" and st: "exec_step m P s (Begin b) s'"
    and once: "\<forall>i j. count_list (launches (P i)) b \<noteq> 0 \<longrightarrow> count_list (launches (P i)) b = 1 \<and>
       (count_list (launches (P j)) b \<noteq> 0 \<longrightarrow> i = j)"
    and b: "Launch b \<in> set (P i)" and ord: "ordered m P j a i b"
  shows "a \<in> finished s"
proof -
  obtain i' cs where q: "queue s i' = b # cs" using st by (auto elim: begin_stepE)
  obtain fs where fs: "launches (passed P s i') = fs @ b # cs" "set fs \<subseteq> finished s"
    using inv q unfolding exec_inv_def queue_ok_def by metis
  have p': "Launch b \<in> set (passed P s i')" using fs(1) by (metis in_launches in_set_conv_decomp)
  then have "Launch b \<in> set (P i')" unfolding passed_def by (rule in_set_takeD)
  then have i: "i' = i" and b1: "count_list (P i) (Launch b) = 1"
    using once b by (simp_all only: count_launches[symmetric] count_list_0_iff) blast+
  note p = p'[unfolded i] and fs = fs[unfolded i]
  from ord consider "before (Launch a) (Launch b) (P i)"
    | v n xs ys where "j \<le> m" "P j = xs @ Incr v # ys" "Incr v \<notin> set xs" "before (Launch a) StreamSync xs"
      "before (Wait v n) (Launch b) (P i)"
    unfolding ordered_def by blast
  then show ?thesis
  proof cases
    case 1
    have "before a b (launches (passed P s i))"
      using before_in_take[OF b1 1, of "pc s i"] p unfolding passed_def by (auto dest: before_launches)
    moreover have "b \<notin> set cs"
      using count_passed_le[of P s i "Launch b"] b1 unfolding count_launches fs(1)
      by (simp add: count_list_append count_list_0_iff)
    ultimately show ?thesis using fs by (auto simp: before_cut)
  next
    case 2
    have "Wait v n \<in> set (passed P s i)"
      using before_in_take[OF b1 2(5), of "pc s i"] p unfolding passed_def by (auto dest: before_set)
    then have "count_list (passed P s j) (Incr v) = count_list (P j) (Incr v)"
      using inv 2(1) unfolding exec_inv_def wait_ok_def all_incremented_def by blast
    then have "Incr v \<in> set (take (pc s j) (xs @ Incr v # ys))"
      unfolding passed_def 2(2) by (metis count_list_0_iff in_set_conv_decomp)
    then have "length xs < pc s j" using 2(3) by (auto simp: take_Cons' split: if_splits dest: in_set_takeD)
    then have "before (Launch a) StreamSync (passed P s j)"
      using 2(4) by (simp add: passed_def 2(2) before_append)
    then show ?thesis using inv unfolding exec_inv_def queue_ok_def by blast
  qed
qed


section \<open>Progress\<close>

text \<open>Barriers are entered in one global order.\<close>

fun rank :: "barrier \<Rightarrow> nat" where
  "rank START = 0"
| "rank (SYNC k) = Suc k"

definition rank_ok :: "'c instr list \<Rightarrow> bool" where
  "rank_ok l \<longleftrightarrow> (\<forall>u n v. before (Wait u n) (Incr v) l \<longrightarrow> rank u < rank v)"

text \<open>A state in which all threads have returned and the device is idle.\<close>

definition final :: "nat \<Rightarrow> (nat \<Rightarrow> 'c instr list) \<Rightarrow> 'c exec \<Rightarrow> bool" where
  "final m P s \<longleftrightarrow> (\<forall>i\<le>m. pc s i = length (P i)) \<and> (\<forall>i. queue s i = [])"

definition blocked :: "nat \<Rightarrow> (nat \<Rightarrow> 'c instr list) \<Rightarrow> 'c exec \<Rightarrow> bool" where
  "blocked m P s \<longleftrightarrow> \<not> (\<exists>e s'. exec_step m P s e s')"

lemma blocked_queue: "blocked m P s \<Longrightarrow> queue s i = []"
  unfolding blocked_def by (cases "queue s i"; cases "running s i") (auto intro: exec_step.intros)

text \<open>Where a launch thread can be blocked.\<close>

lemma blocked_at:
  assumes "blocked m P s" and "i \<in> live s" and "pc s i < length (P i)"
  shows "(\<exists>v n. at P s i (Wait v n) \<and> counter s v \<noteq> n) \<or> (\<exists>j. at P s i (Create j) \<and> threads_size \<le> j) \<or>
    (\<exists>j. at P s i (Join j) \<and> pc s j \<noteq> length (P j))"
proof -
  have a: "at P s i (P i ! pc s i)" using assms by (simp add: at_def)
  have no: "\<not> exec_step m P s e s'" for e s' using assms(1) by (simp add: blocked_def)
  note q = blocked_queue[OF assms(1)]
  show ?thesis
  proof (cases "P i ! pc s i")
    case (Launch c)
    then show ?thesis using a no exec_step.launch by metis
  next
    case StreamSync
    then show ?thesis using a no exec_step.stream_sync q by metis
  next
    case (Incr v)
    then show ?thesis using a no exec_step.incr by metis
  next
    case (Wait v n)
    then show ?thesis using a no exec_step.wait by metis
  next
    case (Create j)
    then show ?thesis using a no exec_step.create by (metis not_le)
  next
    case (Join j)
    then show ?thesis using a no exec_step.join by metis
  next
    case DeviceSync
    then show ?thesis using a no exec_step.device_sync q by metis
  qed
qed

definition only_barriers :: "'c instr list \<Rightarrow> bool" where
  "only_barriers l \<longleftrightarrow> (\<forall>j. Create j \<notin> set l \<and> Join j \<notin> set l)"

lemma blocked_launch_threads:
  assumes bl: "blocked m P s" and inv: "exec_inv m P s" and tot: "wait_totals m P"
    and code: "\<forall>i<m. only_barriers (P i) \<and> rank_ok (P i)" and main: "\<forall>v. Incr v \<notin> set (P m)"
    and live: "\<forall>i<m. i \<in> live s" and pcs: "\<forall>i<m. pc s i \<le> length (P i)"
  shows "\<forall>i<m. pc s i = length (P i)"
proof (rule ccontr)
  assume "\<not> ?thesis"
  then obtain i0 where i0: "i0 < m" "pc s i0 < length (P i0)" using pcs by (metis le_neq_implies_less)
  have stuck: "\<exists>v n. at P s i (Wait v n) \<and> counter s v \<noteq> n" if "i < m" "pc s i < length (P i)" for i
    using blocked_at[OF bl, of i] that live code by (metis at_def nth_mem only_barriers_def)
  define W where "W = {r. \<exists>i<m. \<exists>v n. at P s i (Wait v n) \<and> counter s v \<noteq> n \<and> r = rank v}"
  have "W \<noteq> {}" using stuck[OF i0] i0(1) unfolding W_def by blast
  then have least: "(LEAST r. r \<in> W) \<in> W" by (metis LeastI ex_in_conv)
  then obtain i v n where i: "i < m" "at P s i (Wait v n)" "counter s v \<noteq> n" "rank v = (LEAST r. r \<in> W)"
    unfolding W_def by auto
  have "n = (\<Sum>j\<le>m. count_list (P j) (Incr v))"
    using i(2) tot unfolding wait_totals_def at_def by (metis nth_mem)
  then have "\<exists>j\<le>m. count_list (passed P s j) (Incr v) \<noteq> count_list (P j) (Incr v)"
    using i(3) inv unfolding exec_inv_def counter_ok_def by (metis (no_types, lifting) atMost_iff sum.cong)
  then obtain j where j: "j \<le> m" "count_list (passed P s j) (Incr v) \<noteq> count_list (P j) (Incr v)" by blast
  have todo: "Incr v \<in> set (drop (pc s j) (P j))"
    using j(2) count_list_append[of "take (pc s j) (P j)" "drop (pc s j) (P j)" "Incr v"]
    by (simp add: passed_def count_list_0_iff)
  then have "Incr v \<in> set (P j)" by (rule in_set_dropD)
  then have jm: "j < m" using j(1) main by (metis le_neq_implies_less)
  have pcj: "pc s j < length (P j)" using todo by (metis drop_all empty_iff list.set(1) not_less)
  then obtain u k where u: "at P s j (Wait u k)" "counter s u \<noteq> k" using stuck[OF jm] by blast
  have "drop (pc s j) (P j) = Wait u k # drop (Suc (pc s j)) (P j)"
    using u(1) pcj by (simp add: at_def Cons_nth_drop_Suc[symmetric])
  then have "before (Wait u k) (Incr v) (drop (pc s j) (P j))" using todo by auto
  then have "before (Wait u k) (Incr v) (P j)" by (metis append_take_drop_id before_append)
  then have "rank u < rank v" using code jm unfolding rank_ok_def by blast
  moreover have "rank u \<in> W" unfolding W_def using u jm by blast
  ultimately show False using i(4) not_less_Least by metis
qed

text \<open>Every step lowers this measure.\<close>

definition work_left :: "(nat \<Rightarrow> 'c instr list) \<Rightarrow> 'c exec \<Rightarrow> nat \<Rightarrow> nat" where
  "work_left P s i = 3 * (length (P i) - pc s i) + 2 * length (queue s i) - of_bool (running s i)"

lemma work_left_step:
  assumes "exec_step m P s e s'"
  obtains i where "work_left P s' i < work_left P s i" "\<forall>j. j \<noteq> i \<longrightarrow> work_left P s' j = work_left P s j"
    "pc s i < length (P i) \<or> queue s i \<noteq> []"
proof -
  have "\<exists>i. work_left P s' i < work_left P s i \<and> (\<forall>j. j \<noteq> i \<longrightarrow> work_left P s' j = work_left P s j) \<and>
    (pc s i < length (P i) \<or> queue s i \<noteq> [])"
    using assms
  proof (cases rule: exec_step.cases)
    case (launch i c)
    then show ?thesis by (intro exI[of _ i]) (auto simp: work_left_def at_def of_bool_def)
  next
    case (begin_kernel i c cs)
    then show ?thesis by (intro exI[of _ i]) (auto simp: work_left_def)
  next
    case (end_kernel i c cs)
    then show ?thesis by (intro exI[of _ i]) (auto simp: work_left_def)
  next
    case (stream_sync i)
    then show ?thesis by (intro exI[of _ i]) (auto simp: work_left_def at_def)
  next
    case (incr i v)
    then show ?thesis by (intro exI[of _ i]) (auto simp: work_left_def at_def)
  next
    case (wait i v n)
    then show ?thesis by (intro exI[of _ i]) (auto simp: work_left_def at_def)
  next
    case (create i j)
    then show ?thesis by (intro exI[of _ i]) (auto simp: work_left_def at_def)
  next
    case (join i j)
    then show ?thesis by (intro exI[of _ i]) (auto simp: work_left_def at_def)
  next
    case (device_sync i)
    then show ?thesis by (intro exI[of _ i]) (auto simp: work_left_def at_def)
  qed
  then show ?thesis using that by blast
qed

lemma idle_outside:
  assumes "exec_inv m P s" and "threads_bounded m P" and "m < i"
  shows "queue s i = []" and "\<not> pc s i < length (P i)"
proof -
  have "P i = []" using assms(2,3) by (simp add: threads_bounded_def)
  then show "queue s i = []" "\<not> pc s i < length (P i)"
    using assms(1) unfolding exec_inv_def queue_ok_def passed_def by (auto dest: spec[of _ i])
qed

lemma run_bounded:
  assumes "exec_run m P n s" and "threads_bounded m P" and "wait_totals m P"
  shows "n + (\<Sum>i\<le>m. work_left P s i) \<le> (\<Sum>i\<le>m. 3 * length (P i))"
  using assms(1)
proof induction
  case run_init
  show ?case by (auto simp: exec_init_def work_left_def intro!: sum_mono)
next
  case (run_step n s e s')
  note inv = exec_inv_run[OF run_step(1) assms(2,3)]
  obtain i where i: "work_left P s' i < work_left P s i" "\<forall>j. j \<noteq> i \<longrightarrow> work_left P s' j = work_left P s j"
    "pc s i < length (P i) \<or> queue s i \<noteq> []"
    using work_left_step[OF run_step(2)] .
  have "i \<le> m" using i(3) idle_outside[OF inv assms(2), of i] by (cases "i \<le> m") auto
  then have "(\<Sum>j\<le>m. work_left P s' j) < (\<Sum>j\<le>m. work_left P s j)"
    by (intro sum_strict_mono_ex1) (use i in \<open>auto simp: le_less\<close>)
  then show ?case using run_step(3) by linarith
qed

definition live_ok :: "nat \<Rightarrow> (nat \<Rightarrow> 'c instr list) \<Rightarrow> 'c exec \<Rightarrow> bool" where
  "live_ok m P s \<longleftrightarrow> m \<in> live s \<and> (\<forall>i j. Create j \<in> set (passed P s i) \<longrightarrow> j \<in> live s) \<and>
     (\<forall>i. pc s i \<le> length (P i))"

lemma live_ok_run: "exec_run m P n s \<Longrightarrow> live_ok m P s"
proof (induction rule: exec_run.induct)
  case run_init
  show ?case by (simp add: live_ok_def exec_init_def passed_def)
next
  case (run_step n s e s')
  then show ?case unfolding live_ok_def
    by (cases rule: exec_step.cases[OF run_step(2)]) (auto simp: at_def split: if_splits)
qed


section \<open>The generated program\<close>

fun run_calls :: "'c item list \<Rightarrow> 'c list" where
  "run_calls [] = []"
| "run_calls (Run c # l) = c # run_calls l"
| "run_calls (Sync k # l) = run_calls l"

fun syncs :: "'c item list \<Rightarrow> nat list" where
  "syncs [] = []"
| "syncs (Run c # l) = syncs l"
| "syncs (Sync k # l) = k # syncs l"

text \<open>
  The contract between the stream generator and the generated program: synchronisations in
  increasing order in every stream, every call in one place, and a call that reads another one
  behind it in its stream or behind a synchronisation that the other stream reaches after it.
\<close>

definition well_synced :: "('c \<Rightarrow> 'c \<Rightarrow> bool) \<Rightarrow> 'c item list list \<Rightarrow> bool" where
  "well_synced rd S \<longleftrightarrow> (\<forall>l \<in> set S. sorted_wrt (<) (syncs l)) \<and> distinct (concat (map run_calls S)) \<and>
     (\<forall>i<length S. \<forall>j<length S. \<forall>a b. Run b \<in> set (S ! i) \<and> Run a \<in> set (S ! j) \<and> rd b a \<longrightarrow>
        (if i = j then before (Run a) (Run b) (S ! i)
         else \<exists>k. before (Run a) (Sync k) (S ! j) \<and> before (Sync k) (Run b) (S ! i)))"

lemma run_calls_in: "c \<in> set (run_calls l) \<longleftrightarrow> Run c \<in> set l"
  by (induction l rule: run_calls.induct) auto

lemma syncs_in: "k \<in> set (syncs l) \<longleftrightarrow> Sync k \<in> set l"
  by (induction l rule: syncs.induct) auto

abbreviation calls_code :: "'c item list list \<Rightarrow> 'c item list \<Rightarrow> 'c instr list" where
  "calls_code S l \<equiv> concat (map (gen_single_call S) l)"

lemma calls_code_instr:
  "Launch (Ker c) \<in> set (calls_code S l) \<longleftrightarrow> Run c \<in> set l"
  "Launch (Warm i) \<notin> set (calls_code S l)"
  "Incr START \<notin> set (calls_code S l)" "Wait START n \<notin> set (calls_code S l)"
  "Incr (SYNC k) \<in> set (calls_code S l) \<longleftrightarrow> Sync k \<in> set l"
  "Create j \<notin> set (calls_code S l)" "Join j \<notin> set (calls_code S l)"
  by (induction l rule: run_calls.induct) auto

lemma calls_code_wait:
  "Wait (SYNC k) n \<in> set (calls_code S l) \<longleftrightarrow> Sync k \<in> set l \<and> n = sync_var_length S k"
  by (induction l rule: run_calls.induct) auto

lemma launches_calls_code: "launches (calls_code S l) = map Ker (run_calls l)"
  by (induction l rule: run_calls.induct) auto

lemma count_calls_code: "count_list (calls_code S l) (Incr (SYNC k)) = count_list l (Sync k)"
  by (induction l rule: run_calls.induct) auto

lemma calls_code_append: "calls_code S (l @ r) = calls_code S l @ calls_code S r"
  by simp

lemma calls_code_before:
  "before (Run a) (Run b) l \<Longrightarrow> before (Launch (Ker a)) (Launch (Ker b)) (calls_code S l)"
  "before (Sync k) (Run b) l \<Longrightarrow> before (Wait (SYNC k) (sync_var_length S k)) (Launch (Ker b)) (calls_code S l)"
  by (induction l rule: run_calls.induct) (auto simp: calls_code_instr simp del: set_concat)

text \<open>The stream synchronisation that comes with a barrier.\<close>

lemma calls_code_sync:
  assumes "before (Run a) (Sync k) l" and "count_list l (Sync k) = 1"
  obtains xs ys where "calls_code S l = xs @ Incr (SYNC k) # ys" "Incr (SYNC k) \<notin> set xs"
    "before (Launch (Ker a)) StreamSync xs"
proof -
  obtain us vs where l: "l = us @ Sync k # vs" using before_set[OF assms(1)] by (metis split_list)
  then have n: "Sync k \<notin> set us" "Sync k \<notin> set vs"
    using assms(2) by (auto simp: count_list_append count_list_0_iff)
  then have "Run a \<in> set us" using assms(1) before_cut unfolding l by metis
  then show ?thesis
    using that[of "calls_code S us @ [StreamSync]" "Wait (SYNC k) (sync_var_length S k) # calls_code S vs"] n l
    by (simp add: before_append calls_code_instr del: set_concat)
qed

lemma code_simps [simp]:
  "i < length S \<Longrightarrow> thread_code S i = launch_code S i" "thread_code S (length S) = main_code S"
  by (simp_all add: thread_code_def)

lemma code_bounded: "threads_bounded (length S) (thread_code S)"
  by (simp add: threads_bounded_def thread_code_def)

lemma main_code_instr: "Incr v \<notin> set (main_code S)" "Launch c \<notin> set (main_code S)"
  "Wait v n \<in> set (main_code S) \<longleftrightarrow> v = START \<and> n = length S"
  by (auto simp: main_code_def)

lemma launch_code_count:
  "count_list (launch_code S i) (Incr START) = 1"
  "count_list (launch_code S i) (Incr (SYNC k)) = count_list (S ! i) (Sync k)"
  by (simp_all add: launch_code_def count_list_append count_calls_code calls_code_instr count_list_0_iff del: set_concat)

lemma sum_count_concat: "(\<Sum>j<length S. count_list (S ! j) x) = count_list (concat S) x"
proof (induction S)
  case (Cons l S)
  then show ?case by (simp add: sum.lessThan_Suc_shift del: sum.lessThan_Suc)
qed simp

lemma code_counts:
  "(\<Sum>j\<le>length S. count_list (thread_code S j) (Incr v)) = (case v of START \<Rightarrow> length S | SYNC k \<Rightarrow> sync_var_length S k)"
proof -
  have "(\<Sum>j\<le>length S. count_list (thread_code S j) (Incr v)) = (\<Sum>j<length S. count_list (launch_code S j) (Incr v))"
    by (simp add: lessThan_Suc_atMost[symmetric] main_code_instr count_list_0_iff)
  then show ?thesis
    by (cases v) (simp_all add: launch_code_count sync_var_length_def sum_count_concat)
qed

lemma code_wait_totals: "wait_totals (length S) (thread_code S)"
  unfolding wait_totals_def code_counts
proof (intro allI impI)
  fix i v n assume "Wait v n \<in> set (thread_code S i)"
  then show "n = (case v of START \<Rightarrow> length S | SYNC k \<Rightarrow> sync_var_length S k)"
    by (cases v) (auto simp: thread_code_def launch_code_def main_code_instr calls_code_instr calls_code_wait
      simp del: set_concat split: if_splits)
qed

lemma launches_code:
  "launches (thread_code S i) = (if i < length S then Warm i # map Ker (run_calls (S ! i)) else [])"
proof (cases "i = length S")
  case True
  have "launches (main_code S) = []" by (metis in_launches main_code_instr(2) set_empty ex_in_conv)
  then show ?thesis using True by simp
qed (simp add: thread_code_def launch_code_def launches_calls_code)

lemma concat_position:
  assumes "distinct (concat xss)" and "i < length xss" and "j < length xss" and "x \<in> set (xss ! i)" and "x \<in> set (xss ! j)"
  shows "i = j"
  using assms by (metis distinct_position in_set_conv_nth)

lemma distinct_nth_concat: "distinct (concat xss) \<Longrightarrow> i < length xss \<Longrightarrow> distinct (xss ! i)"
  by (metis distinct_concat_iff nth_mem)

lemma distinct_count_one: "distinct xs \<Longrightarrow> x \<in> set xs \<Longrightarrow> count_list xs x = 1"
  by (induction xs) auto

lemma code_once:
  assumes "distinct (concat (map run_calls S))"
  shows "\<forall>i j. count_list (launches (thread_code S i)) c \<noteq> 0 \<longrightarrow> count_list (launches (thread_code S i)) c = 1 \<and>
    (count_list (launches (thread_code S j)) c \<noteq> 0 \<longrightarrow> i = j)"
proof (intro allI impI)
  fix i j assume "count_list (launches (thread_code S i)) c \<noteq> 0"
  then have i: "c \<in> set (launches (thread_code S i))" "i < length S"
    by (metis count_list_0_iff) (metis \<open>count_list (launches (thread_code S i)) c \<noteq> 0\<close> count_list.simps(1) launches_code)
  have "distinct (run_calls (S ! i))" using distinct_nth_concat[OF assms, of i] i(2) by simp
  then have d: "distinct (launches (thread_code S i))"
    unfolding launches_code using i(2) by (auto simp: distinct_map inj_on_def)
  have "i = j" if "c \<in> set (launches (thread_code S j))"
  proof -
    have j: "j < length S" using that by (auto simp: launches_code split: if_splits)
    show ?thesis using that i j concat_position[OF assms, of i j] unfolding launches_code by auto
  qed
  then show "count_list (launches (thread_code S i)) c = 1 \<and> (count_list (launches (thread_code S j)) c \<noteq> 0 \<longrightarrow> i = j)"
    using distinct_count_one[OF d i(1)] by (metis count_list_0_iff)
qed

lemma sync_once: "sorted_wrt (<) (syncs l) \<Longrightarrow> Sync k \<in> set l \<Longrightarrow> count_list l (Sync k) = 1"
  by (induction l rule: syncs.induct) (auto simp: syncs_in count_list_0_iff)

lemma code_ordered:
  assumes ws: "well_synced rd S" and ij: "i < length S" "j < length S"
    and b: "Run b \<in> set (S ! i)" and a: "Run a \<in> set (S ! j)" and rd: "rd b a"
  shows "ordered (length S) (thread_code S) j (Ker a) i (Ker b)"
proof (cases "i = j")
  case True
  then have "before (Run a) (Run b) (S ! i)" using assms unfolding well_synced_def by metis
  from calls_code_before(1)[OF this, of S] show ?thesis
    using True ij by (simp add: ordered_def launch_code_def before_append)
next
  case False
  then obtain k where k: "before (Run a) (Sync k) (S ! j)" "before (Sync k) (Run b) (S ! i)"
    using assms unfolding well_synced_def by metis
  have "sorted_wrt (<) (syncs (S ! j))" using ws ij(2) unfolding well_synced_def by simp
  then have "count_list (S ! j) (Sync k) = 1" using sync_once before_set[OF k(1)] by metis
  from calls_code_sync[OF k(1) this, of S] obtain xs ys where
    c: "calls_code S (S ! j) = xs @ Incr (SYNC k) # ys" "Incr (SYNC k) \<notin> set xs" "before (Launch (Ker a)) StreamSync xs" .
  let ?pre = "[Launch (Warm j), StreamSync, Incr START, Wait START (length S)]"
  have "thread_code S j = (?pre @ xs) @ Incr (SYNC k) # (ys @ [StreamSync])"
    using ij(2) c(1) by (simp add: launch_code_def)
  moreover have "Incr (SYNC k) \<notin> set (?pre @ xs)" "before (Launch (Ker a)) StreamSync (?pre @ xs)"
    using c(2,3) by (simp_all add: before_append)
  moreover have "before (Wait (SYNC k) (sync_var_length S k)) (Launch (Ker b)) (thread_code S i)"
    using calls_code_before(2)[OF k(2), of S] ij(1) by (simp add: launch_code_def before_append)
  ultimately show ?thesis unfolding ordered_def using ij(2) by (metis less_imp_le_nat)
qed

theorem race_free:
  assumes ws: "well_synced rd S" and "exec_run (length S) (thread_code S) n s" and "exec_step (length S) (thread_code S) s (Begin (Ker b)) s'"
    and a: "Run a \<in> set (concat S)" and "rd b a"
  shows "Ker a \<in> finished s"
proof -
  note inv = exec_inv_run[OF assms(2) code_bounded code_wait_totals]
  obtain i q cs where q: "queue s i = Ker b # cs" using assms(3) by (auto elim: begin_stepE)
  obtain fs where "launches (passed (thread_code S) s i) = fs @ Ker b # cs"
    using inv q unfolding exec_inv_def queue_ok_def by metis
  then have "Launch (Ker b) \<in> set (passed (thread_code S) s i)" by (metis in_launches in_set_conv_decomp)
  then have b: "Launch (Ker b) \<in> set (thread_code S i)" unfolding passed_def by (rule in_set_takeD)
  then have i: "i < length S" "Run b \<in> set (S ! i)"
    unfolding in_launches[symmetric] by (auto simp: launches_code run_calls_in split: if_splits)
  obtain j where j: "j < length S" "Run a \<in> set (S ! j)" using a by (auto simp: in_set_conv_nth[of _ S])
  have once: "distinct (concat (map run_calls S))" using ws by (simp add: well_synced_def)
  show ?thesis
    by (rule begin_after_inputs[OF inv assms(3) code_once[OF once] b code_ordered[OF ws i(1) j(1) i(2) j(2) assms(5)]])
qed

lemma rank_ok_code: "sorted_wrt (<) (syncs l) \<Longrightarrow> rank_ok (calls_code S l)"
proof (induction l rule: run_calls.induct)
  case (3 k l)
  have lt: "rank (SYNC k) < rank v" if v: "Incr v \<in> set (calls_code S l)" for v
  proof (cases v)
    case START
    then show ?thesis using v calls_code_instr(3)[of S l] by blast
  next
    case (SYNC j)
    then have "j \<in> set (syncs l)" using v calls_code_instr(5)[of j S l] by (simp only: syncs_in)
    then show ?thesis using 3(2) SYNC by simp
  qed
  show ?case unfolding rank_ok_def
  proof (intro allI impI)
    fix u n v assume "before (Wait u n) (Incr v) (calls_code S (Sync k # l))"
    then have "before (Wait u n) (Incr v) (calls_code S l) \<or> u = SYNC k \<and> Incr v \<in> set (calls_code S l)"
      by (simp del: set_concat) blast
    then show "rank u < rank v" using 3 lt by (auto simp: rank_ok_def simp del: set_concat)
  qed
qed (simp_all add: rank_ok_def)

lemma launch_code_ok:
  assumes "sorted_wrt (<) (syncs (S ! i))"
  shows "only_barriers (launch_code S i)" "rank_ok (launch_code S i)"
proof -
  show "only_barriers (launch_code S i)"
    by (auto simp: only_barriers_def launch_code_def calls_code_instr simp del: set_concat)
  show "rank_ok (launch_code S i)" unfolding rank_ok_def
  proof (intro allI impI)
    fix u n v assume "before (Wait u n) (Incr v) (launch_code S i)"
    then have "before (Wait u n) (Incr v) (calls_code S (S ! i)) \<or> u = START \<and> Incr v \<in> set (calls_code S (S ! i))"
      by (auto simp: launch_code_def before_append simp del: set_concat dest: before_set)
    then show "rank u < rank v"
      using rank_ok_code[OF assms, of S] calls_code_instr(3)[of S "S ! i"] unfolding rank_ok_def
      by (metis barrier.exhaust rank.simps zero_less_Suc)
  qed
qed

lemma main_code_nth:
  assumes "k < length (main_code S)"
  shows "main_code S ! k = Create j \<longleftrightarrow> k < length S \<and> j = k"
    and "main_code S ! k = Join j \<Longrightarrow> j < length S"
proof -
  show "main_code S ! k = Create j \<longleftrightarrow> k < length S \<and> j = k"
    using assms by (auto simp: main_code_def nth_append nth_Cons')
  show "main_code S ! k = Join j \<Longrightarrow> j < length S"
    using assms by (auto simp: main_code_def nth_append nth_Cons' split: if_splits)
qed

lemma main_creates_all:
  assumes "blocked (length S) (thread_code S) s" and "live_ok (length S) (thread_code S) s" and "length S \<le> threads_size"
  shows "\<forall>j<length S. j \<in> live s"
proof -
  have "\<not> pc s (length S) < length S"
  proof
    assume lt: "pc s (length S) < length S"
    then have "pc s (length S) < length (main_code S)" by (simp add: main_code_def)
    then have "at (thread_code S) s (length S) (Create (pc s (length S)))"
      using assms(2) lt by (simp add: at_def live_ok_def main_code_nth)
    then show False using assms(1,3) lt exec_step.create by (metis blocked_def less_le_trans)
  qed
  then have "Create j \<in> set (passed (thread_code S) s (length S))" if "j < length S" for j
    using that by (auto simp: passed_def main_code_def)
  then show ?thesis using assms(2) unfolding live_ok_def by blast
qed

lemma main_ends:
  assumes bl: "blocked (length S) (thread_code S) s" and lok: "live_ok (length S) (thread_code S) s" and size: "length S \<le> threads_size"
    and start: "counter s START = length S" and launch_done: "\<forall>i<length S. pc s i = length (thread_code S i)"
  shows "pc s (length S) = length (thread_code S (length S))"
proof (rule ccontr)
  let ?k = "pc s (length S)"
  assume "?k \<noteq> length (thread_code S (length S))"
  then have lt: "?k < length (main_code S)" using lok unfolding live_ok_def
    by (metis code_simps(2) le_neq_implies_less)
  have in_main: "a \<in> set (main_code S)" "main_code S ! ?k = a" if "at (thread_code S) s (length S) a" for a
    using that nth_mem[OF lt] by (auto simp: at_def)
  have "length S \<in> live s" using lok by (simp add: live_ok_def)
  from blocked_at[OF bl this] lt
  consider v n where "at (thread_code S) s (length S) (Wait v n)" "counter s v \<noteq> n"
    | j where "at (thread_code S) s (length S) (Create j)" "threads_size \<le> j"
    | j where "at (thread_code S) s (length S) (Join j)" "pc s j \<noteq> length (thread_code S j)" by auto
  then show False
  proof cases
    case 1
    then show False using in_main(1)[OF 1(1)] start by (simp add: main_code_instr)
  next
    case 2
    then show False using in_main(2)[OF 2(1)] size main_code_nth(1)[OF lt, of j] by simp
  next
    case 3
    then show False using in_main(2)[OF 3(1)] launch_done main_code_nth(2)[OF lt, of j] by simp
  qed
qed

theorem no_deadlock:
  assumes ws: "well_synced rd S" and size: "length S \<le> threads_size"
    and r: "exec_run (length S) (thread_code S) n s" and bl: "blocked (length S) (thread_code S) s"
  shows "final (length S) (thread_code S) s \<and> (\<forall>c. Run c \<in> set (concat S) \<longrightarrow> Ker c \<in> finished s)"
proof -
  note inv = exec_inv_run[OF r code_bounded code_wait_totals] and lok = live_ok_run[OF r]
  let ?m = "length S"
  have "\<forall>i<?m. pc s i = length (thread_code S i)"
  proof (rule blocked_launch_threads[OF bl inv code_wait_totals])
    show "\<forall>i<?m. only_barriers (thread_code S i) \<and> rank_ok (thread_code S i)"
      using ws launch_code_ok unfolding well_synced_def by (metis code_simps(1) nth_mem)
    show "\<forall>v. Incr v \<notin> set (thread_code S ?m)" by (simp add: main_code_instr)
    show "\<forall>i<?m. i \<in> live s" by (rule main_creates_all[OF bl lok size])
    show "\<forall>i<?m. pc s i \<le> length (thread_code S i)" using lok unfolding live_ok_def by blast
  qed
  then have launch_done: "pc s i = length (thread_code S i)" if "i < ?m" for i using that by blast
  have "counter s START = ?m"
  proof -
    have "count_list (passed (thread_code S) s j) (Incr START) = count_list (thread_code S j) (Incr START)" if "j \<le> ?m" for j
      using that launch_done[of j] count_passed_le[of "thread_code S" s j "Incr START"]
      by (cases "j = ?m") (auto simp: passed_def main_code_instr)
    then show ?thesis using inv code_counts[of S START] unfolding exec_inv_def counter_ok_def by simp
  qed
  then have "pc s ?m = length (thread_code S ?m)"
    by (intro main_ends[OF bl lok size]) (use launch_done in blast)+
  then have "final ?m (thread_code S) s"
    unfolding final_def using launch_done blocked_queue[OF bl] by (metis le_neq_implies_less)
  moreover have "Ker c \<in> finished s" if c: "Run c \<in> set (concat S)" for c
  proof -
    obtain i where i: "i < ?m" "Run c \<in> set (S ! i)" using c by (auto simp: in_set_conv_nth[of _ S])
    then have "Ker c \<in> set (launches (passed (thread_code S) s i))"
      using launch_done[OF i(1)] by (simp add: passed_def run_calls_in del: code_simps add: launches_code)
    then show ?thesis using inv blocked_queue[OF bl] unfolding exec_inv_def queue_ok_def
      by (metis append_Nil2 subsetD)
  qed
  ultimately show ?thesis by blast
qed

theorem run_ends: "exec_run (length S) (thread_code S) n s \<Longrightarrow> n \<le> (\<Sum>i\<le>length S. 3 * length (thread_code S i))"
  using run_bounded[OF _ code_bounded code_wait_totals] by (metis add_leE)

text \<open>
  The driver's writes to \<^verbatim>\<open>threads[8]\<close>. A thread that creates a thread is the main thread, which reaches
  its \<open>k\<close>-th creation after the \<open>k\<close> before it, so that a write outside the array is reached exactly with
  more streams than the array has entries.
\<close>

lemma create_main:
  assumes "at (thread_code S) s i (Create j)"
  shows "i = length S \<and> j < length S"
proof (cases "i < length S")
  case True
  then show ?thesis using assms nth_mem[of "pc s i" "launch_code S i"]
    by (auto simp: at_def launch_code_def calls_code_instr simp del: set_concat)
next
  case False
  then show ?thesis using assms main_code_nth(1)[of "pc s i" S j]
    by (auto simp: at_def thread_code_def split: if_splits)
qed

lemma main_creates:
  assumes "k \<le> threads_size" and "k \<le> length S"
  shows "\<exists>s. exec_run (length S) (thread_code S) k s \<and> pc s (length S) = k \<and> length S \<in> live s"
  using assms
proof (induction k)
  case 0
  have "exec_run (length S) (thread_code S) 0 (exec_init (length S))" by (rule exec_run.run_init)
  then show ?case by (intro exI conjI) (assumption, simp_all add: exec_init_def)
next
  case (Suc k)
  then obtain s where s: "exec_run (length S) (thread_code S) k s" "pc s (length S) = k" "length S \<in> live s" by auto
  have "at (thread_code S) s (length S) (Create k)"
    using s(2,3) Suc.prems(2) main_code_nth(1)[of k S k] by (simp add: at_def) (simp add: main_code_def)
  then have "exec_step (length S) (thread_code S) s Tau ((advance (length S) s)\<lparr>live := insert k (live s)\<rparr>)"
    by (rule exec_step.create) (use Suc.prems(1) in simp)
  from exec_run.run_step[OF s(1) this] show ?case by (intro exI conjI) (assumption, simp_all add: s)
qed

theorem threads_overflow:
  "(\<exists>n s i j. exec_run (length S) (thread_code S) n s \<and> at (thread_code S) s i (Create j) \<and> threads_size \<le> j) \<longleftrightarrow>
    threads_size < length S"
proof
  assume "threads_size < length S"
  then obtain s where s: "exec_run (length S) (thread_code S) threads_size s" "pc s (length S) = threads_size" "length S \<in> live s"
    using main_creates[of threads_size S] by auto
  have "at (thread_code S) s (length S) (Create threads_size)"
    using s(2,3) \<open>threads_size < length S\<close> main_code_nth(1)[of threads_size S threads_size]
    by (simp add: at_def) (simp add: main_code_def)
  with s(1) show "\<exists>n s i j. exec_run (length S) (thread_code S) n s \<and> at (thread_code S) s i (Create j) \<and> threads_size \<le> j"
    by blast
qed (use create_main in fastforce)

end
