(* ===== verification/Stream_Schedule.thy ===== *)
theory Stream_Schedule
  imports Launch_Threads Samples "HOL-Library.Multiset"
begin

text \<open>
  From the levels of the stream solver to the generated program: the streams that
  \<^verbatim>\<open>generate_codengen_streamlist\<close> returns meet the contract \<open>well_synced\<close> of the launch threads, and no
  synchronisation that is left could be dropped. The two sides meet in the locale \<open>stream_generator\<close>.
\<close>

section \<open>The rendered streams are well synchronised\<close>

definition levels_ok :: "'c list list \<Rightarrow> 'c io_graph \<Rightarrow> bool" where
  "levels_ok ls graph \<longleftrightarrow> distinct (concat ls) \<and> set (concat ls) \<subseteq> fst ` set graph \<and>
     levels_from (\<lambda>n. set (node_inputs graph n)) {} ls"

lemma reads_node_inputs: "reads graph b a \<longleftrightarrow> a \<in> set (node_inputs graph b)"
  by (cases "map_of graph b") (auto simp: reads_def node_inputs_def)

lemma syncs_append: "syncs (l @ r) = syncs l @ syncs r"
  by (induction l rule: syncs.induct) auto

lemma run_calls_append: "run_calls (l @ r) = run_calls l @ run_calls r"
  by (induction l rule: run_calls.induct) auto

lemma syncs_render: "sorted_wrt (<) (syncs (render K i step ls)) \<and> (\<forall>k \<in> set (syncs (render K i step ls)). step \<le> k)"
proof (induction ls arbitrary: step)
  case (Cons l ls)
  have "\<forall>k \<in> set (syncs (render K i (Suc step) ls)). step < k" using Cons[of "Suc step"] by (auto simp: Suc_le_eq)
  then show ?case using Cons[of "Suc step"] by (auto simp: syncs_append less_imp_le)
qed simp

lemma run_calls_render: "run_calls (render K i step ls) = map (\<lambda>l. l ! i) (filter (\<lambda>l. i < length l) ls)"
  by (induction ls arbitrary: step) (auto simp: run_calls_append)

lemma render_split: "render K i 0 ls = render K i 0 (take t ls) @ render K i (min (length ls) t) (drop t ls)"
  using render_append[of K i 0 "take t ls" "drop t ls"] by simp

lemma render_run_at: "s < length ls \<Longrightarrow> i < length (ls ! s) \<Longrightarrow> Run (ls ! s ! i) \<in> set (render K i step ls)"
  unfolding run_in_render by (rule bexI[of _ "ls ! s"]) auto

lemma render_before:
  assumes "s < t" and "t < length ls" and "i < length (ls ! s)"
  shows "i < length (ls ! t) \<Longrightarrow> before (Run (ls ! s ! i)) (Run (ls ! t ! i)) (render K i 0 ls)"
    and "t \<in> K \<Longrightarrow> before (Run (ls ! s ! i)) (Sync t) (render K i 0 ls)"
proof -
  have a: "Run (ls ! s ! i) \<in> set (render K i 0 (take t ls))"
    using render_run_at[of s "take t ls" i K 0] assms by simp
  have b: "render K i 0 ls = render K i 0 (take t ls) @ render K i t (drop t ls)"
    using render_split[of K i ls t] assms(2) by simp
  show "before (Run (ls ! s ! i)) (Run (ls ! t ! i)) (render K i 0 ls)" if "i < length (ls ! t)"
    using a render_run_at[of 0 "drop t ls" i K t] that assms(2) unfolding b before_append by simp
  show "before (Run (ls ! s ! i)) (Sync t) (render K i 0 ls)" if "t \<in> K"
    using a that assms unfolding b before_append by (simp add: sync_in_render)
qed

lemma render_sync_before:
  assumes "0 < k" and "k \<le> t" and "t < length ls" and "k \<in> K" and "i < length (ls ! t)"
  shows "before (Sync k) (Run (ls ! t ! i)) (render K i 0 ls)"
proof (cases "k = t")
  case True
  have "render K i 0 ls = (render K i 0 (take t ls) @ [Sync t]) @ Run (ls ! t ! i) # render K i (Suc t) (drop (Suc t) ls)"
    using render_cut[of t ls K i] assms True by simp
  then show ?thesis using True by (simp only: before_append) simp
next
  case False
  have b: "render K i 0 ls = render K i 0 (take t ls) @ render K i t (drop t ls)"
    using render_split[of K i ls t] assms(3) by simp
  show ?thesis using False assms render_run_at[of 0 "drop t ls" i K t]
    unfolding b before_append by (simp add: sync_in_render)
qed

text \<open>Every call is in exactly one stream.\<close>

lemma level_mset: "(\<Sum>i<m. mset (if i < length l then [l ! i] else [])) = mset (take m l)"
  by (induction m) (auto simp: take_Suc_conv_app_nth)

lemma run_calls_render_Cons:
  "run_calls (render K i step (l # ls)) = (if i < length l then [l ! i] else []) @ run_calls (render K i (Suc step) ls)"
  by (simp add: run_calls_render)

lemma streams_mset:
  "\<forall>l \<in> set ls. length l \<le> m \<Longrightarrow> (\<Sum>i<m. mset (run_calls (render K i step ls))) = mset (concat ls)"
proof (induction ls arbitrary: step)
  case (Cons l ls)
  then show ?case
    unfolding run_calls_render_Cons mset_append sum.distrib level_mset by simp
qed simp

lemma mset_concat_map_upt: "mset (concat (map f [0..<m])) = (\<Sum>i<m. mset (f i))"
  by (induction m) simp_all

lemma calls_streams: "mset (concat (map run_calls (streams K (max_stream_number ls) ls))) = mset (concat ls)"
  using streams_mset[of ls "max_stream_number ls" K 0] max_stream_number_bounds(2)[of _ ls]
  by (simp add: streams_def mset_concat_map_upt comp_def)

lemma level_order:
  assumes "levels_ok ls graph" and "s < length ls" and "t < length ls" and "p < length (ls ! s)" and "q < length (ls ! t)"
    and "reads graph (ls ! t ! q) (ls ! s ! p)"
  shows "s < t"
proof -
  have "levels_from (\<lambda>n. set (node_inputs graph n)) {} ls" using assms(1) by (simp add: levels_ok_def)
  from levels_from_nth[OF this assms(3) nth_mem[OF assms(5)]]
  have "ls ! s ! p \<in> set (concat (take t ls))" using assms(6) by (auto simp: reads_node_inputs)
  then obtain l where "l \<in> set (take t ls)" "ls ! s ! p \<in> set l" by auto
  then obtain s' p' where "s' < t" "p' < length (ls ! s')" "ls ! s ! p = ls ! s' ! p'"
    using assms(3) by (auto simp: in_set_conv_nth)
  then show ?thesis using distinct_position[of ls s s' p p'] assms by (auto simp: levels_ok_def)
qed

text \<open>Between a call and a call of another stream that reads it, a synchronisation is left.\<close>

lemma kept_between:
  assumes "s < t" and "t < length ls" and "p < length (ls ! s)" and "q < length (ls ! t)" and "p \<noteq> q"
    and "reads graph (ls ! t ! q) (ls ! s ! p)"
  shows "\<exists>k \<in> kept graph ls (length ls). s < k \<and> k \<le> t"
proof (rule ccontr)
  assume no: "\<not> ?thesis"
  then have "ls ! s ! p \<in> runs_before (kept graph ls (length ls)) p t ls"
    unfolding runs_before_def mem_Collect_eq using assms(1,3) less_imp_le by blast
  then have "unsynced graph ls (kept graph ls (length ls)) t"
    unfolding unsynced_def using assms(4-6) by blast
  then have "t \<in> kept graph ls (length ls)" using kept_iff[of t "length ls" graph ls] assms(1,2) by simp
  then show False using no assms(1) by auto
qed

lemma streams_well_synced:
  assumes ok: "levels_ok ls graph"
  shows "well_synced (reads graph) (streams (kept graph ls (length ls)) (max_stream_number ls) ls)"
    (is "well_synced _ ?S")
  unfolding well_synced_def
proof (intro conjI allI impI)
  let ?K = "kept graph ls (length ls)"
  have nth: "?S ! i = render ?K i 0 ls" if "i < length ?S" for i using that by (simp add: streams_def)
  show "\<forall>l \<in> set ?S. sorted_wrt (<) (syncs l)" using syncs_render by (auto simp: streams_def)
  show "distinct (concat (map run_calls ?S))"
    using ok mset_eq_imp_distinct_iff[OF calls_streams] unfolding levels_ok_def by blast
  fix q p a b
  assume q: "q < length ?S" and p: "p < length ?S"
    and "Run b \<in> set (?S ! q) \<and> Run a \<in> set (?S ! p) \<and> reads graph b a"
  then have b: "Run b \<in> set (render ?K q 0 ls)" and a: "Run a \<in> set (render ?K p 0 ls)" and rd: "reads graph b a"
    using nth by auto
  obtain t where t: "t < length ls" "q < length (ls ! t)" "ls ! t ! q = b"
    using b unfolding run_in_render by (auto simp: in_set_conv_nth)
  obtain s where s: "s < length ls" "p < length (ls ! s)" "ls ! s ! p = a"
    using a unfolding run_in_render by (auto simp: in_set_conv_nth)
  have st: "s < t" using level_order[OF ok s(1) t(1) s(2) t(2)] rd s(3) t(3) by simp
  show "if q = p then before (Run a) (Run b) (?S ! q)
    else \<exists>k. before (Run a) (Sync k) (?S ! p) \<and> before (Sync k) (Run b) (?S ! q)"
  proof (cases "q = p")
    case True
    then show ?thesis using render_before(1)[OF st t(1) s(2), of ?K] s(3) t nth[OF q] by auto
  next
    case False
    then obtain k where k: "k \<in> ?K" "s < k" "k \<le> t"
      using kept_between[OF st t(1) s(2) t(2), of graph] rd s(3) t(3) by auto
    have "before (Run a) (Sync k) (?S ! p)"
      using render_before(2)[OF k(2) _ s(2) k(1)] k(3) t(1) s(3) nth[OF p] by simp
    moreover have "before (Sync k) (Run b) (?S ! q)"
      using render_sync_before[OF _ k(3) t(1) k(1) t(2)] k(2) t(3) nth[OF q] by simp
    ultimately show ?thesis using False by auto
  qed
qed


section \<open>The generator and the program it is for\<close>

text \<open>What the code generator relies on: streams that hold every call once and are well synchronised.\<close>

locale stream_generator =
  fixes ok :: "'c list list \<Rightarrow> 'c io_graph \<Rightarrow> bool"
    and gen :: "'c list list \<Rightarrow> 'c io_graph \<Rightarrow> 'c item list list res"
  assumes gen_spec: "ok ls graph \<Longrightarrow> \<exists>S. gen ls graph = Inr S \<and> well_synced (reads graph) S \<and>
      mset (concat (map run_calls S)) = mset (concat ls)"
begin

lemma gen_calls:
  assumes "ok ls graph" and "gen ls graph = Inr S"
  shows "Run c \<in> set (concat S) \<longleftrightarrow> c \<in> set (concat ls)"
proof -
  have "set (concat (map run_calls S)) = set (concat ls)"
    using gen_spec[OF assms(1)] assms(2) by (metis mset_eq_setD sum.inject(2))
  moreover have "Run c \<in> set (concat S) \<longleftrightarrow> c \<in> set (concat (map run_calls S))" by (simp add: run_calls_in)
  ultimately show ?thesis by (simp only:)
qed

lemma gen_race_free:
  assumes "ok ls graph" and "gen ls graph = Inr S" and "exec_run (length S) (thread_code S) n s"
    and "exec_step (length S) (thread_code S) s (Begin (Ker b)) s'" and "reads graph b a" and "a \<in> set (concat ls)"
  shows "Ker a \<in> finished s"
proof -
  have ws: "well_synced (reads graph) S" using gen_spec[OF assms(1)] assms(2) by auto
  have a: "Run a \<in> set (concat S)" unfolding gen_calls[OF assms(1,2)] by (rule assms(6))
  show ?thesis by (rule race_free[OF ws assms(3,4) a assms(5)])
qed

lemma gen_completes:
  assumes "ok ls graph" and "gen ls graph = Inr S" and "length S \<le> threads_size"
    and "exec_run (length S) (thread_code S) n s" and "blocked (length S) (thread_code S) s"
  shows "final (length S) (thread_code S) s \<and> (\<forall>c \<in> set (concat ls). Ker c \<in> finished s)"
proof -
  have ws: "well_synced (reads graph) S" using gen_spec[OF assms(1)] assms(2) by auto
  show ?thesis using no_deadlock[OF ws assms(3-5)] unfolding gen_calls[OF assms(1,2)] by blast
qed

end

interpretation codegen_streams: stream_generator levels_ok generate_codengen_streamlist
proof
  fix ls :: "'a list list" and graph
  assume ok: "levels_ok ls graph"
  then have "generate_codengen_streamlist ls graph = Inr (streams (kept graph ls (length ls)) (max_stream_number ls) ls)"
    by (intro generate_codengen_streamlist_streams) (simp_all add: levels_ok_def)
  then show "\<exists>S. generate_codengen_streamlist ls graph = Inr S \<and> well_synced (reads graph) S \<and>
      mset (concat (map run_calls S)) = mset (concat ls)"
    using streams_well_synced[OF ok] calls_streams by blast
qed


section \<open>No synchronisation that is left is redundant\<close>

lemma before_cut_left: "x \<notin> set us \<Longrightarrow> x \<notin> set vs \<Longrightarrow> before x y (us @ x # vs) \<longleftrightarrow> y \<in> set vs"
  by (auto simp: before_append dest: before_set)

lemma render_sync_position:
  assumes dist: "distinct (concat ls)" and k: "0 < k" "k < length ls" "k \<in> K"
    and s: "s < length ls" "i < length (ls ! s)"
  shows "before (Run (ls ! s ! i)) (Sync k) (render K i 0 ls) \<Longrightarrow> s < k"
    and "before (Sync k) (Run (ls ! s ! i)) (render K i 0 ls) \<Longrightarrow> k \<le> s"
proof -
  let ?A = "render K i 0 (take k ls)" and ?R = "(if i < length (ls ! k) then [Run (ls ! k ! i)] else []) @ render K i (Suc k) (drop (Suc k) ls)"
  have cut: "render K i 0 ls = ?A @ Sync k # ?R" by (rule render_cut[OF k])
  have notin: "Sync k \<notin> set ?A" "Sync k \<notin> set ?R" by (auto simp: sync_in_render)
  show "s < k" if "before (Run (ls ! s ! i)) (Sync k) (render K i 0 ls)"
  proof -
    have "Run (ls ! s ! i) \<in> set ?A" using that notin unfolding cut by (simp add: before_cut)
    then obtain t where "t < k" "t < length ls" "i < length (ls ! t)" "ls ! t ! i = ls ! s ! i"
      unfolding run_in_render by (auto simp: in_set_conv_nth)
    then show ?thesis using distinct_position[OF dist, of t s i i] s by simp
  qed
  show "k \<le> s" if "before (Sync k) (Run (ls ! s ! i)) (render K i 0 ls)"
  proof -
    have "Run (ls ! s ! i) \<in> set ?R" using that unfolding cut before_cut_left[OF notin] .
    then consider "i < length (ls ! k)" "ls ! k ! i = ls ! s ! i"
      | t where "Suc k + t < length ls" "i < length (ls ! (Suc k + t))" "ls ! (Suc k + t) ! i = ls ! s ! i"
      by (auto simp: run_in_render in_set_conv_nth[of _ "drop (Suc k) ls"] less_diff_conv add.commute split: if_splits)
    then show ?thesis
    proof cases
      case 1
      then show ?thesis using distinct_position[OF dist, of k s i i] s k by simp
    next
      case 2
      then show ?thesis using distinct_position[OF dist, of "Suc k + t" s i i] s by simp
    qed
  qed
qed

lemma remove_streams: "map (remove1 (Sync k)) (streams K m ls) = streams (K - {k}) m ls"
  by (simp add: streams_def render_remove)

lemma dropping_breaks:
  assumes dist: "distinct (concat ls)" and k: "0 < k" "k < length ls" "k \<in> K" and un: "unsynced graph ls K k"
  shows "\<not> well_synced (reads graph) (streams (K - {k}) (max_stream_number ls) ls)"
proof
  let ?S = "streams (K - {k}) (max_stream_number ls) ls"
  assume ws: "well_synced (reads graph) ?S"
  obtain q p s where q: "q < length (ls ! k)" and p: "p \<noteq> q" "s < k" "p < length (ls ! s)"
    and free: "\<forall>j. s < j \<and> j < k \<longrightarrow> j \<notin> K" and rd: "reads graph (ls ! k ! q) (ls ! s ! p)"
    using un unfolding unsynced_def runs_before_def by blast
  have s: "s < length ls" using p(2) k(2) by simp
  have m: "q < length ?S" "p < length ?S"
    using max_stream_number_bounds(2)[of "ls ! k" ls] max_stream_number_bounds(2)[of "ls ! s" ls] q p s k
    by (auto simp: streams_def)
  then have nth: "?S ! q = render (K - {k}) q 0 ls" "?S ! p = render (K - {k}) p 0 ls" by (auto simp: streams_def)
  have "Run (ls ! k ! q) \<in> set (?S ! q)" "Run (ls ! s ! p) \<in> set (?S ! p)"
    unfolding nth using render_run_at[OF k(2) q] render_run_at[OF s p(3)] by blast+
  then obtain j where j: "before (Run (ls ! s ! p)) (Sync j) (render (K - {k}) p 0 ls)"
      "before (Sync j) (Run (ls ! k ! q)) (render (K - {k}) q 0 ls)"
    using ws m p(1) rd unfolding well_synced_def nth[symmetric] by metis
  then have "Sync j \<in> set (render (K - {k}) p 0 ls)" by (blast dest: before_set)
  then have jK: "0 < j" "j < length ls" "j \<in> K - {k}" by (auto simp: sync_in_render)
  have "s < j" "j \<le> k"
    using render_sync_position(1)[OF dist jK s p(3) j(1)] render_sync_position(2)[OF dist jK k(2) q j(2)] .
  then show False using free jK(3) by (metis DiffD1 DiffD2 le_neq_implies_less singletonI)
qed


section \<open>Properties\<close>

lemma level_inputs_listed:
  "levels_from inp S ls \<Longrightarrow> n \<in> set (concat ls) \<Longrightarrow> inp n \<subseteq> S \<union> set (concat ls)"
  by (induction ls arbitrary: S) fastforce+

lemma scheduled:
  assumes "sources_listed (stream_call_list e)" and "\<forall>n \<in> set (stream_call_list e). isStencilNode n"
    and "length (stream_call_list e) \<le> limit"
  obtains g sl where "stream_build_graph e = Inr g" "solve limit e = Inr (Some sl)" "levels_ok sl g"
    "set (concat sl) = set (stream_call_list e)"
proof -
  obtain g sl where g: "stream_build_graph e = Inr g" and sl: "solve limit e = Inr (Some sl)" "distinct (concat sl)"
    "set (concat sl) = set (stream_call_list e)" "levels_from (\<lambda>n. set (node_inputs g n)) {} sl"
    using solve_spec[OF assms] by blast
  have "dict_keys g = stream_call_list e" using stream_build_graph_spec[OF assms(1)] g by auto
  then have "fst ` set g = set (concat sl)" using sl(3) by (metis set_map)
  then show ?thesis using that g sl by (simp add: levels_ok_def)
qed

lemma program_race_free:
  assumes "sources_listed (stream_call_list e)" and "\<forall>n \<in> set (stream_call_list e). isStencilNode n"
    and "length (stream_call_list e) \<le> limit"
  shows "\<exists>g sl S. stream_build_graph e = Inr g \<and> solve limit e = Inr (Some sl) \<and>
    generate_codengen_streamlist sl g = Inr S \<and>
    (\<forall>n s s' b a. exec_run (length S) (thread_code S) n s \<and> a \<in> set (node_inputs g b) \<and>
       exec_step (length S) (thread_code S) s (Begin (Ker b)) s' \<and> b \<in> set (stream_call_list e) \<longrightarrow> Ker a \<in> finished s)"
proof -
  obtain g sl where g: "stream_build_graph e = Inr g" "solve limit e = Inr (Some sl)" and ok: "levels_ok sl g"
    and calls: "set (concat sl) = set (stream_call_list e)" using scheduled[OF assms] .
  obtain S where S: "generate_codengen_streamlist sl g = Inr S" using codegen_streams.gen_spec[OF ok] by blast
  have "Ker a \<in> finished s" if "exec_run (length S) (thread_code S) n s" and a: "a \<in> set (node_inputs g b)"
    "exec_step (length S) (thread_code S) s (Begin (Ker b)) s'" and b: "b \<in> set (stream_call_list e)" for n s s' b a
  proof (rule codegen_streams.gen_race_free[OF ok S that(1,3)])
    show "reads g b a" using a by (simp add: reads_node_inputs)
    show "a \<in> set (concat sl)"
      using ok b a calls level_inputs_listed[of _ "{}" sl b] unfolding levels_ok_def by blast
  qed
  then show ?thesis using g S by blast
qed

text \<open>C4: The program generated for a function of stencil calls is free of data races on the values
  its kernels exchange: in every interleaving of the launch threads and the device, a kernel starts
  only after every kernel whose output it reads has finished. The stream solver and the stream
  generator return, so there is such a program.\<close>

theorem generated_program_race_free:
  assumes "sources_listed (stream_call_list e)" and "\<forall>n \<in> set (stream_call_list e). isStencilNode n"
    and "length (stream_call_list e) \<le> limit"
  shows "\<exists>g sl S. stream_build_graph e = Inr g \<and> solve limit e = Inr (Some sl) \<and>
    generate_codengen_streamlist sl g = Inr S \<and>
    (\<forall>n s s' b a. exec_run (length S) (thread_code S) n s \<and> a \<in> set (node_inputs g b) \<and>
       exec_step (length S) (thread_code S) s (Begin (Ker b)) s' \<and> b \<in> set (stream_call_list e) \<longrightarrow> Ker a \<in> finished s)"
  using assms by (rule program_race_free)

definition ex_streams :: "expr item list list" where
  "ex_streams = [[Run ex_a, Sync 1, Run ex_b, Sync 2, Run ex_d], [Sync 1, Run ex_c, Sync 2]]"

definition ex_graph :: "expr io_graph" where
  "ex_graph = [(ex_d, \<lparr>inputs = [ex_b, ex_c], outputs = []\<rparr>), (ex_b, \<lparr>inputs = [ex_a], outputs = [ex_d]\<rparr>),
     (ex_a, \<lparr>inputs = [], outputs = [ex_b, ex_c]\<rparr>), (ex_c, \<lparr>inputs = [ex_a], outputs = [ex_d]\<rparr>)]"

lemma ex_main_calls: "stream_call_list ex_main = [ex_d, ex_b, ex_a, ex_c]"
  by code_simp

lemma ex_main_ok:
  "sources_listed (stream_call_list ex_main)" "\<forall>n \<in> set (stream_call_list ex_main). isStencilNode n"
  by code_simp+

lemma ex_main_graph: "stream_build_graph ex_main = Inr ex_graph"
  by code_simp

lemma ex_main_solve: "solve 4 ex_main = Inr (Some [[ex_a], [ex_b, ex_c], [ex_d]])"
  by code_simp

lemma ex_main_streams: "generate_codengen_streamlist [[ex_a], [ex_b, ex_c], [ex_d]] ex_graph = Inr ex_streams"
  by code_simp

theorem generated_program_race_free_witness:
  "solve 4 ex_main = Inr (Some [[ex_a], [ex_b, ex_c], [ex_d]]) \<and>
   generate_codengen_streamlist [[ex_a], [ex_b, ex_c], [ex_d]] ex_graph = Inr ex_streams \<and>
   \<not> (\<exists>n s s'. exec_run 2 (thread_code ex_streams) n s \<and>
        exec_step 2 (thread_code ex_streams) s (Begin (Ker ex_d)) s' \<and> Ker ex_c \<notin> finished s)"
proof -
  have "length ex_streams = 2" "ex_c \<in> set (node_inputs ex_graph ex_d)" "ex_d \<in> set (stream_call_list ex_main)"
    by (simp_all add: ex_streams_def ex_graph_def node_inputs_def ex_main_calls)
  then show ?thesis
    using generated_program_race_free[OF ex_main_ok, of 4] ex_main_calls
    unfolding ex_main_graph ex_main_solve by (simp add: ex_main_streams) blast
qed

lemma program_completes:
  assumes "sources_listed (stream_call_list e)" and "\<forall>n \<in> set (stream_call_list e). isStencilNode n"
    and "length (stream_call_list e) \<le> limit"
  shows "\<exists>g sl S. stream_build_graph e = Inr g \<and> solve limit e = Inr (Some sl) \<and>
    generate_codengen_streamlist sl g = Inr S \<and>
    (\<forall>n s. exec_run (length S) (thread_code S) n s \<longrightarrow> n \<le> (\<Sum>i\<le>length S. 3 * length (thread_code S i))) \<and>
    (\<forall>n s. length S \<le> 8 \<and> exec_run (length S) (thread_code S) n s \<and> blocked (length S) (thread_code S) s \<longrightarrow>
       final (length S) (thread_code S) s \<and> (\<forall>c \<in> set (stream_call_list e). Ker c \<in> finished s))"
proof -
  obtain g sl where g: "stream_build_graph e = Inr g" "solve limit e = Inr (Some sl)" and ok: "levels_ok sl g"
    and calls: "set (concat sl) = set (stream_call_list e)" using scheduled[OF assms] .
  obtain S where S: "generate_codengen_streamlist sl g = Inr S" using codegen_streams.gen_spec[OF ok] by blast
  show ?thesis
    using g S run_ends codegen_streams.gen_completes[OF ok S] unfolding threads_size_def calls by blast
qed

text \<open>C7: The generated program cannot deadlock and always terminates: with at most eight streams,
  every run is bounded, and a run that cannot go on has returned from every thread, with every
  kernel of the function finished.\<close>

theorem generated_program_completes:
  assumes "sources_listed (stream_call_list e)" and "\<forall>n \<in> set (stream_call_list e). isStencilNode n"
    and "length (stream_call_list e) \<le> limit"
  shows "\<exists>g sl S. stream_build_graph e = Inr g \<and> solve limit e = Inr (Some sl) \<and>
    generate_codengen_streamlist sl g = Inr S \<and>
    (\<forall>n s. exec_run (length S) (thread_code S) n s \<longrightarrow> n \<le> (\<Sum>i\<le>length S. 3 * length (thread_code S i))) \<and>
    (\<forall>n s. length S \<le> 8 \<and> exec_run (length S) (thread_code S) n s \<and> blocked (length S) (thread_code S) s \<longrightarrow>
       final (length S) (thread_code S) s \<and> (\<forall>c \<in> set (stream_call_list e). Ker c \<in> finished s))"
  using assms by (rule program_completes)

theorem generated_program_completes_witness:
  "generate_codengen_streamlist [[ex_a], [ex_b, ex_c], [ex_d]] ex_graph = Inr ex_streams \<and>
   \<not> (\<exists>n s. exec_run 2 (thread_code ex_streams) n s \<and> 96 < n) \<and>
   \<not> (\<exists>n s. exec_run 2 (thread_code ex_streams) n s \<and> blocked 2 (thread_code ex_streams) s \<and>
        Ker ex_d \<notin> finished s)"
proof -
  have "length ex_streams = 2" "(\<Sum>i\<le>length ex_streams. 3 * length (thread_code ex_streams i)) = 96"
    by (simp_all add: ex_streams_def thread_code_def launch_code_def main_code_def numeral_2_eq_2)
  then show ?thesis
    using generated_program_completes[OF ex_main_ok, of 4] ex_main_calls
    unfolding ex_main_graph ex_main_solve by (simp add: ex_main_streams) (meson leD)
qed

text \<open>C20: The synchronisations that are left are needed, every single one: after removing any of them
  from the streams, some call reads the output of a call of another stream with no synchronisation
  between the two.\<close>

theorem no_redundant_sync:
  assumes "levels_ok ls graph"
  shows "\<exists>S. generate_codengen_streamlist ls graph = Inr S \<and> well_synced (reads graph) S \<and>
    (\<forall>k. Sync k \<in> set (concat S) \<longrightarrow> \<not> well_synced (reads graph) (map (remove1 (Sync k)) S))"
proof -
  let ?K = "kept graph ls (length ls)" and ?m = "max_stream_number ls"
  have S: "generate_codengen_streamlist ls graph = Inr (streams ?K ?m ls)"
    using assms by (intro generate_codengen_streamlist_streams) (simp_all add: levels_ok_def)
  have "\<not> well_synced (reads graph) (map (remove1 (Sync k)) (streams ?K ?m ls))"
    if "Sync k \<in> set (concat (streams ?K ?m ls))" for k
  proof -
    have k: "0 < k" "k < length ls" "k \<in> ?K" using that by (auto simp: streams_def sync_in_render)
    then have "unsynced graph ls ?K k" using kept_iff[OF k(1,2)] by blast
    then show ?thesis using dropping_breaks[OF _ k] assms unfolding remove_streams levels_ok_def by blast
  qed
  then show ?thesis using S streams_well_synced[OF assms] by blast
qed

lemma ex_levels_ok: "levels_ok [[ex_a], [ex_b, ex_c], [ex_d]] ex_graph"
  by code_simp

theorem no_redundant_sync_witness:
  "well_synced (reads ex_graph) ex_streams \<and>
   \<not> well_synced (reads ex_graph) [[Run ex_a, Sync 1, Run ex_b, Run ex_d], [Sync 1, Run ex_c]]"
  using no_redundant_sync[OF ex_levels_ok] unfolding ex_main_streams
  by (auto simp: ex_streams_def dest!: spec[of _ "2::nat"])

text \<open>C21: The streams hold the calls of the levels, every one exactly once.\<close>

theorem streams_partition_calls:
  assumes "levels_ok ls graph"
  shows "\<exists>S. generate_codengen_streamlist ls graph = Inr S \<and> length S = max_stream_number ls \<and>
    mset (concat (map run_calls S)) = mset (concat ls)"
  using generate_codengen_streamlist_streams[of ls graph] calls_streams[of _ ls] assms
  by (auto simp: levels_ok_def streams_def)

theorem streams_partition_calls_witness:
  "generate_codengen_streamlist [[ex_a], [ex_b, ex_c], [ex_d]] ex_graph = Inr ex_streams \<and>
   mset (concat (map run_calls ex_streams)) = {#ex_a, ex_b, ex_c, ex_d#}"
  using streams_partition_calls[OF ex_levels_ok] by (auto simp: ex_main_streams)

text \<open>C22: The driver of a generated program reaches a write outside its array \<^verbatim>\<open>threads[8]\<close> of thread handles
  exactly when some level holds more than eight calls: then a run gets to the creation of a ninth
  thread, and otherwise no reachable state is about to write outside the array.\<close>

theorem threads_overflow_iff:
  assumes "levels_ok ls graph"
  shows "\<exists>S. generate_codengen_streamlist ls graph = Inr S \<and>
    ((\<exists>n s i j. exec_run (length S) (thread_code S) n s \<and> at (thread_code S) s i (Create j) \<and> threads_size \<le> j) \<longleftrightarrow>
      (\<exists>l \<in> set ls. 8 < length l))"
proof -
  let ?S = "streams (kept graph ls (length ls)) (max_stream_number ls) ls"
  have "generate_codengen_streamlist ls graph = Inr ?S"
    using generate_codengen_streamlist_streams[of ls graph] assms by (simp add: levels_ok_def)
  moreover have "threads_size < length ?S \<longleftrightarrow> (\<exists>l \<in> set ls. 8 < length l)"
    using max_stream_number_less[of 8 ls] by (simp add: streams_def threads_size_def)
  ultimately show ?thesis using threads_overflow[of ?S] by auto
qed

definition ex_wide :: "nat io_graph" where
  "ex_wide = map (\<lambda>c. (c, \<lparr>inputs = [], outputs = []\<rparr>)) [0..<9]"

theorem threads_overflow_iff_witness:
  "\<exists>S. generate_codengen_streamlist [[0..<9]] ex_wide = Inr S \<and>
    (\<exists>n s i j. exec_run (length S) (thread_code S) n s \<and> at (thread_code S) s i (Create j) \<and> threads_size \<le> j)"
proof -
  have "levels_ok [[0..<9]] ex_wide" by code_simp
  from threads_overflow_iff[OF this] show ?thesis by simp
qed

end
