(* ===== verification/Main_Gen.thy ===== *)
theory Main_Gen
  imports Py_Strings Stream_Schedule "HOL-Library.List_Lexorder" "HOL-Library.Char_ord"
begin

text \<open>
  \<^verbatim>\<open>relay/transform/maingen.py\<close>: the text of the CUDA driver. \<^verbatim>\<open>GenMain\<close> keeps the code it has emitted
  so far; every \<^verbatim>\<open>gen_\<close> method appends to it, and a lookup of an unknown kernel or variable raises
  \<^verbatim>\<open>KeyError\<close>. A Python set is modelled as the list of its elements in iteration order where the
  code iterates over it, and as a set where it only tests membership. Printing
  \<^verbatim>\<open>init_values[i] + index\<close> (a sum of floats) is the parameter \<open>fstr\<close> of the definitions that use it.

  The launch functions are shown to be the printed form of the instructions whose executions
  \<^verbatim>\<open>Launch_Threads\<close> analyses.
\<close>

section \<open>Text\<close>

definition nl :: string where
  "nl = [CHR 0x0A]"

definition bs :: string where
  "bs = [CHR 0x5C]"

text \<open>A triple-quoted literal.\<close>

definition text_lines :: "string list \<Rightarrow> string" where
  "text_lines ls = py_join nl ls"


section \<open>The generator's state\<close>

record kernel_def =
  kname :: string
  kvariables :: "string list"

record gen_main =
  domain_size :: int
  halo_width :: int
  kernels :: "kernel_def list"
  stream_list :: "string list list"
  sync_lengths :: "(string, nat) dict"
  run_step :: nat
  stream_size :: nat
  output_on :: bool
  all_variables :: "(string, nat) dict"
  in_variables :: "string set"
  out_variables :: "string list"
  useless_variables :: "string set"
  emitted :: "string list"
  name2kernel :: "(string, kernel_def) dict"

definition is_sync :: "string \<Rightarrow> bool" where
  "is_sync s = py_startswith s ''sync_''"

definition count_sync :: "string \<Rightarrow> (string, nat) dict \<Rightarrow> (string, nat) dict" where
  "count_sync ele d = (if is_sync ele then AList.update ele (dict_get_default d ele 0 + 1) d else d)"

definition init_stream_list :: "string list list \<Rightarrow> nat \<times> (string, nat) dict" where
  "init_stream_list sl = (length sl, fold (fold count_sync) sl [])"

definition GenMain_init ::
    "int \<Rightarrow> int \<Rightarrow> (string, nat) dict \<Rightarrow> string set \<Rightarrow> string list \<Rightarrow> string set \<Rightarrow>
     kernel_def list \<Rightarrow> string list list \<Rightarrow> bool \<Rightarrow> gen_main" where
  "GenMain_init dsize halo all_vars in_vars out_vars useless ks sl output =
     \<lparr>domain_size = dsize, halo_width = halo, kernels = ks, stream_list = sl,
      sync_lengths = snd (init_stream_list sl), run_step = 1, stream_size = fst (init_stream_list sl),
      output_on = output, all_variables = all_vars, in_variables = in_vars, out_variables = out_vars,
      useless_variables = useless, emitted = [],
      name2kernel = fold (\<lambda>k. AList.update (kname k) k) ks []\<rparr>"

definition emit :: "string \<Rightarrow> gen_main \<Rightarrow> gen_main" where
  "emit s g = g\<lparr>emitted := emitted g @ [s]\<rparr>"


section \<open>Declarations\<close>

definition storage :: "nat \<Rightarrow> string" where
  "storage dim = ''Storage'' @ str_of_nat dim @ ''D''"

definition gen_struct_parameter :: "gen_main \<Rightarrow> gen_main" where
  "gen_struct_parameter g =
     emit (text_lines ['''', ''struct parameter'', ''{'',
        ''  '' @ py_join (nl @ ''  '') (map (\<lambda>(v, d). storage d @ '' '' @ v @ '';'') (all_variables g)),
        ''};'', '''']) g"

definition gen_header :: "gen_main \<Rightarrow> gen_main" where
  "gen_header g =
     emit (text_lines ['''',
       ''#include <cmath>'', ''#include <chrono>'', ''#include <atomic>'', '''',
       ''// define the domain size and the halo width'',
       ''int32_t domain_size = '' @ str_of_int (domain_size g) @ '';'',
       ''int32_t domain_height = '' @ str_of_int (domain_size g) @ '';'',
       ''int32_t halo_width = '' @ str_of_int (halo_width g) @ '';'',
       ''const int N = 1 << 20;'', '''',
       ''typedef double ElementType;'',
       ''std::atomic<int> START(0);'',
       py_join nl (map (\<lambda>k. ''std::atomic<int> '' @ k @ ''(0);'') (dict_keys (sync_lengths g))),
       ''#include \"util.h\"'', '''', '''']) g"

definition single_kernel_def :: "(string, nat) dict \<Rightarrow> kernel_def \<Rightarrow> string res" where
  "single_kernel_def all_vars ken =
     and_then (res_map (\<lambda>k. and_then (dict_get all_vars k) (\<lambda>d. Inr (storage d @ '' *''))) (kvariables ken))
       (\<lambda>params. Inr (''void _mlir_ciface_'' @ kname ken @ ''('' @ py_join '', '' params @ '');''))"

definition gen_kernel_def :: "gen_main \<Rightarrow> gen_main res" where
  "gen_kernel_def g =
     and_then (res_map (single_kernel_def (all_variables g)) (kernels g)) (\<lambda>defs.
       Inr (emit (text_lines ['''', ''extern \"C\" {'', ''  '' @ py_join nl defs, ''}'', '''']) g))"

definition gen_printStorage :: "gen_main \<Rightarrow> gen_main" where
  "gen_printStorage g = emit (text_lines ['''',
     ''void printStorage(Storage3D &ref) {'', '''',
     ''for (int i = 0; i < domain_size; i++) '',
     ''      for (int j = 0; j < domain_size; j++) '',
     ''          for (int k = 0; k < domain_height; k++) {'',
     ''              std::cout << ref(i,j,k) << std::endl;'',
     ''          }'', ''}'', '''']) g"

definition gen_warmup_kernel :: "gen_main \<Rightarrow> gen_main" where
  "gen_warmup_kernel g = emit (text_lines ['''',
     ''__global__ void kernel(float *x, int n)'', ''{'',
     ''    int tid = threadIdx.x + blockIdx.x * blockDim.x;'',
     ''    for (int i = tid; i < n; i += blockDim.x * gridDim.x) {'',
     ''        x[i] = sqrt(pow(3.14159,i));'', ''    }'', ''}'', '''']) g"


section \<open>Launch functions\<close>

definition gen_synchronize_var :: "gen_main \<Rightarrow> string \<Rightarrow> string" where
  "gen_synchronize_var g var = text_lines ['''',
     ''    cudaStreamSynchronize(0);'',
     ''    '' @ var @ ''+=1;'',
     ''    while('' @ var @ ''!='' @ str_of_nat (dict_get_default (sync_lengths g) var 0) @ '');'', '''']"

definition gen_kernel_call :: "gen_main \<Rightarrow> string \<Rightarrow> string res" where
  "gen_kernel_call g var =
     and_then (dict_get (name2kernel g) var) (\<lambda>kernel.
       Inr (''_mlir_ciface_'' @ kname kernel @ ''('' @ py_join '', '' (map (\<lambda>x. CHR ''&'' # x) (kvariables kernel)) @ '');''))"

definition gen_single_call :: "gen_main \<Rightarrow> string \<Rightarrow> string res" where
  "gen_single_call g var = (if is_sync var then Inr (gen_synchronize_var g var) else gen_kernel_call g var)"

definition stream_vars :: "gen_main \<Rightarrow> string list \<Rightarrow> string list res" where
  "stream_vars g stream =
     and_then (res_map (\<lambda>var. and_then (dict_get (name2kernel g) var) (\<lambda>k. Inr (kvariables k)))
         (filter (\<lambda>var. \<not> is_sync var) stream))
       (\<lambda>vs. Inr (sorted_list_of_set (set (concat vs))))"

definition gen_launch_kernel :: "gen_main \<Rightarrow> string list \<Rightarrow> nat \<Rightarrow> string res" where
  "gen_launch_kernel g stream i =
     and_then (stream_vars g stream) (\<lambda>z.
     and_then (res_map (\<lambda>v. and_then (dict_get (all_variables g) v) (\<lambda>d.
         Inr (storage d @ '' '' @ v @ '' = p->'' @ v @ '';''))) z) (\<lambda>assigns.
     and_then (res_map (gen_single_call g) stream) (\<lambda>calls.
       Inr (text_lines ['''',
         ''void *launch_kernel_'' @ str_of_nat i @ ''(void* arg)'',
         ''{   '',
         ''    struct parameter *p =(parameter*)arg;'',
         ''    '' @ py_join (nl @ ''  '') assigns,
         ''    float *data;'',
         ''    cudaMalloc(&data, N * sizeof(float));'',
         ''    kernel<<<1, 64>>>(data, N);'',
         ''    cudaStreamSynchronize(0);'',
         ''    START+=1;'',
         ''    while(START!='' @ str_of_nat (stream_size g) @ '');'',
         ''    '' @ py_join (nl @ ''    '') calls,
         ''    cudaStreamSynchronize(0);'',
         ''    return NULL;'', '''', ''}'', '''']))))"

definition gen_launch_kernels :: "gen_main \<Rightarrow> gen_main res" where
  "gen_launch_kernels g =
     res_fold (\<lambda>(i, stream) g. and_then (gen_launch_kernel g stream i) (\<lambda>s. Inr (emit s g)))
       (enumerate 0 (stream_list g)) g"


section \<open>The driver\<close>

definition gen_main_start :: "gen_main \<Rightarrow> gen_main" where
  "gen_main_start g = emit (text_lines ['''',
     ''int main(int argc, char **argv) {'', '''',
     ''  if(argc == 3) {'',
     ''      domain_size = atoi(argv[1]);'',
     ''      domain_height = atoi(argv[2]);'',
     ''  } else if (argc == 1) {'',
     ''  } else {'',
     ''      std::cout << \"Either provide the domain size and domain height like this '' @ bs @ ''\"./kernel 128 60'' @ bs @
       ''\" or do not provide any arguments at all in which case the program is ran with domain size 64 and domain heigh 60\" << std::endl;'',
     ''      exit(1);'', ''  }'', '''',
     ''  const int32_t sizes1D = domain_size + 2 * halo_width;'',
     ''  const std::array<int32_t, 3> sizes3D = {domain_size + 2 * halo_width,'',
     ''                                      domain_size + 2 * halo_width,'',
     ''                                      domain_height + 2 * halo_width};'', '''']) g"

definition gen_var_def :: "gen_main \<Rightarrow> gen_main" where
  "gen_var_def g =
     emit (py_join (nl @ ''  '') (map (\<lambda>(v, d). ''p->'' @ v @ '' = allocateStorage(sizes'' @ str_of_nat d @ ''D);'') (all_variables g)))
       (emit ''  struct parameter *p =  new parameter;'' g)"

definition init_values :: "string list" where
  "init_values = [''3.2'', ''7.0'', ''2.5'', ''6.1'', ''3.0'', ''2.3'']"

definition init_statement :: "(string \<Rightarrow> nat \<Rightarrow> string) \<Rightarrow> string \<times> nat \<Rightarrow> gen_main \<times> nat \<Rightarrow> gen_main \<times> nat" where
  "init_statement fstr kv s = (case (kv, s) of ((k, v), (g, index)) \<Rightarrow>
     if k \<in> in_variables g then
       let init_values_str = py_join '', '' (map (\<lambda>x. fstr x index) init_values);
           stmt = py_replace (py_replace ''  fillMath(${init_values}, ${var_name}, domain_size, domain_height);''
             ''${var_name}'' (''p->'' @ k)) ''${init_values}'' init_values_str
       in (emit stmt g, index + 1)
     else (g, index))"

definition gen_init_statement :: "(string \<Rightarrow> nat \<Rightarrow> string) \<Rightarrow> gen_main \<Rightarrow> gen_main" where
  "gen_init_statement fstr g = fst (fold (init_statement fstr) (all_variables g) (g, 0))"

definition mem2d :: "gen_main \<Rightarrow> string \<Rightarrow> string" where
  "mem2d g k =
     py_replace (if k \<in> in_variables g then '' memH2D(p->${var_name}, true);'' else '' memH2D(p->${var_name}, false);'')
       ''${var_name}'' k"

definition gen_mem2d :: "gen_main \<Rightarrow> gen_main" where
  "gen_mem2d g = fold (\<lambda>k. emit (mem2d g k))
     (sorted_list_of_set (set (dict_keys (all_variables g)) - useless_variables g)) g"

definition gen_init_device_mem :: "gen_main \<Rightarrow> string" where
  "gen_init_device_mem g = py_join (nl @ ''    '') (map (\<lambda>v. ''initDeviceMemZero(p->'' @ v @ '');'') (out_variables g))"

definition gen_pthread_create :: "gen_main \<Rightarrow> string" where
  "gen_pthread_create g = py_join (nl @ ''    '')
     (map (\<lambda>i. ''pthread_create(&threads['' @ str_of_nat i @ ''], NULL, launch_kernel_'' @ str_of_nat i @ '', p);'')
       [0..<length (stream_list g)])"

definition gen_pthread_join :: "gen_main \<Rightarrow> string" where
  "gen_pthread_join g = py_join (nl @ ''    '')
     (map (\<lambda>i. ''pthread_join(threads['' @ str_of_nat i @ ''], NULL);'') [0..<length (stream_list g)])"

definition init_sync_vars :: "gen_main \<Rightarrow> string" where
  "init_sync_vars g = py_join (nl @ ''    '') (map (\<lambda>v. v @ ''=0;'') (''START'' # dict_keys (sync_lengths g)))"

definition gen_timing_and_run :: "gen_main \<Rightarrow> gen_main" where
  "gen_timing_and_run g = emit (text_lines ['''',
     ''  cudaEvent_t start, stop;'',
     ''  float elapsed = 0.0;'',
     ''  // double sum=0.0;'',
     ''  // double min_time = 100000.0;'',
     ''  // double max_time = 0.0;'',
     ''  pthread_t threads[8];'',
     ''  '' @ gen_init_device_mem g, '''',
     ''  int steps = '' @ str_of_nat (run_step g) @ '';'',
     ''  for(int i = 0; i < steps; i++){'',
     ''    '' @ init_sync_vars g,
     ''    '' @ gen_pthread_create g,
     ''    while(START!='' @ str_of_nat (stream_size g) @ '');'', '''',
     ''    cudaEventCreate(&start);'',
     ''    cudaEventCreate(&stop);'',
     ''    cudaEventRecord(start, 0);'',
     ''    '' @ gen_pthread_join g,
     ''    cudaDeviceSynchronize();'', '''',
     ''    cudaEventRecord(stop, 0);'',
     ''    cudaEventSynchronize(start);'',
     ''    cudaEventSynchronize(stop);'',
     ''    cudaEventElapsedTime(&elapsed, start, stop);'', '''',
     ''    std::cout << \"time : \" << elapsed << std::endl;'',
     ''  }'']) g"

definition gen_mem_out :: "gen_main \<Rightarrow> gen_main" where
  "gen_mem_out g = fold (\<lambda>out g.
     emit (''  freeStorage(p->'' @ out @ '');'')
      (emit (''  printStorage(p->'' @ out @ '');'')
       (emit (''  printf(\"-------'' @ out @ ''-------\");'')
        (emit (''  memD2H(p->'' @ out @ '');'') g)))) (out_variables g) g"

definition gen_main_end :: "gen_main \<Rightarrow> gen_main" where
  "gen_main_end g = emit (text_lines ['''', ''  return 0;'', ''}'', '''']) g"

definition gen :: "(string \<Rightarrow> nat \<Rightarrow> string) \<Rightarrow> gen_main \<Rightarrow> string res" where
  "gen fstr g =
     and_then (gen_kernel_def (gen_header g)) (\<lambda>g.
     and_then (gen_launch_kernels (gen_struct_parameter (gen_warmup_kernel (gen_printStorage g)))) (\<lambda>g.
       let g = gen_timing_and_run (gen_mem2d (gen_init_statement fstr (gen_var_def (gen_main_start g))));
           g = gen_main_end (if output_on g then gen_mem_out g else g)
       in Inr (text_lines (emitted g) @ nl)))"


section \<open>Synchronisation counters\<close>

lemma count_sync_get:
  "dict_get_default (count_sync ele d) v 0 = dict_get_default d v 0 + (if ele = v \<and> is_sync v then 1 else 0)"
  by (auto simp: count_sync_def dict_get_default_def update_conv' split: option.splits)

lemma count_sync_keys: "set (dict_keys (count_sync ele d)) = set (dict_keys d) \<union> (if is_sync ele then {ele} else {})"
  by (simp add: count_sync_def set_dict_keys_update del: set_map)

lemma count_syncs_get:
  "dict_get_default (fold count_sync l d) v 0 = dict_get_default d v 0 + (if is_sync v then count_list l v else 0)"
  by (induction l arbitrary: d) (auto simp: count_sync_get)

lemma init_stream_list_count:
  "is_sync v \<Longrightarrow> dict_get_default (snd (init_stream_list sl)) v 0 = count_list (concat sl) v"
proof -
  assume v: "is_sync v"
  have "dict_get_default (fold (fold count_sync) sl d) v 0 = dict_get_default d v 0 + count_list (concat sl) v" for d
    using v by (induction sl arbitrary: d) (auto simp: count_syncs_get)
  then show ?thesis by (simp add: init_stream_list_def dict_get_default_def)
qed

lemma count_sync_distinct: "distinct (dict_keys d) \<Longrightarrow> distinct (dict_keys (count_sync ele d))"
  by (simp add: count_sync_def distinct_update)

lemma init_stream_list_keys:
  "distinct (dict_keys (snd (init_stream_list sl)))"
  "set (dict_keys (snd (init_stream_list sl))) = {v \<in> set (concat sl). is_sync v}"
proof -
  have row: "distinct (dict_keys d) \<Longrightarrow> distinct (dict_keys (fold count_sync l d))"
    "set (dict_keys (fold count_sync l d)) = set (dict_keys d) \<union> {v \<in> set l. is_sync v}" for l d
    by (induction l arbitrary: d) (auto simp: count_sync_distinct count_sync_keys simp del: set_map split: if_splits)
  have "distinct (dict_keys d) \<Longrightarrow> distinct (dict_keys (fold (fold count_sync) sl d))"
    "set (dict_keys (fold (fold count_sync) sl d)) = set (dict_keys d) \<union> {v \<in> set (concat sl). is_sync v}" for d
    by (induction sl arbitrary: d) (auto simp: row simp del: set_map)
  from this[of "[]"] show "distinct (dict_keys (snd (init_stream_list sl)))"
    "set (dict_keys (snd (init_stream_list sl))) = {v \<in> set (concat sl). is_sync v}"
    by (auto simp: init_stream_list_def simp del: set_map)
qed


section \<open>Lines\<close>

lemma text_lines_Cons: "ls \<noteq> [] \<Longrightarrow> text_lines (x # ls) = x @ nl @ text_lines ls"
  by (cases ls) (simp_all add: text_lines_def)

lemma text_lines_append:
  "xs \<noteq> [] \<Longrightarrow> ys \<noteq> [] \<Longrightarrow> text_lines (xs @ ys) = text_lines xs @ nl @ text_lines ys"
proof (induction xs)
  case (Cons x xs)
  then show ?case by (cases "xs = []") (simp_all add: text_lines_Cons, simp_all add: text_lines_def)
qed simp

lemma text_lines_single [simp]: "text_lines [x] = x"
  by (simp add: text_lines_def)

lemma text_lines_flatten: "ls \<noteq> [] \<Longrightarrow> text_lines (xs @ text_lines ls # ys) = text_lines (xs @ ls @ ys)"
proof -
  assume ls: "ls \<noteq> []"
  have "text_lines (text_lines ls # ys) = text_lines (ls @ ys)"
    by (cases "ys = []") (simp_all add: ls text_lines_Cons text_lines_append)
  then show ?thesis using ls by (cases "xs = []") (simp_all add: text_lines_append)
qed

lemma indent_join: "xs \<noteq> [] \<Longrightarrow> ind @ py_join (nl @ ind) xs = text_lines (map (\<lambda>x. ind @ x) xs)"
proof (induction xs)
  case (Cons x xs)
  then show ?case by (cases xs) (simp_all add: text_lines_def)
qed simp

lemma text_lines_concat: "(\<And>l. l \<in> set lss \<Longrightarrow> l \<noteq> []) \<Longrightarrow> lss \<noteq> [] \<Longrightarrow> text_lines (map text_lines lss) = text_lines (concat lss)"
proof (induction lss)
  case (Cons l lss)
  then show ?case by (cases "lss = []") (simp_all add: text_lines_Cons text_lines_append)
qed simp


section \<open>The launch functions print the launch code\<close>

text \<open>
  The streams of \<^verbatim>\<open>GenMain\<close> are lists of strings: \<open>nm\<close> names the kernel of a call, synchronisations
  are rendered by \<open>sync_name\<close>.
\<close>

fun item_name :: "('c \<Rightarrow> string) \<Rightarrow> 'c item \<Rightarrow> string" where
  "item_name nm (Sync k) = sync_name k"
| "item_name nm (Run c) = nm c"

fun barrier_name :: "barrier \<Rightarrow> string" where
  "barrier_name START = ''START''"
| "barrier_name (SYNC k) = sync_name k"

text \<open>How an instruction is written; \<open>args\<close> are the arguments of a kernel.\<close>

fun instr_lines :: "('c \<Rightarrow> string) \<Rightarrow> ('c \<Rightarrow> string list) \<Rightarrow> 'c instr \<Rightarrow> string list" where
  "instr_lines nm args (Launch (Warm i)) =
     [''    float *data;'', ''    cudaMalloc(&data, N * sizeof(float));'', ''    kernel<<<1, 64>>>(data, N);'']"
| "instr_lines nm args (Launch (Ker c)) =
     [''    _mlir_ciface_'' @ nm c @ ''('' @ py_join '', '' (map (\<lambda>x. CHR ''&'' # x) (args c)) @ '');'']"
| "instr_lines nm args StreamSync = [''    cudaStreamSynchronize(0);'']"
| "instr_lines nm args (Incr v) = [''    '' @ barrier_name v @ ''+=1;'']"
| "instr_lines nm args (Wait v n) = [''    while('' @ barrier_name v @ ''!='' @ str_of_nat n @ '');'']"
| "instr_lines nm args _ = []"

definition blank :: "string \<Rightarrow> bool" where
  "blank l \<longleftrightarrow> list_all is_space l"

lemma is_sync_sync_name [simp]: "is_sync (sync_name k)"
  by (simp add: is_sync_def sync_name_def py_startswith_def)

text \<open>The generator is set up for the streams \<open>S\<close>.\<close>

definition set_up_for :: "('c \<Rightarrow> string) \<Rightarrow> ('c \<Rightarrow> string list) \<Rightarrow> 'c item list list \<Rightarrow> gen_main \<Rightarrow> bool" where
  "set_up_for nm args S g \<longleftrightarrow>
     stream_list g = map (map (item_name nm)) S \<and>
     sync_lengths g = snd (init_stream_list (stream_list g)) \<and> stream_size g = length S \<and>
     (\<forall>c. Run c \<in> set (concat S) \<longrightarrow> \<not> is_sync (nm c) \<and>
        (\<exists>ken. map_of (name2kernel g) (nm c) = Some ken \<and> kname ken = nm c \<and> kvariables ken = args c \<and>
           set (args c) \<subseteq> set (dict_keys (all_variables g))))"

lemma count_item_name:
  "(\<forall>c. Run c \<in> set l \<longrightarrow> \<not> is_sync (nm c)) \<Longrightarrow> count_list (map (item_name nm) l) (sync_name k) = count_list l (Sync k)"
proof (induction l)
  case (Cons x l)
  have "item_name nm x = sync_name k \<longleftrightarrow> x = Sync k"
    using Cons.prems is_sync_sync_name[of k] by (cases x) auto
  then show ?case using Cons by simp
qed simp

lemma sync_length_eq:
  assumes "set_up_for nm args S g"
  shows "dict_get_default (sync_lengths g) (sync_name k) 0 = sync_var_length S k"
proof -
  have "\<forall>c. Run c \<in> set (concat S) \<longrightarrow> \<not> is_sync (nm c)" using assms by (auto simp: set_up_for_def)
  from count_item_name[OF this, of k] show ?thesis
    using assms init_stream_list_count[of "sync_name k" "map (map (item_name nm)) S"]
    by (simp add: set_up_for_def sync_var_length_def map_concat)
qed

definition item_lines :: "('c \<Rightarrow> string) \<Rightarrow> ('c \<Rightarrow> string list) \<Rightarrow> 'c item list list \<Rightarrow> 'c item \<Rightarrow> string list" where
  "item_lines nm args S it =
     (let ls = concat (map (instr_lines nm args) (Launch_Threads.gen_single_call S it))
      in case it of Sync k \<Rightarrow> ''    '' # ls @ [''''] | Run c \<Rightarrow> ls)"

lemma item_text:
  assumes g: "set_up_for nm args S g" and "it \<in> set (concat S)"
  shows "\<exists>t. gen_single_call g (item_name nm it) = Inr t \<and> ''    '' @ t = text_lines (item_lines nm args S it)"
proof (cases it)
  case (Sync k)
  then show ?thesis
    by (simp add: gen_single_call_def gen_synchronize_var_def sync_length_eq[OF g] item_lines_def text_lines_def)
next
  case (Run c)
  then have "Run c \<in> set (concat S)" using assms(2) by simp
  then obtain ken where "\<not> is_sync (nm c)" "map_of (name2kernel g) (nm c) = Some ken" "kname ken = nm c" "kvariables ken = args c"
    using g unfolding set_up_for_def by blast
  then show ?thesis using Run
    by (simp add: gen_single_call_def gen_kernel_call_def dict_get_def item_lines_def)
qed

lemma item_lines_nonempty: "item_lines nm args S it \<noteq> []"
  by (cases it) (simp_all add: item_lines_def)

lemma calls_text:
  assumes g: "set_up_for nm args S g" and l: "set l \<subseteq> set (concat S)" "l \<noteq> []"
  shows "\<exists>ts. res_map (gen_single_call g) (map (item_name nm) l) = Inr ts \<and>
    ''    '' @ py_join (nl @ ''    '') ts = text_lines (concat (map (item_lines nm args S) l))"
proof -
  have "\<exists>t. gen_single_call g (item_name nm it) = Inr t \<and> ''    '' @ t = text_lines (item_lines nm args S it)" if "it \<in> set l" for it
    using item_text[OF g] l(1) that by blast
  then obtain f where f: "\<And>it. it \<in> set l \<Longrightarrow> gen_single_call g (item_name nm it) = Inr (f it) \<and>
      ''    '' @ f it = text_lines (item_lines nm args S it)" by metis
  have "res_map (gen_single_call g) (map (item_name nm) l) = Inr (map f l)"
    using f by (induction l) simp_all
  moreover have "''    '' @ py_join (nl @ ''    '') (map f l) = text_lines (map (\<lambda>it. text_lines (item_lines nm args S it)) l)"
    using indent_join[of "map f l" "''    ''"] l(2) f by (simp add: comp_def cong: map_cong)
  moreover have "text_lines (map (\<lambda>it. text_lines (item_lines nm args S it)) l) = text_lines (concat (map (item_lines nm args S) l))"
    by (subst text_lines_concat[symmetric]) (use item_lines_nonempty l(2) in \<open>auto simp: comp_def\<close>)
  ultimately show ?thesis by simp
qed

lemma filter_item_lines:
  "filter (\<lambda>l. \<not> blank l) (item_lines nm args S it) = concat (map (instr_lines nm args) (Launch_Threads.gen_single_call S it))"
  by (cases it) (simp_all add: item_lines_def blank_def is_space_def)

lemma filter_items_lines:
  "filter (\<lambda>l. \<not> blank l) (concat (map (item_lines nm args S) l)) = concat (map (instr_lines nm args) (calls_code S l))"
  by (induction l) (simp_all add: filter_item_lines)

lemma stream_vars_ok:
  assumes g: "set_up_for nm args S g" and l: "set l \<subseteq> set (concat S)"
  shows "\<exists>z. stream_vars g (map (item_name nm) l) = Inr z \<and> set z \<subseteq> set (dict_keys (all_variables g))"
proof -
  have "\<exists>ks. res_map (\<lambda>var. and_then (dict_get (name2kernel g) var) (\<lambda>k. Inr (kvariables k)))
      (filter (\<lambda>var. \<not> is_sync var) (map (item_name nm) l)) = Inr ks \<and>
      set (concat ks) \<subseteq> set (dict_keys (all_variables g))"
    using l
  proof (induction l)
    case (Cons x l)
    then obtain ks where ks: "res_map (\<lambda>var. and_then (dict_get (name2kernel g) var) (\<lambda>k. Inr (kvariables k)))
      (filter (\<lambda>var. \<not> is_sync var) (map (item_name nm) l)) = Inr ks"
      "set (concat ks) \<subseteq> set (dict_keys (all_variables g))" by auto
    show ?case
    proof (cases x)
      case (Run c)
      then have "Run c \<in> set (concat S)" using Cons.prems by auto
      then obtain ken where "\<not> is_sync (nm c)" "map_of (name2kernel g) (nm c) = Some ken" "kvariables ken = args c"
        "set (args c) \<subseteq> set (dict_keys (all_variables g))"
        using g unfolding set_up_for_def by blast
      then show ?thesis using ks Run by (simp add: dict_get_def)
    qed (use ks in simp)
  qed simp
  then show ?thesis by (auto simp: stream_vars_def)
qed

lemma assigns_ok:
  "set z \<subseteq> set (dict_keys d) \<Longrightarrow> \<exists>as. res_map (\<lambda>v. and_then (dict_get d v) (\<lambda>n. Inr (f n v))) z = Inr as \<and>
     length as = length z"
proof (induction z)
  case (Cons v z)
  moreover obtain n where "map_of d v = Some n" using Cons.prems dict_key_Some[of v d] by auto
  ultimately show ?case by (auto simp: dict_get_def)
qed simp

text \<open>C23: The launch function that is printed for a stream is the launch code whose executions are
  analysed: its lines that are not blank, between the five lines of its head and its \<^verbatim>\<open>return\<close>, are
  the instructions of \<open>launch_code\<close>, one after the other, with the number of streams that reach each
  synchronisation as the count to wait for.\<close>

theorem launch_function_text:
  assumes g: "set_up_for nm args S g" and i: "i < length S"
  shows "\<exists>hd body tl. gen_launch_kernel g (map (item_name nm) (S ! i)) i = Inr (text_lines (hd @ body @ tl)) \<and>
    length hd = 5 \<and> tl = [''    return NULL;'', '''', ''}'', ''''] \<and>
    filter (\<lambda>l. \<not> blank l) body = concat (map (instr_lines nm args) (launch_code S i))"
proof -
  let ?l = "S ! i"
  have sub: "set ?l \<subseteq> set (concat S)" using nth_mem[OF i] by auto
  obtain z where z: "stream_vars g (map (item_name nm) ?l) = Inr z" "set z \<subseteq> set (dict_keys (all_variables g))"
    using stream_vars_ok[OF g sub] by blast
  obtain as where as: "res_map (\<lambda>v. and_then (dict_get (all_variables g) v) (\<lambda>d.
      Inr (storage d @ '' '' @ v @ '' = p->'' @ v @ '';''))) z = Inr as"
    using assigns_ok[OF z(2), of "\<lambda>d v. storage d @ '' '' @ v @ '' = p->'' @ v @ '';''"] by blast
  define body where "body = (if ?l = [] then [''    ''] else concat (map (item_lines nm args S) ?l))"
  have nonempty: "body \<noteq> []" by (cases ?l) (simp_all add: body_def item_lines_nonempty)
  obtain ts where ts: "res_map (gen_single_call g) (map (item_name nm) ?l) = Inr ts"
      "''    '' @ py_join (nl @ ''    '') ts = text_lines body"
    using calls_text[OF g sub] by (cases "?l = []") (auto simp: body_def)
  have filt: "filter (\<lambda>l. \<not> blank l) body = concat (map (instr_lines nm args) (calls_code S ?l))"
    using filter_items_lines[of nm args S ?l] by (auto simp: body_def) (simp add: blank_def is_space_def)
  let ?hd = "['''', ''void *launch_kernel_'' @ str_of_nat i @ ''(void* arg)'', ''{   '',
     ''    struct parameter *p =(parameter*)arg;'', ''    '' @ py_join (nl @ ''  '') as]"
  let ?pre = "[''    float *data;'', ''    cudaMalloc(&data, N * sizeof(float));'',
     ''    kernel<<<1, 64>>>(data, N);'', ''    cudaStreamSynchronize(0);'', ''    START+=1;'',
     ''    while(START!='' @ str_of_nat (length S) @ '');'']"
  let ?tl = "[''    return NULL;'', '''', ''}'', '''']"
  have sz: "stream_size g = length S" using g by (simp add: set_up_for_def)
  have "gen_launch_kernel g (map (item_name nm) ?l) i =
      Inr (text_lines ((?hd @ ?pre) @ text_lines body # (''    cudaStreamSynchronize(0);'' # ?tl)))"
    unfolding gen_launch_kernel_def z(1) and_then_simps as ts sz by simp
  then have eq: "gen_launch_kernel g (map (item_name nm) ?l) i =
      Inr (text_lines (?hd @ (?pre @ body @ [''    cudaStreamSynchronize(0);'']) @ ?tl))"
    unfolding text_lines_flatten[OF nonempty] by simp
  have lines: "filter (\<lambda>l. \<not> blank l) (?pre @ body @ [''    cudaStreamSynchronize(0);'']) =
      concat (map (instr_lines nm args) (launch_code S i))"
    unfolding launch_code_def using filt by (simp add: blank_def is_space_def)
  show ?thesis
    by (rule exI[of _ ?hd], rule exI[of _ "?pre @ body @ [''    cudaStreamSynchronize(0);'']"], rule exI[of _ ?tl],
      intro conjI, rule eq, simp, rule refl, rule lines)
qed


section \<open>When the driver is generated\<close>

definition kernel_known :: "gen_main \<Rightarrow> kernel_def \<Rightarrow> bool" where
  "kernel_known g ken \<longleftrightarrow> set (kvariables ken) \<subseteq> set (dict_keys (all_variables g))"

definition name_known :: "gen_main \<Rightarrow> string \<Rightarrow> bool" where
  "name_known g v \<longleftrightarrow> is_sync v \<or> (case map_of (name2kernel g) v of None \<Rightarrow> False | Some ken \<Rightarrow> kernel_known g ken)"

lemma dict_get_returns: "(\<exists>v. dict_get d k = Inr v) \<longleftrightarrow> k \<in> set (dict_keys d)"
  by (metis dict_get_Inl dict_get_Inr sum.exhaust map_of_key)

lemma and_then_returns: "(\<exists>y. and_then m f = Inr y) \<longleftrightarrow> (\<exists>x y. m = Inr x \<and> f x = Inr y)"
  by (auto simp: and_then_eq_Inr)

lemma single_kernel_def_returns: "(\<exists>s. single_kernel_def d ken = Inr s) \<longleftrightarrow> set (kvariables ken) \<subseteq> set (dict_keys d)"
  unfolding single_kernel_def_def and_then_returns
  by (simp add: res_map_returns and_then_returns dict_get_returns subset_eq del: set_map)

lemma gen_single_call_returns:
  "(\<exists>s. gen_single_call g v = Inr s) \<longleftrightarrow> is_sync v \<or> v \<in> set (dict_keys (name2kernel g))"
  by (simp add: gen_single_call_def gen_kernel_call_def and_then_returns dict_get_returns del: set_map)

lemma stream_vars_returns:
  "(\<exists>z. stream_vars g l = Inr z) \<longleftrightarrow> (\<forall>v \<in> set l. is_sync v \<or> v \<in> set (dict_keys (name2kernel g)))"
  unfolding stream_vars_def and_then_returns
  by (simp add: res_map_returns and_then_returns dict_get_returns del: set_map) blast

lemma stream_vars_set:
  assumes "stream_vars g l = Inr z"
  shows "x \<in> set z \<longleftrightarrow> (\<exists>v \<in> set l. \<exists>ken. \<not> is_sync v \<and> map_of (name2kernel g) v = Some ken \<and> x \<in> set (kvariables ken))"
proof -
  obtain vs where vs: "res_map (\<lambda>var. and_then (dict_get (name2kernel g) var) (\<lambda>k. Inr (kvariables k)))
      (filter (\<lambda>var. \<not> is_sync var) l) = Inr vs" "z = sorted_list_of_set (set (concat vs))"
    using assms by (auto simp: stream_vars_def and_then_eq_Inr)
  have "x \<in> set (concat vs) \<longleftrightarrow>
      (\<exists>v \<in> set l. \<exists>ken. \<not> is_sync v \<and> map_of (name2kernel g) v = Some ken \<and> x \<in> set (kvariables ken))"
    using vs(1)
  proof (induction l arbitrary: vs)
    case (Cons v l)
    show ?case
    proof (cases "is_sync v")
      case False
      with Cons.prems obtain ken vs' where "map_of (name2kernel g) v = Some ken" "vs = kvariables ken # vs'"
        "res_map (\<lambda>var. and_then (dict_get (name2kernel g) var) (\<lambda>k. Inr (kvariables k)))
          (filter (\<lambda>var. \<not> is_sync var) l) = Inr vs'"
        by (auto simp: and_then_eq_Inr dict_get_Inr)
      then show ?thesis using Cons.IH[of vs'] False by auto
    qed (use Cons in auto)
  qed simp
  then show ?thesis by (simp add: vs(2))
qed

lemma gen_launch_kernel_returns: "(\<exists>s. gen_launch_kernel g l i = Inr s) \<longleftrightarrow> (\<forall>v \<in> set l. name_known g v)"
proof (cases "\<exists>z. stream_vars g l = Inr z")
  case True
  then obtain z where z: "stream_vars g l = Inr z" by blast
  have keys: "\<forall>v \<in> set l. is_sync v \<or> v \<in> set (dict_keys (name2kernel g))" using True stream_vars_returns by blast
  have calls: "\<exists>cs. res_map (gen_single_call g) l = Inr cs" unfolding res_map_returns gen_single_call_returns by (rule keys)
  have "(\<exists>s. gen_launch_kernel g l i = Inr s) \<longleftrightarrow> (\<forall>x \<in> set z. x \<in> set (dict_keys (all_variables g)))"
    unfolding gen_launch_kernel_def using z calls
    by (simp add: and_then_returns res_map_returns dict_get_returns del: set_map)
  also have "\<dots> \<longleftrightarrow> (\<forall>v \<in> set l. name_known g v)"
  proof -
    have known: "name_known g v \<longleftrightarrow> (\<forall>ken. map_of (name2kernel g) v = Some ken \<longrightarrow> kernel_known g ken)"
      if v: "v \<in> set l" "\<not> is_sync v" for v
    proof -
      obtain ken where "map_of (name2kernel g) v = Some ken" using keys v dict_key_Some by metis
      then show ?thesis using v by (simp add: name_known_def)
    qed
    show ?thesis unfolding Ball_def stream_vars_set[OF z] using known
      by (auto simp: kernel_known_def subset_eq name_known_def simp del: set_map)
  qed
  finally show ?thesis .
next
  case False
  then have "\<not> (\<forall>v \<in> set l. is_sync v \<or> v \<in> set (dict_keys (name2kernel g)))" using stream_vars_returns by blast
  then have "\<not> (\<forall>v \<in> set l. name_known g v)"
    by (auto simp: name_known_def simp del: set_map split: option.splits dest: map_of_key)
  moreover have "\<not> (\<exists>s. gen_launch_kernel g l i = Inr s)"
    using False by (auto simp: gen_launch_kernel_def and_then_eq_Inr)
  ultimately show ?thesis by blast
qed

lemma gen_single_call_emitted [simp]: "gen_single_call (g\<lparr>emitted := e\<rparr>) = gen_single_call g"
  by (rule ext) (simp add: gen_single_call_def gen_synchronize_var_def gen_kernel_call_def)

lemma gen_launch_kernel_emitted [simp]: "gen_launch_kernel (g\<lparr>emitted := e\<rparr>) l i = gen_launch_kernel g l i"
  by (simp add: gen_launch_kernel_def stream_vars_def)

lemma launch_fold_returns:
  "(\<exists>e'. res_fold (\<lambda>(i, stream) g. and_then (gen_launch_kernel g stream i) (\<lambda>s. Inr (emit s g))) xs (g\<lparr>emitted := e\<rparr>)
      = Inr (g\<lparr>emitted := e'\<rparr>)) \<longleftrightarrow> (\<forall>(i, l) \<in> set xs. \<exists>s. gen_launch_kernel g l i = Inr s)"
proof (induction xs arbitrary: e)
  case (Cons x xs)
  obtain i l where x: "x = (i, l)" by fastforce
  show ?case
  proof (cases "gen_launch_kernel g l i")
    case (Inr s)
    then show ?thesis using Cons.IH[of "e @ [s]"] by (simp add: x emit_def)
  qed (simp add: x)
qed auto

lemma dict_get_raises: "dict_get d k = Inl e \<Longrightarrow> e = KeyError"
  by (simp add: dict_get_Inl)

lemma gen_launch_kernel_raises: "gen_launch_kernel g l i = Inl e \<Longrightarrow> e = KeyError"
  unfolding gen_launch_kernel_def stream_vars_def gen_single_call_def gen_kernel_call_def
  by (auto simp: and_then_eq_Inl dest!: res_map_raises dict_get_raises split: if_splits)

lemma launch_fold_raises:
  "res_fold (\<lambda>(i, stream) g. and_then (gen_launch_kernel g stream i) (\<lambda>s. Inr (emit s g))) xs g = Inl e \<Longrightarrow> e = KeyError"
  by (induction xs arbitrary: g) (auto simp: and_then_eq_Inl dest: gen_launch_kernel_raises)

lemma launch_fold_fields:
  "res_fold (\<lambda>(i, stream) g. and_then (gen_launch_kernel g stream i) (\<lambda>s. Inr (emit s g))) xs g = Inr g' \<Longrightarrow>
     \<exists>e. g' = g\<lparr>emitted := e\<rparr>"
proof (induction xs arbitrary: g)
  case (Cons x xs)
  then obtain s where s: "res_fold (\<lambda>(i, stream) g. and_then (gen_launch_kernel g stream i) (\<lambda>s. Inr (emit s g))) xs (emit s g) = Inr g'"
    by (cases x) (auto simp: and_then_eq_Inr)
  then show ?case using Cons.IH[OF s] by (auto simp: emit_def)
qed (auto intro: exI[of _ "emitted g'"])

lemma all_enumerate: "(\<forall>(i, l) \<in> set (enumerate n xs). Q l) \<longleftrightarrow> (\<forall>l \<in> set xs. Q l)"
  by (induction xs arbitrary: n) auto

lemma gen_launch_kernels_returns:
  "(\<exists>g'. gen_launch_kernels (g\<lparr>emitted := e\<rparr>) = Inr g') \<longleftrightarrow> (\<forall>v \<in> set (concat (stream_list g)). name_known g v)"
proof -
  have "(\<exists>g'. gen_launch_kernels (g\<lparr>emitted := e\<rparr>) = Inr g') \<longleftrightarrow>
      (\<forall>(i, l) \<in> set (enumerate 0 (stream_list g)). \<exists>s. gen_launch_kernel g l i = Inr s)"
    unfolding launch_fold_returns[symmetric, of _ _ e] using launch_fold_fields
    by (fastforce simp: gen_launch_kernels_def)
  also have "\<dots> \<longleftrightarrow> (\<forall>v \<in> set (concat (stream_list g)). name_known g v)"
    unfolding gen_launch_kernel_returns using all_enumerate[of 0 "stream_list g" "\<lambda>l. \<forall>v \<in> set l. name_known g v"]
    by auto
  finally show ?thesis .
qed

lemma gen_returns_when:
  "(if (\<forall>ken \<in> set (kernels g). kernel_known g ken) \<and> (\<forall>v \<in> set (concat (stream_list g)). name_known g v)
    then \<exists>t. gen fstr g = Inr t else gen fstr g = Inl KeyError)"
proof -
  obtain e1 where h: "gen_header g = g\<lparr>emitted := e1\<rparr>" by (simp add: gen_header_def emit_def)
  have kd: "(\<exists>g'. gen_kernel_def (g\<lparr>emitted := e1\<rparr>) = Inr g') \<longleftrightarrow> (\<forall>ken \<in> set (kernels g). kernel_known g ken)"
    by (simp add: gen_kernel_def_def and_then_returns res_map_returns single_kernel_def_returns kernel_known_def del: set_map)
  have kd_raises: "gen_kernel_def (g\<lparr>emitted := e1\<rparr>) = Inl e \<Longrightarrow> e = KeyError" for e
    by (auto simp: gen_kernel_def_def single_kernel_def_def and_then_eq_Inl dest!: res_map_raises dict_get_raises)
  show ?thesis
  proof (cases "gen_kernel_def (g\<lparr>emitted := e1\<rparr>)")
    case (Inl e)
    then have "\<not> (\<forall>ken \<in> set (kernels g). kernel_known g ken)" using kd by (metis Inl_Inr_False)
    then show ?thesis using Inl kd_raises by (auto simp: gen_def h)
  next
    case (Inr g1)
    then obtain e2 where g1: "g1 = g\<lparr>emitted := e2\<rparr>" by (auto simp: gen_kernel_def_def and_then_eq_Inr emit_def)
    obtain e3 where g3: "gen_struct_parameter (gen_warmup_kernel (gen_printStorage g1)) = g\<lparr>emitted := e3\<rparr>"
      by (simp add: g1 gen_struct_parameter_def gen_warmup_kernel_def gen_printStorage_def emit_def)
    have k: "\<forall>ken \<in> set (kernels g). kernel_known g ken" using kd Inr by blast
    show ?thesis
    proof (cases "gen_launch_kernels (g\<lparr>emitted := e3\<rparr>)")
      case (Inl e)
      then have "\<not> (\<forall>v \<in> set (concat (stream_list g)). name_known g v)"
        using gen_launch_kernels_returns by (metis Inl_Inr_False)
      moreover have "e = KeyError" using Inl by (auto simp: gen_launch_kernels_def dest: launch_fold_raises)
      ultimately show ?thesis using Inl Inr by (simp add: gen_def h g3)
    next
      case Inr': (Inr g4)
      then have "\<forall>v \<in> set (concat (stream_list g)). name_known g v" using gen_launch_kernels_returns by metis
      then show ?thesis using Inr Inr' k by (simp add: gen_def h g3 Let_def)
    qed
  qed
qed

text \<open>C24: The driver is generated exactly when every variable of every kernel is declared and every
  element of a stream is a synchronisation or names a known kernel; otherwise \<^verbatim>\<open>KeyError\<close> is raised, and
  no other exception.\<close>

theorem gen_returns_iff:
  "(if (\<forall>ken \<in> set (kernels g). kernel_known g ken) \<and> (\<forall>v \<in> set (concat (stream_list g)). name_known g v)
    then \<exists>t. gen fstr g = Inr t else gen fstr g = Inl KeyError)"
  by (rule gen_returns_when)

text \<open>Both on the diamond of four stencils.\<close>

definition ex_kname :: "expr \<Rightarrow> string" where
  "ex_kname c = (case c of Call _ _ _ (Some (GridAttrs t)) \<Rightarrow> ''kernel_'' @ t | _ \<Rightarrow> ''kernel_none'')"

definition ex_kargs :: "expr \<Rightarrow> string list" where
  "ex_kargs c = (if c = ex_a then [''x'', ''a''] else if c = ex_b then [''a'', ''b'']
     else if c = ex_c then [''a'', ''c''] else [''b'', ''c'', ''d''])"

definition ex_gen :: gen_main where
  "ex_gen = GenMain_init 64 4 (map (\<lambda>v. ([v], 3)) ''xabcd'') {''x''} [''d''] {}
     (map (\<lambda>c. \<lparr>kname = ex_kname c, kvariables = ex_kargs c\<rparr>) [ex_a, ex_b, ex_d, ex_c])
     (map (map (item_name ex_kname)) ex_streams) True"

lemma ex_gen_set_up: "set_up_for ex_kname ex_kargs ex_streams ex_gen"
proof -
  have c: "Run c \<in> set (concat ex_streams) \<longleftrightarrow> c \<in> {ex_a, ex_b, ex_c, ex_d}" for c
    by (auto simp: ex_streams_def)
  have "list_all (\<lambda>c. \<not> is_sync (ex_kname c) \<and> (case map_of (name2kernel ex_gen) (ex_kname c) of None \<Rightarrow> False
      | Some ken \<Rightarrow> kname ken = ex_kname c \<and> kvariables ken = ex_kargs c \<and>
          set (ex_kargs c) \<subseteq> set (dict_keys (all_variables ex_gen)))) [ex_a, ex_b, ex_c, ex_d]"
    by code_simp
  then have k: "\<not> is_sync (ex_kname c) \<and> (\<exists>ken. map_of (name2kernel ex_gen) (ex_kname c) = Some ken \<and>
      kname ken = ex_kname c \<and> kvariables ken = ex_kargs c \<and> set (ex_kargs c) \<subseteq> set (dict_keys (all_variables ex_gen)))"
    if "c \<in> {ex_a, ex_b, ex_c, ex_d}" for c
    using that by (auto split: option.splits simp del: set_map)
  show ?thesis unfolding set_up_for_def c using k
    by (auto simp: ex_gen_def GenMain_init_def init_stream_list_def simp del: set_map)
qed

theorem launch_function_text_witness:
  "\<exists>hd body tl. gen_launch_kernel ex_gen [''sync_1'', ''kernel_P_2'', ''sync_2''] 1 = Inr (text_lines (hd @ body @ tl)) \<and>
    filter (\<lambda>l. \<not> blank l) body = concat (map (instr_lines ex_kname ex_kargs) (launch_code ex_streams 1))"
proof -
  have "map (item_name ex_kname) (ex_streams ! 1) = [''sync_1'', ''kernel_P_2'', ''sync_2'']" by code_simp
  moreover have "1 < length ex_streams" by (simp add: ex_streams_def)
  ultimately show ?thesis using launch_function_text[OF ex_gen_set_up, of 1] by metis
qed

theorem gen_returns_iff_witness:
  "\<exists>t. gen (\<lambda>x n. x) ex_gen = Inr t"
proof -
  have "(\<forall>ken \<in> set (kernels ex_gen). kernel_known ex_gen ken)" "(\<forall>v \<in> set (concat (stream_list ex_gen)). name_known ex_gen v)"
    by code_simp+
  then show ?thesis using gen_returns_iff[of ex_gen "\<lambda>x n. x"] by simp
qed

end
