(* ===== verification/Py_Regex.thy ===== *)
theory Py_Regex
  imports Py_Strings
begin

text \<open>
  The part of Python's \<^verbatim>\<open>re\<close> the code generator uses: \<^verbatim>\<open>re.findall\<close> for sequences of single characters, character
  classes, lazy and greedy repetitions of the dot, and capturing groups, as a backtracking matcher.
\<close>

datatype rx = RLit char | RDot | RNonSpace | RDigit | RLazy | RGreedy | RDigits | ROpen | RClose

definition not_newline :: "char \<Rightarrow> bool" where
  "not_newline c \<longleftrightarrow> c \<noteq> CHR 0x0A"

text \<open>\<open>grp\<close> is the group being captured, reversed; \<open>caps\<close> are the finished groups.\<close>

function re_match :: "rx list \<Rightarrow> string \<Rightarrow> string \<Rightarrow> string list \<Rightarrow> (string list \<times> string) option" where
  "re_match [] s grp caps = Some (caps, s)"
| "re_match (ROpen # ps) s grp caps = re_match ps s [] caps"
| "re_match (RClose # ps) s grp caps = re_match ps s [] (caps @ [rev grp])"
| "re_match (RLit c # ps) s grp caps =
     (case s of x # xs \<Rightarrow> if x = c then re_match ps xs (x # grp) caps else None | [] \<Rightarrow> None)"
| "re_match (RDot # ps) s grp caps =
     (case s of x # xs \<Rightarrow> if not_newline x then re_match ps xs (x # grp) caps else None | [] \<Rightarrow> None)"
| "re_match (RNonSpace # ps) s grp caps =
     (case s of x # xs \<Rightarrow> if \<not> is_space x then re_match ps xs (x # grp) caps else None | [] \<Rightarrow> None)"
| "re_match (RDigit # ps) s grp caps =
     (case s of x # xs \<Rightarrow> if py_isdigit x then re_match ps xs (x # grp) caps else None | [] \<Rightarrow> None)"
| "re_match (RLazy # ps) s grp caps =
     (case re_match ps s grp caps of
        Some r \<Rightarrow> Some r
      | None \<Rightarrow> (case s of x # xs \<Rightarrow> if not_newline x then re_match (RLazy # ps) xs (x # grp) caps else None | [] \<Rightarrow> None))"
| "re_match (RGreedy # ps) s grp caps =
     (case (case s of x # xs \<Rightarrow> if not_newline x then re_match (RGreedy # ps) xs (x # grp) caps else None | [] \<Rightarrow> None) of
        Some r \<Rightarrow> Some r | None \<Rightarrow> re_match ps s grp caps)"
| "re_match (RDigits # ps) s grp caps =
     (case (case s of x # xs \<Rightarrow> if py_isdigit x then re_match (RDigits # ps) xs (x # grp) caps else None | [] \<Rightarrow> None) of
        Some r \<Rightarrow> Some r | None \<Rightarrow> re_match ps s grp caps)"
  by pat_completeness auto
termination
  by (relation "measure (\<lambda>(ps, s, grp, caps). length ps + length s)") auto

declare re_match.simps(8-10) [simp del]

definition re_lits :: "string \<Rightarrow> rx list" where
  "re_lits s = map RLit s"

text \<open>\<^verbatim>\<open>re.findall\<close>: the groups of the matches from left to right; the patterns used match no empty string.\<close>

function re_findall :: "rx list \<Rightarrow> string \<Rightarrow> string list list" where
  "re_findall ps [] = []"
| "re_findall ps (c # cs) =
     (case re_match ps (c # cs) [] [] of
        None \<Rightarrow> re_findall ps cs
      | Some (caps, rest) \<Rightarrow> caps # (if length rest \<le> length cs then re_findall ps rest else re_findall ps cs))"
  by pat_completeness auto
termination
  by (relation "measure (\<lambda>(ps, s). length s)") auto

lemma re_match_lits: "re_match (re_lits l @ ps) (l @ s) grp caps = re_match ps s (rev l @ grp) caps"
  by (induction l arbitrary: grp) (simp_all add: re_lits_def)

end
