(* ===== verification/Evaluate.thy ===== *)
theory Evaluate
  imports Py_Regex
begin

text \<open>
  \<^verbatim>\<open>relay/transform/run.py\<close>: the generated files are lowered, compiled, linked, run, measured and put away. The
  programs it starts are one parameter, \<open>tool\<close>: from the command and the files to the exit code, what is written to
  the standard streams, and the files afterwards. The arithmetic of floating point numbers is a parameter too.

  An action keeps the state when it raises: \<open>ran\<close> lists the commands started so far with their exit codes.
\<close>

section \<open>Files and programs\<close>

type_synonym fs = "string \<rightharpoonup> string"

record world =
  files :: fs
  dirs :: "string set"
  ran :: "(string list \<times> int) list"

type_synonym tool = "string list \<Rightarrow> fs \<Rightarrow> int \<times> string \<times> string \<times> fs"

type_synonym ('a, 'w) eff = "'w \<Rightarrow> 'a res \<times> 'w"

definition eff_ret :: "'a \<Rightarrow> ('a, 'w) eff" where
  "eff_ret x w = (Inr x, w)"

definition eff_raise :: "py_error \<Rightarrow> ('a, 'w) eff" where
  "eff_raise e w = (Inl e, w)"

definition eff_then :: "('a, 'w) eff \<Rightarrow> ('a \<Rightarrow> ('b, 'w) eff) \<Rightarrow> ('b, 'w) eff" where
  "eff_then m f w = (case m w of (Inl e, w) \<Rightarrow> (Inl e, w) | (Inr x, w) \<Rightarrow> f x w)"

definition eff_do :: "('w \<Rightarrow> 'w) \<Rightarrow> (unit, 'w) eff" where
  "eff_do f w = (Inr (), f w)"

fun eff_each :: "('a \<Rightarrow> (unit, 'w) eff) \<Rightarrow> 'a list \<Rightarrow> (unit, 'w) eff" where
  "eff_each f [] = eff_ret ()"
| "eff_each f (x # xs) = eff_then (f x) (\<lambda>_. eff_each f xs)"

definition path_join :: "string \<Rightarrow> string \<Rightarrow> string" where
  "path_join cwd name =
     (if py_startswith name ''/'' then name else if cwd = [] \<or> py_endswith cwd ''/'' then cwd @ name else cwd @ ''/'' @ name)"

definition base_name :: "string \<Rightarrow> string" where
  "base_name path = last (py_split path ''/'')"

text \<open>\<^verbatim>\<open>subprocess.call\<close> with the standard output and the standard error optionally in files, which are truncated first.\<close>

definition open_w :: "string option \<Rightarrow> fs \<Rightarrow> fs" where
  "open_w p f = (case p of None \<Rightarrow> f | Some path \<Rightarrow> f(path \<mapsto> []))"

definition write_to :: "string option \<Rightarrow> string \<Rightarrow> fs \<Rightarrow> fs" where
  "write_to p s f = (case p of None \<Rightarrow> f | Some path \<Rightarrow> f(path \<mapsto> s))"

definition subprocess_call :: "tool \<Rightarrow> string \<Rightarrow> string option \<Rightarrow> string option \<Rightarrow> (int, world) eff" where
  "subprocess_call tool cmd out err w =
     (let argv = py_split_ws cmd
      in case tool argv (open_w err (open_w out (files w))) of (code, so, se, fs) \<Rightarrow>
        (Inr code, w\<lparr>files := write_to err se (write_to out so fs), ran := ran w @ [(argv, code)]\<rparr>))"

definition run_or_exit :: "tool \<Rightarrow> string \<Rightarrow> string option \<Rightarrow> string option \<Rightarrow> (unit, world) eff" where
  "run_or_exit tool cmd out err =
     eff_then (subprocess_call tool cmd out err) (\<lambda>code. if code \<noteq> 0 then eff_raise (SystemExit 1) else eff_ret ())"


section \<open>The steps\<close>

record evaluate =
  ev_cwd :: string
  ev_main_name :: string
  ev_mlir_list :: "string list"
  ev_executable :: string
  ev_inline :: bool

definition Evaluate_init :: "string \<Rightarrow> string \<Rightarrow> string list \<Rightarrow> bool \<Rightarrow> evaluate res" where
  "Evaluate_init cwd main_name mlir_list inline =
     and_then (py_assert (py_endswith main_name ''.cu'')) (\<lambda>_.
       Inr \<lparr>ev_cwd = cwd, ev_main_name = main_name, ev_mlir_list = mlir_list,
         ev_executable = py_slice main_name 0 (- 3), ev_inline = inline\<rparr>)"

definition lower_flags :: string where
  "lower_flags = ''--stencil-shape-inference --stencil-storage-materialization --stencil-shape-inference --stencil-combine-to-ifelse --cse --canonicalize --convert-stencil-to-std --cse --parallel-loop-tiling=parallel-loop-tile-sizes=128,1,1 --canonicalize --test-gpu-greedy-parallel-loop-mapping --convert-parallel-loops-to-gpu --lower-affine --convert-scf-to-std --gpu-kernel-outlining --cse --canonicalize --stencil-kernel-to-cubin --cse --canonicalize --mlir-disable-threading ''"

definition lower_cmd :: "bool \<Rightarrow> string \<Rightarrow> string" where
  "lower_cmd inline path =
     (if \<not> inline then ''oec-opt --canonicalize '' else ''oec-opt --canonicalize --stencil-inlining --cse --canonicalize '') @ lower_flags @ path"

definition compile_mlir :: "tool \<Rightarrow> evaluate \<Rightarrow> string \<Rightarrow> (unit, world) eff" where
  "compile_mlir tool ev bench =
     (let p = (\<lambda>suffix. path_join (ev_cwd ev) (bench @ suffix))
      in eff_then (run_or_exit tool (lower_cmd (ev_inline ev) (p ''.mlir'')) (Some (p ''_lowered.mlir'')) None) (\<lambda>_.
         eff_then (run_or_exit tool (''mlir-translate --mlir-to-llvmir '' @ p ''_lowered.mlir'') (Some (p ''.bc'')) None) (\<lambda>_.
         eff_then (run_or_exit tool (''llc -O3 '' @ p ''.bc'' @ '' -o '' @ p ''.s'') None None) (\<lambda>_.
           run_or_exit tool (''clang -c '' @ p ''.s'' @ '' -fPIE -o '' @ p ''.o'') None None))))"

definition object_paths :: "evaluate \<Rightarrow> string list" where
  "object_paths ev = map (\<lambda>mlir. path_join (ev_cwd ev) (py_slice mlir 0 (- 5) @ ''.o'')) (ev_mlir_list ev)"

definition clean_path :: "evaluate \<Rightarrow> string list" where
  "clean_path ev = concat (map (\<lambda>mlir. map (\<lambda>suffix. path_join (ev_cwd ev) (py_slice mlir 0 (- 5) @ suffix))
     [''_lowered.mlir'', ''.bc'', ''.s'', ''.o'']) (ev_mlir_list ev))"

definition link :: "tool \<Rightarrow> evaluate \<Rightarrow> (unit, world) eff" where
  "link tool ev = run_or_exit tool (''nvcc --default-stream per-thread  -allow-unsupported-compiler -ccbin clang '' @ ev_main_name ev @ '' '' @
     py_join '' '' (object_paths ev) @ '' -L/root/new-open-earth/llvm-project/install/lib -lcuda-runtime-wrappers -lcudart -lcuda -o '' @
     ''demo-'' @ ev_executable ev) None None"

definition result_path :: "evaluate \<Rightarrow> string" where
  "result_path ev = path_join (ev_cwd ev) (''result-'' @ ev_executable ev @ ''.txt'')"

definition run_demo :: "tool \<Rightarrow> evaluate \<Rightarrow> (unit, world) eff" where
  "run_demo tool ev = run_or_exit tool (''./demo-'' @ ev_executable ev) (Some (result_path ev)) (Some (path_join (ev_cwd ev) ''error.txt''))"

text \<open>\<^verbatim>\<open>re.findall(r"time.*?(\d+\.\d+)", content)\<close>\<close>

definition time_rx :: "rx list" where
  "time_rx = re_lits ''time'' @ [RLazy, ROpen, RDigit, RDigits, RLit (CHR ''.''), RDigit, RDigits, RClose]"

definition find_times :: "string \<Rightarrow> string list" where
  "find_times content = concat (re_findall time_rx content)"

record 'f floats =
  f_parse :: "string \<Rightarrow> 'f"
  f_zero :: 'f
  f_million :: 'f
  f_add :: "'f \<Rightarrow> 'f \<Rightarrow> 'f"
  f_div :: "'f \<Rightarrow> nat \<Rightarrow> 'f"
  f_min :: "'f \<Rightarrow> 'f \<Rightarrow> 'f"
  f_max :: "'f \<Rightarrow> 'f \<Rightarrow> 'f"

definition score :: "'f floats \<Rightarrow> string list \<Rightarrow> ('f \<times> 'f \<times> 'f) res" where
  "score F l =
     (let ts = map (f_parse F) l
      in if l = [] then Inl ZeroDivisionError
         else Inr (f_div F (fold (\<lambda>t s. f_add F s t) ts (f_zero F)) (length l),
                   fold (\<lambda>t m. f_max F t m) ts (f_zero F), fold (\<lambda>t m. f_min F t m) ts (f_million F)))"

definition read_file :: "string \<Rightarrow> (string, world) eff" where
  "read_file path w = (case files w path of None \<Rightarrow> (Inl FileNotFoundError, w) | Some s \<Rightarrow> (Inr s, w))"

definition get_score :: "'f floats \<Rightarrow> evaluate \<Rightarrow> ('f \<times> 'f \<times> 'f, world) eff" where
  "get_score F ev =
     eff_then (read_file (path_join (ev_cwd ev) ''error.txt'')) (\<lambda>err.
       if err \<noteq> [] then eff_raise AssertionError
       else eff_then (read_file (result_path ev)) (\<lambda>content.
         case score F (find_times content) of Inl e \<Rightarrow> eff_raise e | Inr r \<Rightarrow> eff_ret r))"

definition remove_existing :: "string \<Rightarrow> world \<Rightarrow> world" where
  "remove_existing path w = w\<lparr>files := (files w)(path := None)\<rparr>"

definition archive :: "evaluate \<Rightarrow> string \<Rightarrow> string \<Rightarrow> world \<Rightarrow> world" where
  "archive ev log_path name w =
     (let file = path_join (ev_cwd ev) name
      in case files w file of
           None \<Rightarrow> w
         | Some s \<Rightarrow> w\<lparr>files := ((files w)(path_join log_path (base_name file) \<mapsto> s))(file := None)\<rparr>)"

definition clean :: "evaluate \<Rightarrow> (unit, world) eff" where
  "clean ev =
     (let log_path = path_join (ev_cwd ev) (ev_executable ev @ ''-log'');
          log_file = [ev_main_name ev, ''demo-'' @ ev_executable ev, ''result-'' @ ev_executable ev @ ''.txt'']
      in eff_then (eff_do (\<lambda>w. let w = fold remove_existing (clean_path ev) w in w\<lparr>dirs := insert log_path (dirs w)\<rparr>)) (\<lambda>_.
         eff_then (read_file (result_path ev)) (\<lambda>s.
           eff_do (\<lambda>w. fold (archive ev log_path) (ev_mlir_list ev @ log_file)
             (w\<lparr>files := (files w)(path_join (ev_cwd ev) ''result.txt'' \<mapsto> s)\<rparr>)))))"

definition compile_one :: "tool \<Rightarrow> evaluate \<Rightarrow> string \<Rightarrow> (unit, world) eff" where
  "compile_one tool ev mlir =
     (if py_endswith mlir ''.mlir'' then compile_mlir tool ev (py_slice mlir 0 (- 5)) else eff_raise AssertionError)"

definition evaluate_all :: "tool \<Rightarrow> 'f floats \<Rightarrow> evaluate \<Rightarrow> ('f, world) eff" where
  "evaluate_all tool F ev =
     eff_then (eff_each (compile_one tool ev) (ev_mlir_list ev)) (\<lambda>_.
     eff_then (link tool ev) (\<lambda>_.
     eff_then (run_demo tool ev) (\<lambda>_.
     eff_then (get_score F ev) (\<lambda>(avg, _, _).
     eff_then (clean ev) (\<lambda>_. eff_ret avg)))))"



section \<open>The commands\<close>

text \<open>How an action extends the list of commands: it stops at the first one that fails, and only there.\<close>

definition all_zero :: "(string list \<times> int) list \<Rightarrow> bool" where
  "all_zero l \<longleftrightarrow> (\<forall>c \<in> set l. snd c = 0)"

definition stops :: "('a, world) eff \<Rightarrow> bool" where
  "stops m \<longleftrightarrow> (\<forall>w. \<exists>l. ran (snd (m w)) = ran w @ l \<and>
     (if fst (m w) = Inl (SystemExit 1) then l \<noteq> [] \<and> all_zero (butlast l) \<and> snd (last l) \<noteq> 0 else all_zero l))"

lemma stops_quiet: "(\<And>w. ran (snd (m w)) = ran w \<and> fst (m w) \<noteq> Inl (SystemExit 1)) \<Longrightarrow> stops m"
  by (auto simp: stops_def all_zero_def)

lemma stops_then:
  assumes "stops m" "\<And>x. stops (f x)"
  shows "stops (eff_then m f)"
  unfolding stops_def
proof
  fix w
  obtain l where l: "ran (snd (m w)) = ran w @ l"
      "if fst (m w) = Inl (SystemExit 1) then l \<noteq> [] \<and> all_zero (butlast l) \<and> snd (last l) \<noteq> 0 else all_zero l"
    using assms(1) unfolding stops_def by blast
  show "\<exists>l. ran (snd (eff_then m f w)) = ran w @ l \<and>
     (if fst (eff_then m f w) = Inl (SystemExit 1) then l \<noteq> [] \<and> all_zero (butlast l) \<and> snd (last l) \<noteq> 0 else all_zero l)"
  proof (cases "m w")
    case (Pair r w1)
    show ?thesis
    proof (cases r)
      case (Inl e)
      then show ?thesis using l Pair by (auto simp: eff_then_def)
    next
      case (Inr x)
      obtain k where k: "ran (snd (f x w1)) = ran w1 @ k"
          "if fst (f x w1) = Inl (SystemExit 1) then k \<noteq> [] \<and> all_zero (butlast k) \<and> snd (last k) \<noteq> 0 else all_zero k"
        using assms(2) unfolding stops_def by blast
      have "all_zero l" using l(2) Inr Pair by simp
      with k l(1) show ?thesis
        by (intro exI[of _ "l @ k"]) (auto simp: eff_then_def Pair Inr all_zero_def butlast_append split: if_splits)
    qed
  qed
qed

lemma stops_run: "stops (run_or_exit tool cmd out err)"
  unfolding stops_def
  by (auto simp: run_or_exit_def subprocess_call_def Let_def eff_then_def eff_raise_def eff_ret_def all_zero_def split: prod.splits if_splits)

lemma stops_ret: "stops (eff_ret x)"
  by (rule stops_quiet) (simp add: eff_ret_def)

lemma stops_each: "(\<And>x. stops (f x)) \<Longrightarrow> stops (eff_each f xs)"
  by (induction xs) (auto intro: stops_then stops_ret)

lemma stops_read: "stops (read_file p)"
  by (rule stops_quiet) (simp add: read_file_def split: option.splits)

lemma ran_fold: "(\<And>x w. ran (f x w) = ran w) \<Longrightarrow> ran (fold f xs w) = ran w"
  by (induction xs arbitrary: w) auto

lemma ran_archive [simp]: "ran (archive ev lp x w) = ran w" "ran (fold (archive ev lp) xs w) = ran w"
proof -
  show *: "ran (archive ev lp x w) = ran w" for x w by (simp add: archive_def Let_def split: option.splits)
  show "ran (fold (archive ev lp) xs w) = ran w" by (rule ran_fold) (rule *)
qed

lemma ran_remove [simp]: "ran (fold remove_existing ps w) = ran w"
  by (rule ran_fold) (simp add: remove_existing_def)

lemma stops_clean: "stops (clean ev)"
  unfolding clean_def Let_def by (intro stops_then stops_read stops_quiet) (simp_all add: eff_do_def)

lemma stops_get_score: "stops (get_score F ev)"
proof -
  have "stops (case score F c of Inl e \<Rightarrow> eff_raise e | Inr r \<Rightarrow> eff_ret r)" for c
    by (rule stops_quiet) (auto simp: score_def Let_def eff_raise_def eff_ret_def split: sum.splits if_splits)
  moreover have "stops (eff_raise AssertionError)" by (rule stops_quiet) (simp add: eff_raise_def)
  ultimately show ?thesis unfolding get_score_def by (auto intro!: stops_then stops_read)
qed

lemmas stops_rules = stops_then stops_run stops_ret stops_each stops_read stops_clean stops_get_score

lemma stops_compile: "stops (compile_one tool ev mlir)"
proof -
  have "stops (eff_raise AssertionError)" by (rule stops_quiet) (simp add: eff_raise_def)
  then show ?thesis by (auto simp: compile_one_def compile_mlir_def Let_def intro!: stops_rules)
qed

text \<open>C14: \<^verbatim>\<open>Evaluate.evaluate\<close> exits with status 1 exactly when one of the programs it started failed; that program is the
  last one it started, and every program before it succeeded.\<close>

theorem evaluate_stops_at_failure:
  "\<exists>l. ran (snd (evaluate_all tool F ev w)) = ran w @ l \<and>
    (if fst (evaluate_all tool F ev w) = Inl (SystemExit 1)
     then l \<noteq> [] \<and> (\<forall>c \<in> set (butlast l). snd c = 0) \<and> snd (last l) \<noteq> 0
     else \<forall>c \<in> set l. snd c = 0)"
proof -
  have "stops (evaluate_all tool F ev)"
    unfolding evaluate_all_def link_def run_demo_def
    by (intro stops_rules stops_compile) (auto intro!: stops_rules split: prod.splits)
  then show ?thesis unfolding stops_def all_zero_def by blast
qed


text \<open>The argument lists of the programs a successful action starts.\<close>

definition starts :: "('a, world) eff \<Rightarrow> string list list \<Rightarrow> bool" where
  "starts m argvs \<longleftrightarrow> (\<forall>w x w'. m w = (Inr x, w') \<longrightarrow>
     (\<exists>l. ran w' = ran w @ l \<and> map fst l = argvs \<and> all_zero l))"

lemma starts_then:
  assumes "starts m ns" "\<And>x. starts (f x) ms"
  shows "starts (eff_then m f) (ns @ ms)"
  unfolding starts_def
proof (intro allI impI)
  fix w y w' assume r: "eff_then m f w = (Inr y, w')"
  then obtain x w1 where 1: "m w = (Inr x, w1)" "f x w1 = (Inr y, w')"
    by (auto simp: eff_then_def split: prod.splits sum.splits)
  obtain l where "ran w1 = ran w @ l" "map fst l = ns" "all_zero l" using assms(1) 1(1) unfolding starts_def by blast
  moreover obtain k where "ran w' = ran w1 @ k" "map fst k = ms" "all_zero k" using assms(2) 1(2) unfolding starts_def by blast
  ultimately show "\<exists>l. ran w' = ran w @ l \<and> map fst l = ns @ ms \<and> all_zero l"
    by (intro exI[of _ "l @ k"]) (auto simp: all_zero_def)
qed

lemma starts_run: "py_split_ws cmd = argv \<Longrightarrow> starts (run_or_exit tool cmd out err) [argv]"
  by (auto simp: starts_def run_or_exit_def subprocess_call_def Let_def eff_then_def eff_raise_def eff_ret_def all_zero_def split: prod.splits if_splits)

lemma starts_none: "(\<And>w. ran (snd (m w)) = ran w) \<Longrightarrow> starts m []"
  unfolding starts_def all_zero_def by (metis append_Nil2 empty_iff list.simps(8) list.set(1) snd_conv)

lemma starts_each: "(\<And>x. x \<in> set xs \<Longrightarrow> starts (f x) (ns x)) \<Longrightarrow> starts (eff_each f xs) (concat (map ns xs))"
  by (induction xs) (auto intro: starts_then starts_none simp: eff_ret_def)

text \<open>How a command made of words is split.\<close>

definition word :: "string \<Rightarrow> bool" where
  "word w \<longleftrightarrow> w \<noteq> [] \<and> list_all (\<lambda>c. \<not> is_space c) w"

definition no_space :: "string \<Rightarrow> bool" where
  "no_space s \<longleftrightarrow> list_all (\<lambda>c. \<not> is_space c) s"

lemma word_append: "word (s @ t) \<longleftrightarrow> no_space s \<and> no_space t \<and> (s \<noteq> [] \<or> t \<noteq> [])"
  by (auto simp: word_def no_space_def)

lemma word_path: "no_space cwd \<Longrightarrow> no_space b \<Longrightarrow> word sfx \<Longrightarrow> word (path_join cwd (b @ sfx))"
  by (auto simp: path_join_def word_def no_space_def is_space_def)

lemma split_words:
  assumes "list_all word ws"
  shows "py_split_ws (concat (map (\<lambda>w. w @ '' '') ws) @ t) = ws @ py_split_ws t"
  using assms by (induction ws) (auto simp: py_split_ws_word word_def list_all_iff)

lemma split_last: "word w \<Longrightarrow> py_split_ws w = [w]"
  using py_split_ws_join[of "[w]"] by (simp add: word_def list_all_iff)

lemma split_space: "py_split_ws (CHR '' '' # t) = py_split_ws t"
  by (simp add: py_split_ws_def is_space_def)

lemma split_joined:
  assumes "list_all word ws"
  shows "py_split_ws (py_join '' '' ws @ CHR '' '' # t) = ws @ py_split_ws t"
  using assms
proof (induction "'' ''" ws rule: py_join.induct)
  case (3 x y ys)
  then show ?case using py_split_ws_word[of x "py_join '' '' (y # ys) @ CHR '' '' # t"] by (auto simp: word_def list_all_iff)
qed (auto simp: split_space py_split_ws_word word_def list_all_iff)

lemma split_command:
  assumes "cmd = concat (map (\<lambda>w. w @ '' '') ws) @ x" and "list_all word ws" and "word x"
  shows "py_split_ws cmd = ws @ [x]"
  unfolding assms(1) split_words[OF assms(2)] split_last[OF assms(3)] ..

text \<open>The plan: what is to be run for a file \<^verbatim>\<open>b.mlir\<close>, for the driver \<^verbatim>\<open>exe.cu\<close>, and at the end.\<close>

definition lower_words :: "string list" where
  "lower_words = [''--stencil-shape-inference'', ''--stencil-storage-materialization'', ''--stencil-shape-inference'',
     ''--stencil-combine-to-ifelse'', ''--cse'', ''--canonicalize'', ''--convert-stencil-to-std'', ''--cse'',
     ''--parallel-loop-tiling=parallel-loop-tile-sizes=128,1,1'', ''--canonicalize'', ''--test-gpu-greedy-parallel-loop-mapping'',
     ''--convert-parallel-loops-to-gpu'', ''--lower-affine'', ''--convert-scf-to-std'', ''--gpu-kernel-outlining'', ''--cse'',
     ''--canonicalize'', ''--stencil-kernel-to-cubin'', ''--cse'', ''--canonicalize'', ''--mlir-disable-threading'']"

definition compile_plan :: "string \<Rightarrow> bool \<Rightarrow> string \<Rightarrow> string list list" where
  "compile_plan cwd inline b =
     [[''oec-opt'', ''--canonicalize''] @ (if inline then [''--stencil-inlining'', ''--cse'', ''--canonicalize''] else []) @
        lower_words @ [path_join cwd (b @ ''.mlir'')],
      [''mlir-translate'', ''--mlir-to-llvmir'', path_join cwd (b @ ''_lowered.mlir'')],
      [''llc'', ''-O3'', path_join cwd (b @ ''.bc''), ''-o'', path_join cwd (b @ ''.s'')],
      [''clang'', ''-c'', path_join cwd (b @ ''.s''), ''-fPIE'', ''-o'', path_join cwd (b @ ''.o'')]]"

definition link_plan :: "string \<Rightarrow> string \<Rightarrow> string list \<Rightarrow> string list" where
  "link_plan cwd exe bs =
     [''nvcc'', ''--default-stream'', ''per-thread'', ''-allow-unsupported-compiler'', ''-ccbin'', ''clang'', exe @ ''.cu''] @
     map (\<lambda>b. path_join cwd (b @ ''.o'')) bs @
     [''-L/root/new-open-earth/llvm-project/install/lib'', ''-lcuda-runtime-wrappers'', ''-lcudart'', ''-lcuda'', ''-o'', ''demo-'' @ exe]"

lemma lower_flags_words: "lower_flags = concat (map (\<lambda>w. w @ '' '') lower_words)" "list_all word lower_words"
  by code_simp+

lemma slice_stem: "s \<noteq> [] \<Longrightarrow> py_slice (b @ s) 0 (- int (length s)) = b"
  by (simp add: py_slice_def py_bound_def)

lemma endswith_stem: "py_endswith s p \<Longrightarrow> \<exists>b. s = b @ p"
  unfolding py_endswith_def by (metis append_take_drop_id)

lemma starts_compile_mlir:
  assumes "no_space (ev_cwd ev)" and "no_space b"
  shows "starts (compile_mlir tool ev b) (compile_plan (ev_cwd ev) (ev_inline ev) b)"
proof -
  let ?p = "\<lambda>s. path_join (ev_cwd ev) (b @ s)"
  have p: "word (?p ''.mlir'')" "word (?p ''_lowered.mlir'')" "word (?p ''.bc'')" "word (?p ''.s'')" "word (?p ''.o'')"
    by (rule word_path[OF assms], simp add: word_def is_space_def)+
  have w: "word ''oec-opt''" "word ''--canonicalize''" "word ''--stencil-inlining''" "word ''--cse''" "word ''mlir-translate''"
    "word ''--mlir-to-llvmir''" "word ''llc''" "word ''-O3''" "word ''-o''" "word ''clang''" "word ''-c''" "word ''-fPIE''"
    by (simp_all add: word_def is_space_def)
  have 1: "py_split_ws (lower_cmd i (?p ''.mlir'')) =
      ([''oec-opt'', ''--canonicalize''] @ (if i then [''--stencil-inlining'', ''--cse'', ''--canonicalize''] else []) @ lower_words) @ [?p ''.mlir'']" for i
    by (rule split_command) (simp_all add: lower_cmd_def lower_flags_words p w)
  have 2: "py_split_ws (''mlir-translate --mlir-to-llvmir '' @ ?p ''_lowered.mlir'') = [''mlir-translate'', ''--mlir-to-llvmir''] @ [?p ''_lowered.mlir'']"
    by (rule split_command) (simp_all add: p w)
  have 3: "py_split_ws (''llc -O3 '' @ ?p ''.bc'' @ '' -o '' @ ?p ''.s'') = [''llc'', ''-O3'', ?p ''.bc'', ''-o''] @ [?p ''.s'']"
    by (rule split_command) (simp_all add: p w)
  have 4: "py_split_ws (''clang -c '' @ ?p ''.s'' @ '' -fPIE -o '' @ ?p ''.o'') = [''clang'', ''-c'', ?p ''.s'', ''-fPIE'', ''-o''] @ [?p ''.o'']"
    by (rule split_command) (simp_all add: p w)
  note s = starts_then[OF starts_run[OF 1] starts_then[OF starts_run[OF 2] starts_then[OF starts_run[OF 3] starts_run[OF 4]]]]
  show ?thesis unfolding compile_mlir_def Let_def
    by (rule back_subst[of "starts _", OF s]) (simp add: compile_plan_def)
qed

lemma starts_link:
  assumes "no_space (ev_cwd ev)" and "no_space exe" and "list_all no_space bs" and "ev_main_name ev = exe @ ''.cu''"
    and "ev_executable ev = exe" and "ev_mlir_list ev = map (\<lambda>b. b @ ''.mlir'') bs"
  shows "starts (link tool ev) [link_plan (ev_cwd ev) exe bs]"
proof -
  let ?os = "map (\<lambda>b. path_join (ev_cwd ev) (b @ ''.o'')) bs"
  have o: "object_paths ev = ?os" using slice_stem[of "''.mlir''"] by (simp add: object_paths_def assms(6))
  have os: "list_all word ?os" using assms(1,3) word_path[of "ev_cwd ev" _ "''.o''"] by (auto simp: list_all_iff word_def is_space_def)
  have d: "word (''demo-'' @ exe)" using assms(2) by (simp add: word_def no_space_def is_space_def)
  have t: "py_split_ws (''-L/root/new-open-earth/llvm-project/install/lib -lcuda-runtime-wrappers -lcudart -lcuda -o '' @ ''demo-'' @ exe) =
      [''-L/root/new-open-earth/llvm-project/install/lib'', ''-lcuda-runtime-wrappers'', ''-lcudart'', ''-lcuda'', ''-o''] @ [''demo-'' @ exe]"
    by (rule split_command[OF _ _ d]) (simp_all add: word_def is_space_def)
  have h: "py_split_ws (concat (map (\<lambda>w. w @ '' '') [''nvcc'', ''--default-stream'', ''per-thread'']) @
        CHR '' '' # concat (map (\<lambda>w. w @ '' '') [''-allow-unsupported-compiler'', ''-ccbin'', ''clang'', exe @ ''.cu'']) @
        py_join '' '' ?os @ CHR '' '' # r) =
      [''nvcc'', ''--default-stream'', ''per-thread''] @ [''-allow-unsupported-compiler'', ''-ccbin'', ''clang'', exe @ ''.cu''] @ ?os @ py_split_ws r" for r
    using assms(2) by (subst split_words; (subst split_space, subst split_words)?)
      (simp_all add: split_joined[OF os] word_def is_space_def no_space_def)
  show ?thesis unfolding link_def
    by (rule starts_run) (use h[of "''-L/root/new-open-earth/llvm-project/install/lib -lcuda-runtime-wrappers -lcudart -lcuda -o '' @ ''demo-'' @ exe", unfolded t]
      in \<open>simp add: link_plan_def o assms(4,5)\<close>)
qed

lemma each_suffix:
  assumes "eff_each (compile_one tool ev) ms w = (Inr x, w')"
  shows "\<exists>bs. ms = map (\<lambda>b. b @ ''.mlir'') bs"
  using assms
proof (induction ms arbitrary: w)
  case (Cons m ms)
  obtain y w1 where 1: "compile_one tool ev m w = (Inr y, w1)" "eff_each (compile_one tool ev) ms w1 = (Inr x, w')"
    using Cons.prems by (auto simp: eff_then_def split: prod.splits sum.splits)
  have "py_endswith m ''.mlir''" using 1(1) by (auto simp: compile_one_def eff_raise_def split: if_splits)
  then obtain b where "m = b @ ''.mlir''" using endswith_stem by blast
  moreover obtain bs where "ms = map (\<lambda>b. b @ ''.mlir'') bs" using Cons.IH[OF 1(2)] by blast
  ultimately have "m # ms = map (\<lambda>b. b @ ''.mlir'') (b # bs)" by simp
  then show ?case by (rule exI)
qed simp

lemma starts_evaluate:
  assumes "Evaluate_init cwd (exe @ ''.cu'') (map (\<lambda>b. b @ ''.mlir'') bs) inline = Inr ev"
    and ns: "no_space cwd" "no_space exe" "list_all no_space bs"
  shows "starts (evaluate_all tool F ev) (concat (map (compile_plan cwd inline) bs) @ [link_plan cwd exe bs, [''./demo-'' @ exe]])"
proof -
  have ev: "ev_cwd ev = cwd" "ev_main_name ev = exe @ ''.cu''" "ev_mlir_list ev = map (\<lambda>b. b @ ''.mlir'') bs" "ev_inline ev = inline"
    "ev_executable ev = exe"
    using assms(1) slice_stem[of "''.cu''" exe] by (auto simp: Evaluate_init_def and_then_eq_Inr)
  have m: "starts (eff_each (compile_one tool ev) (ev_mlir_list ev)) (concat (map (\<lambda>m. compile_plan cwd inline (py_slice m 0 (- 5))) (ev_mlir_list ev)))"
  proof (rule starts_each)
    fix m assume "m \<in> set (ev_mlir_list ev)"
    then obtain b where b: "m = b @ ''.mlir''" "b \<in> set bs" by (auto simp: ev(3))
    have s: "py_slice m 0 (- 5) = b" using slice_stem[of "''.mlir''" b] b(1) by simp
    have "py_endswith m ''.mlir''" by (simp add: b(1) py_endswith_def)
    then have "compile_one tool ev m = compile_mlir tool ev b" using s by (simp add: compile_one_def)
    then show "starts (compile_one tool ev m) (compile_plan cwd inline (py_slice m 0 (- 5)))"
      unfolding s using starts_compile_mlir[of ev b tool] ns b(2) ev by (simp add: list_all_iff)
  qed
  have plan: "concat (map (\<lambda>m. compile_plan cwd inline (py_slice m 0 (- 5))) (ev_mlir_list ev)) = concat (map (compile_plan cwd inline) bs)"
    using slice_stem[of "''.mlir''"] by (simp add: ev(3) comp_def)
  have l: "starts (link tool ev) [link_plan cwd exe bs]" using starts_link[of ev exe bs tool] ns ev by simp
  have "word (''./demo-'' @ exe)" using ns(2) by (simp add: word_def no_space_def is_space_def)
  then have r: "starts (run_demo tool ev) [[''./demo-'' @ exe]]" unfolding run_demo_def ev(5) by (intro starts_run split_last)
  have g: "starts (get_score F ev) []"
    unfolding get_score_def
    by (rule starts_none) (auto simp: eff_then_def eff_raise_def eff_ret_def read_file_def split: option.splits sum.splits)
  have c: "starts (clean ev) []"
  proof (rule starts_none)
    fix w show "ran (snd (clean ev w)) = ran w"
      by (auto simp: clean_def Let_def eff_then_def eff_do_def read_file_def split: option.splits)
  qed
  have "starts (evaluate_all tool F ev) (concat (map (compile_plan cwd inline) bs) @ [link_plan cwd exe bs] @ [[''./demo-'' @ exe]] @ [] @ [] @ [])"
    unfolding evaluate_all_def case_prod_beta
    by (intro starts_then m[unfolded plan] l r g c starts_none) (simp add: eff_ret_def)
  then show ?thesis by simp
qed

text \<open>C32: The commands of an evaluation. When the names have no white space and \<^verbatim>\<open>Evaluate.evaluate\<close> returns, the driver is
  some \<^verbatim>\<open>exe.cu\<close> and every file some \<^verbatim>\<open>b.mlir\<close>; the argument lists of the programs it started are, for every file
  in the order given, those of \<^verbatim>\<open>oec-opt\<close>, \<^verbatim>\<open>mlir-translate\<close>, \<^verbatim>\<open>llc\<close> and \<^verbatim>\<open>clang\<close> on the files of that \<^verbatim>\<open>b\<close> in the working
  directory, then that of \<^verbatim>\<open>nvcc\<close> on the driver and the objects of all the files, then \<^verbatim>\<open>./demo-exe\<close> alone; and each of
  them succeeded.\<close>

theorem evaluate_commands:
  assumes "Evaluate_init cwd main_name mlir_list inline = Inr ev"
    and "no_space cwd" and "no_space main_name" and "list_all no_space mlir_list"
    and "evaluate_all tool F ev w = (Inr avg, w')"
  shows "\<exists>exe bs l. main_name = exe @ ''.cu'' \<and> mlir_list = map (\<lambda>b. b @ ''.mlir'') bs \<and>
    ran w' = ran w @ l \<and> (\<forall>c \<in> set l. snd c = 0) \<and>
    map fst l = concat (map (compile_plan cwd inline) bs) @ [link_plan cwd exe bs, [''./demo-'' @ exe]]"
proof -
  have "py_endswith main_name ''.cu''" and ml: "ev_mlir_list ev = mlir_list"
    using assms(1) by (auto simp: Evaluate_init_def and_then_eq_Inr py_assert_def split: if_splits)
  then obtain exe where exe: "main_name = exe @ ''.cu''" using endswith_stem by blast
  obtain bs where bs: "mlir_list = map (\<lambda>b. b @ ''.mlir'') bs"
    using assms(5) each_suffix[of tool ev mlir_list w] by (auto simp: evaluate_all_def ml eff_then_def split: prod.splits sum.splits)
  have "starts (evaluate_all tool F ev) (concat (map (compile_plan cwd inline) bs) @ [link_plan cwd exe bs, [''./demo-'' @ exe]])"
    by (rule starts_evaluate[OF assms(1)[unfolded exe bs] assms(2)]) (use assms(3,4) exe bs in \<open>auto simp: no_space_def list_all_iff\<close>)
  then show ?thesis using assms(5) exe bs unfolding starts_def all_zero_def by blast
qed

text \<open>A run of one file in which every program succeeds, leaves only its output, and the program prints one time.\<close>

definition ex_tool :: tool where
  "ex_tool argv f = (0, (if argv = [''./demo-a''] then ''time: 1.5'' else []), [], Map.empty)"

definition ex_floats :: "string floats" where
  "ex_floats = \<lparr>f_parse = id, f_zero = ''0'', f_million = ''M'', f_add = (@), f_div = (\<lambda>s n. s @ ''/'' @ str_of_nat n), f_min = (\<lambda>a b. a), f_max = (\<lambda>a b. a)\<rparr>"

definition ex_evaluate :: evaluate where
  "ex_evaluate = \<lparr>ev_cwd = ''/w'', ev_main_name = ''a.cu'', ev_mlir_list = [''k.mlir''], ev_executable = ''a'', ev_inline = False\<rparr>"

definition ex_world :: world where
  "ex_world = \<lparr>files = [''/w/k.mlir'' \<mapsto> []], dirs = {}, ran = []\<rparr>"

theorem evaluate_commands_witness:
  "\<exists>w'. evaluate_all ex_tool ex_floats ex_evaluate ex_world = (Inr ''01.5/1'', w') \<and>
     map fst (ran w') = compile_plan ''/w'' False ''k'' @ [link_plan ''/w'' ''a'' [''k''], [''./demo-a'']]"
proof -
  have "fst (evaluate_all ex_tool ex_floats ex_evaluate ex_world) = Inr ''01.5/1''" by code_simp
  then obtain w' where w': "evaluate_all ex_tool ex_floats ex_evaluate ex_world = (Inr ''01.5/1'', w')" by (metis prod.collapse)
  have i: "Evaluate_init ''/w'' ''a.cu'' [''k.mlir''] False = Inr ex_evaluate" by code_simp
  have ns: "no_space ''/w''" "no_space ''a.cu''" "list_all no_space [''k.mlir'']" by (simp_all add: no_space_def is_space_def)
  obtain exe bs l where
    l: "''a.cu'' = exe @ ''.cu''" "[''k.mlir''] = map (\<lambda>b. b @ ''.mlir'') bs" "ran w' = ran ex_world @ l"
      "map fst l = concat (map (compile_plan ''/w'' False) bs) @ [link_plan ''/w'' exe bs, [''./demo-'' @ exe]]"
    using evaluate_commands[OF i ns w'] by (elim exE conjE)
  have "exe @ ''.cu'' = ''a'' @ ''.cu''" "map (\<lambda>b. b @ ''.mlir'') bs = map (\<lambda>b. b @ ''.mlir'') [''k'']" using l(1,2) by simp_all
  then have "exe = ''a''" "bs = [''k'']" by (simp, cases bs, auto)
  then show ?thesis using w' l(3,4) by (simp add: ex_world_def)
qed


definition ex_failing_tool :: tool where
  "ex_failing_tool argv f = (if hd argv = ''llc'' then 1 else 0, [], [], f)"

theorem evaluate_stops_at_failure_witness:
  "\<exists>l. fst (evaluate_all ex_failing_tool ex_floats ex_evaluate ex_world) = Inl (SystemExit 1) \<and>
     ran (snd (evaluate_all ex_failing_tool ex_floats ex_evaluate ex_world)) = l \<and> l \<noteq> [] \<and> snd (last l) \<noteq> 0"
proof -
  have "fst (evaluate_all ex_failing_tool ex_floats ex_evaluate ex_world) = Inl (SystemExit 1)" by code_simp
  with evaluate_stops_at_failure[of ex_failing_tool ex_floats ex_evaluate ex_world] show ?thesis
    by (auto simp: ex_world_def)
qed

end
