(* ===== verification/Mlir_Print.thy ===== *)
theory Mlir_Print
  imports Mlir_Fuse Main_Gen Evaluate
begin

text \<open>
  The printer of \<^verbatim>\<open>relay/transform/mlir.py\<close>: the code of a call, the module given to shape inference, the kernel of
  every call, and \<^verbatim>\<open>codegen\<close>, which puts the passes together. External programs are parameters: \<open>infer\<close> is the output
  of \<^verbatim>\<open>shape-inference.sh\<close>, line by line, on a module; \<open>measure_run\<close> is \<^verbatim>\<open>Evaluate(...).evaluate()\<close>. \<open>ord\<close> is the order in which a set of
  names is iterated. Printing to the terminal is left out. The driver asked for by \<^verbatim>\<open>maingen_v1\<close> has every name it uses declared.
\<close>

section \<open>The code of a call\<close>

definition typed :: "expr \<Rightarrow> rtype res" where
  "typed e = (case checked_type e of None \<Rightarrow> Inl ValueError | Some t \<Rightarrow> Inr t)"

definition temp_type :: "mlir_gen \<Rightarrow> string" where
  "temp_type g = ''!stencil.temp<?x?x?x'' @ mg_dtype g @ ''>''"

text \<open>\<^verbatim>\<open>self.variable2name[a]\<close>, then \<^verbatim>\<open>self.fuse_name_map.get(name, name)\<close>\<close>

definition printed_name :: "mlir_gen \<Rightarrow> expr \<Rightarrow> string res" where
  "printed_name g a = and_then (dict_get (mg_variable2name g) a) (\<lambda>name. Inr (dict_get_default (mg_fuse_name_map g) name name))"

definition print_arg :: "mlir_gen \<Rightarrow> bool \<Rightarrow> expr \<Rightarrow> string res" where
  "print_arg g stream a =
     (case a of
        TupleGetItem u tv i \<Rightarrow>
          and_then (printed_name g tv) (\<lambda>name.
            Inr (if stream then py_replace name ''%'' ''%v'' @ ''_'' @ str_of_nat i else py_replace name ''%'' ''%'' @ ''#'' @ str_of_nat i))
      | _ \<Rightarrow> and_then (printed_name g a) (\<lambda>name. Inr (py_replace name ''%'' ''%'')))"

definition apply_arg :: "mlir_gen \<Rightarrow> nat \<times> string \<Rightarrow> string" where
  "apply_arg g = (\<lambda>(idx, arg).
     ''%arg'' @ str_of_int (mg_args_base g + int idx) @ '' = '' @ arg @ '' : '' @ dict_get_default (mg_data2shape g) (TagKey arg) (temp_type g))"

definition apply_header :: "string \<Rightarrow> string list \<Rightarrow> string \<Rightarrow> string" where
  "apply_header out args_list ret_type = out @ '' = stencil.apply ('' @ py_join '', '' args_list @ '') -> '' @ ret_type @ '' ''"

definition apply_output :: "string \<Rightarrow> rtype \<Rightarrow> string" where
  "apply_output name t = (case t of TupleType ts \<Rightarrow> name @ '':'' @ str_of_nat (length ts) | _ \<Rightarrow> name)"

definition apply_ret_type :: "mlir_gen \<Rightarrow> rtype \<Rightarrow> string" where
  "apply_ret_type g t =
     (case t of TupleType ts \<Rightarrow> ''('' @ py_join '', '' (replicate (length ts) (temp_type g)) @ '')'' | _ \<Rightarrow> temp_type g)"

definition call_bodies :: "mlir_gen \<Rightarrow> string \<Rightarrow> string list list res" where
  "call_bodies g tag =
     (if tag \<in> set (dict_keys (mg_tag2code g)) then and_then (tag_body g tag) (\<lambda>b. Inr [b])
      else res_map (\<lambda>sub_tag. tag_body g (''%'' @ sub_tag)) (py_split (py_replace tag ''%'' '''') ''_''))"

definition print_code :: "nat \<Rightarrow> mlir_gen \<Rightarrow> expr \<Rightarrow> bool \<Rightarrow> string res option" where
  "print_code limit g call stream =
     run_then (Some (printed_name g call)) (\<lambda>name.
     run_then (Some (typed call)) (\<lambda>t.
     run_then (Some (and_then (expr_args call) (res_map (print_arg g stream)))) (\<lambda>args.
     run_then (Some (dict_get (mg_variable2name g) call)) (\<lambda>tag.
     run_then (Some (call_bodies g tag)) (\<lambda>body_list.
     run_then (fuse_body limit g body_list call) (\<lambda>body.
     run_then (Some (var_name_in_apply body)) (\<lambda>body.
     run_then (Some (access_shape_replace body (map (\<lambda>(idx, arg). (''%arg'' @ str_of_int (mg_args_base g + int idx),
         dict_get_default (mg_data2shape g) (TagKey arg) (temp_type g))) (enumerate 0 args)))) (\<lambda>body.
       Some (Inr (apply_header (apply_output name t) (map (apply_arg g) (enumerate 0 args)) (apply_ret_type g t) @ ''{'' @ body @ ''}''))))))))))"

definition output_line :: "mlir_gen \<Rightarrow> expr list \<Rightarrow> nat \<times> string \<Rightarrow> string res" where
  "output_line g fds = (\<lambda>(i, line).
     and_then (py_nth (py_split_ws line) 1) (\<lambda>tag.
     and_then (py_nth fds (int i)) (\<lambda>var.
     and_then (case var of
         TupleGetItem u tv k \<Rightarrow> and_then (printed_name g tv) (\<lambda>name. Inr (name @ ''#'' @ str_of_nat k))
       | _ \<Rightarrow> printed_name g var) (\<lambda>new_tag.
       Inr (py_replace line tag new_tag @ nl)))))"

definition print_output :: "mlir_gen \<Rightarrow> expr \<Rightarrow> string res" where
  "print_output g func =
     (if length (mg_ret_data g) = 1 then Inr (mg_ret_data g ! 0 @ nl)
      else if mg_ret_data g = [] then Inr []
      else case func of
        Function u ps (Tuple w fs) t ats \<Rightarrow> and_then (res_map (output_line g fs) (enumerate 0 (mg_ret_data g))) (\<lambda>ls. Inr (concat ls))
      | _ \<Rightarrow> and_then (py_nth (py_split_ws (mg_ret_data g ! 0)) 1) (\<lambda>_. Inl AttributeError))"


section \<open>The arguments of the kernels\<close>

text \<open>\<^verbatim>\<open>self.program_data[0]\<close> and its fields\<close>

definition program_line :: "mlir_gen \<Rightarrow> string res" where
  "program_line g = py_nth (mg_program_data g) 0"

definition field_rx :: "rx list" where
  "field_rx = [RLit (CHR ''%''), ROpen, RLazy, RClose] @ re_lits '': !stencil'' @ [RDot] @ re_lits ''field<'' @ [ROpen, RLazy, RClose, RLit (CHR ''>'')]"

definition dim_rx :: "rx list" where
  "dim_rx = [ROpen, RDot, RClose, RLit (CHR ''x''), ROpen, RDot, RClose, RLit (CHR ''x''), ROpen, RDot, RClose, RLit (CHR ''x'')]"

definition get_dim :: "string \<Rightarrow> nat res" where
  "get_dim s = and_then (py_nth (re_findall dim_rx s) 0) (\<lambda>cs. Inr (length (filter (\<lambda>c. c = ''?'') cs)))"

definition ORIGIN_CALL_ARGS :: "mlir_gen \<Rightarrow> (string, nat) dict res" where
  "ORIGIN_CALL_ARGS g =
     and_then (program_line g) (\<lambda>line.
       res_fold (\<lambda>ele d. and_then (get_dim (ele ! 1)) (\<lambda>n. Inr (AList.update (ele ! 0) n d))) (re_findall field_rx line) [])"

definition KERNEL_ARGS :: "mlir_gen \<Rightarrow> string list res" where
  "KERNEL_ARGS g = and_then (program_line g) (\<lambda>line. Inr (map (\<lambda>ele. ele ! 0) (re_findall field_rx line)))"

definition cast_rx :: "rx list" where
  "cast_rx = [ROpen, RNonSpace, RLazy, RClose] @ re_lits '' = stencil'' @ [RDot] @ re_lits ''cast %'' @ [ROpen, RLazy, RClose, RLit (CHR ''('')]"

definition load_rx :: "rx list" where
  "load_rx = [ROpen, RNonSpace, RLazy, RClose] @ re_lits '' = stencil'' @ [RDot] @ re_lits ''load '' @ [ROpen, RLazy, RClose] @ re_lits '' :''"

definition ORIGIN_INPUT_ARGS :: "mlir_gen \<Rightarrow> string list res" where
  "ORIGIN_INPUT_ARGS g =
     (let cast2arg = fold (\<lambda>code d. case re_findall cast_rx code of [] \<Rightarrow> d | x # _ \<Rightarrow> AList.update (x ! 0) (x ! 1) d) (mg_in_code g) []
      in res_fold (\<lambda>code in_arg. case re_findall load_rx code of
           [] \<Rightarrow> Inr in_arg | x # _ \<Rightarrow> and_then (dict_get cast2arg (x ! 1)) (\<lambda>a. Inr (in_arg @ [a]))) (mg_in_code g) [])"

text \<open>The names of the results of a call and of the results it reads; the kernels call a projection \<^verbatim>\<open>v\<close> and its name.\<close>

definition call_outputs :: "mlir_gen \<Rightarrow> expr \<Rightarrow> string list res" where
  "call_outputs g call =
     and_then (printed_name g call) (\<lambda>out. and_then (typed call) (\<lambda>t.
       Inr (case t of
           TupleType ts \<Rightarrow> map (\<lambda>i. py_replace (py_replace out ''%'' '''' @ ''_'' @ str_of_nat i) ''#'' '''') [0..<length ts]
         | _ \<Rightarrow> [py_replace out ''%'' ''''])))"

definition call_inputs :: "mlir_gen \<Rightarrow> string \<Rightarrow> expr \<Rightarrow> string list res" where
  "call_inputs g v call =
     and_then (expr_args call) (\<lambda>as.
     and_then (res_map (\<lambda>a. case a of
         Var u nm t \<Rightarrow> Inr []
       | TupleGetItem u tv i \<Rightarrow> and_then (printed_name g tv) (\<lambda>name. Inr [v @ py_replace name ''%'' '''' @ ''_'' @ str_of_nat i])
       | _ \<Rightarrow> and_then (printed_name g a) (\<lambda>name. Inr [py_replace name ''%'' '''']))
       as) (\<lambda>ns. Inr (concat ns)))"

definition GET_CALL_ARGS :: "mlir_gen \<Rightarrow> expr \<Rightarrow> (string list \<times> string list) res" where
  "GET_CALL_ARGS g call =
     and_then (call_outputs g call) (\<lambda>outs. and_then (call_inputs g [] call) (\<lambda>ins.
       Inr (map ((@) ''func_'') outs, map ((@) ''func_'') ins)))"


section \<open>The kernel of a call\<close>

definition PRINT_BRA :: "int \<Rightarrow> string" where
  "PRINT_BRA n = ''['' @ str_of_int n @ '', '' @ str_of_int n @ '', '' @ str_of_int n @ '']''"

definition PRINT_ANG :: "int \<Rightarrow> string" where
  "PRINT_ANG n = ''<'' @ str_of_int n @ ''x'' @ str_of_int n @ ''x'' @ str_of_int n @ ''xf64>''"

definition kernel_cast :: "int \<Rightarrow> int \<Rightarrow> string \<Rightarrow> string" where
  "kernel_cast M H name = ''%cast_'' @ name @ '' = stencil.cast %func_'' @ name @ ''('' @ PRINT_BRA (- H) @ '' : '' @ PRINT_BRA (M + H) @ '')'' @
     '' : (!stencil.field<?x?x?xf64>) -> !stencil.field'' @ PRINT_ANG (M + 2 * H)"

definition kernel_load :: "int \<Rightarrow> int \<Rightarrow> string \<Rightarrow> string" where
  "kernel_load M H name = ''%'' @ name @ '' = stencil.load %cast_'' @ name @ '':(!stencil.field'' @ PRINT_ANG (M + 2 * H) @ '') -> !stencil.temp<?x?x?xf64>''"

text \<open>\<^verbatim>\<open>name[::-1].replace('_', '#', 1)[::-1]\<close> for a result of several.\<close>

definition kernel_store :: "int \<Rightarrow> int \<Rightarrow> string \<Rightarrow> bool \<Rightarrow> string \<Rightarrow> string" where
  "kernel_store M H shape multi name = ''stencil.store %'' @ (if multi then rev (py_replace1 (rev name) ''_'' ''#'') else name) @ '' to %cast_'' @ name @
     shape @ '': !stencil.temp<?x?x?xf64> to !stencil.field'' @ PRINT_ANG (M + 2 * H)"

definition PRINT_CALL_MLIR :: "nat \<Rightarrow> mlir_gen \<Rightarrow> expr \<Rightarrow> int \<Rightarrow> int \<Rightarrow> (expr, string) dict \<Rightarrow> string res option" where
  "PRINT_CALL_MLIR limit g call M H call_shape_infer =
     run_then (Some (call_outputs g call)) (\<lambda>outs.
     run_then (Some (call_inputs g ''v'' call)) (\<lambda>ins.
     run_then (Some (program_line g)) (\<lambda>program_data.
       let program_data = py_replace program_data ''>)'' (''>'' @ concat (map (\<lambda>name. '', %func_'' @ name @ '': !stencil.field<?x?x?xf64>'') (ins @ outs)) @ '')'')
       in run_then (print_code limit g call True) (\<lambda>code.
          run_then (Some (typed call)) (\<lambda>t.
          run_then (Some (if outs = [] then Inr [] else dict_get call_shape_infer call)) (\<lambda>shape.
            Some (Inr (concat (map (\<lambda>l. l @ nl) [''module {'', ''func @kernel_'' @ GET_CALL_TAG call @ ''('' @ last (py_split program_data ''(''),
              py_join nl (mg_cast_data g), py_join nl (map (kernel_cast M H) (ins @ outs)), py_join nl (map (kernel_load M H) ins), nl, code,
              py_join nl (map (kernel_store M H shape (case t of TupleType ts \<Rightarrow> True | _ \<Rightarrow> False)) outs), ''return'', ''}'' @ nl @ ''}''])))))))))"


section \<open>Shapes, streams and the driver\<close>

definition infer_module :: "nat \<Rightarrow> mlir_gen \<Rightarrow> expr \<Rightarrow> string res option" where
  "infer_module limit g func =
     run_then (foldr (\<lambda>call k. run_then (print_code limit g call False) (\<lambda>c. run_then k (\<lambda>cs. Some (Inr (c @ cs))))) (mg_calls g) (Some (Inr []))) (\<lambda>codes.
     run_then (Some (print_output g func)) (\<lambda>out.
       Some (Inr (''module {'' @ py_join nl (mg_program_data g) @ py_join nl (mg_cast_data g) @ codes @ out @ ''return'' @ ''}'' @ nl @ ''}''))))"

definition shape_of_line :: "string \<Rightarrow> string list" where
  "shape_of_line line =
     (if py_in ''}'' line \<and> py_in ''to'' line then [py_replace1 (py_replace (last (py_split line ''to'')) nl '''') '' '' ''''] else [])"

definition func_arg_list :: "mlir_gen \<Rightarrow> string list res" where
  "func_arg_list g =
     and_then (program_line g) (\<lambda>line. and_then (py_nth (py_split line ''('') 1) (\<lambda>s. Inr (py_split (hd (py_split s '')'')) '','')))"

definition shape_infer :: "nat \<Rightarrow> (string \<Rightarrow> string list) \<Rightarrow> mlir_gen \<Rightarrow> expr \<Rightarrow> string list res option" where
  "shape_infer limit infer g func =
     run_then (Some (func_arg_list g)) (\<lambda>_.
     run_then (infer_module limit g func) (\<lambda>m. Some (Inr (concat (map shape_of_line (infer m))))))"

definition kernel_name :: "expr \<Rightarrow> string" where
  "kernel_name call = ''kernel_'' @ GET_CALL_TAG call"

definition stream_item_name :: "expr item \<Rightarrow> string" where
  "stream_item_name it = (case it of Run c \<Rightarrow> kernel_name c | Sync i \<Rightarrow> sync_name i)"

definition stream_runs :: "expr item list list \<Rightarrow> expr list" where
  "stream_runs sl = concat (map (\<lambda>it. case it of Run c \<Rightarrow> [c] | Sync i \<Rightarrow> []) (concat sl))"

definition maingen_v1 :: "(string set \<Rightarrow> string list) \<Rightarrow> (string \<Rightarrow> nat \<Rightarrow> string) \<Rightarrow> mlir_gen \<Rightarrow> expr item list list \<Rightarrow> int \<Rightarrow> int \<Rightarrow> string res" where
  "maingen_v1 ord fstr g streamlist mesh halo =
     and_then (ORIGIN_CALL_ARGS g) (\<lambda>origin_vars.
     and_then (ORIGIN_INPUT_ARGS g) (\<lambda>real_input_vars.
     and_then (res_map (\<lambda>c. and_then (GET_CALL_ARGS g c) (\<lambda>(outs, ins). Inr (c, outs, ins))) (stream_runs streamlist)) (\<lambda>cs.
       let mid_out = set (concat (map (\<lambda>(c, outs, ins). outs) cs)); mid_in = set (concat (map (\<lambda>(c, outs, ins). ins) cs));
           out_put_vars = mid_out - mid_in; mid_vars = (mid_out \<union> mid_in) - out_put_vars;
           kernel_list = map (\<lambda>(c, outs, ins). \<lparr>kname = kernel_name c, kvariables = dict_keys origin_vars @ ins @ outs\<rparr>) cs;
           all_vars = fold (\<lambda>e. AList.update e 3) (ord (mid_vars \<union> out_put_vars)) origin_vars
       in gen fstr (GenMain_init mesh halo all_vars (set real_input_vars) (ord out_put_vars) (set (dict_keys origin_vars) - set real_input_vars)
            kernel_list (map (map stream_item_name) streamlist) (mg_output_on g)))))"

definition func_rx :: "rx list" where
  "func_rx = re_lits ''func @'' @ [ROpen, RGreedy, RClose, RLit (CHR ''('')]"

definition get_kernel_name :: "mlir_gen \<Rightarrow> string res" where
  "get_kernel_name g = and_then (program_line g) (\<lambda>line. and_then (py_nth (re_findall func_rx line) 0) (\<lambda>cs. Inr (cs ! 0)))"

text \<open>\<^verbatim>\<open>origin_mlir_run\<close>: the driver and the untouched program are handed to \<open>measure_run\<close> with their file names.\<close>

definition origin_mlir_run :: "(string set \<Rightarrow> string list) \<Rightarrow> (string \<Rightarrow> nat \<Rightarrow> string) \<Rightarrow>
    (string \<times> string \<Rightarrow> (string \<times> string) list \<Rightarrow> bool \<Rightarrow> 'p res) \<Rightarrow> mlir_gen \<Rightarrow> bool \<Rightarrow> 'p res" where
  "origin_mlir_run ord fstr measure_run g inline =
     and_then (ORIGIN_CALL_ARGS g) (\<lambda>all_vars.
     and_then (ORIGIN_INPUT_ARGS g) (\<lambda>input_vars.
     and_then (get_kernel_name g) (\<lambda>kernel.
     and_then (KERNEL_ARGS g) (\<lambda>args.
       let suffix = (if \<not> inline then ''baseline'' else ''open-earth'');
           suffix = (if mg_name g \<noteq> [] then mg_name g @ ''-'' @ suffix else suffix)
       in and_then (gen fstr (GenMain_init (mg_mesh_size g) (mg_halo_width g) all_vars (set input_vars)
            (ord (set (dict_keys all_vars) - set input_vars)) {} [\<lparr>kname = kernel, kvariables = args\<rparr>] [[kernel]] (mg_output_on g))) (\<lambda>cu.
          measure_run (str_of_int (mg_mesh_size g) @ ''-'' @ str_of_int (mg_halo_width g) @ ''-'' @ suffix @ ''.cu'', cu)
            [(kernel @ ''_'' @ suffix @ ''.mlir'', py_join nl (mg_in_code g) @ nl)] inline)))))"

definition print_kernels :: "nat \<Rightarrow> mlir_gen \<Rightarrow> int \<Rightarrow> int \<Rightarrow> (expr, string) dict \<Rightarrow> expr list \<Rightarrow> (string \<times> string) list res option" where
  "print_kernels limit g M H shapes calls =
     foldr (\<lambda>call k. run_then (PRINT_CALL_MLIR limit g call M H shapes) (\<lambda>t. run_then k (\<lambda>ks. Some (Inr ((GET_CALL_TAG call @ ''.mlir'', t) # ks)))))
       calls (Some (Inr []))"

definition codegen :: "nat \<Rightarrow> (string \<Rightarrow> string list) \<Rightarrow> (string set \<Rightarrow> string list) \<Rightarrow> (string \<Rightarrow> nat \<Rightarrow> string) \<Rightarrow>
    (string \<times> string \<Rightarrow> (string \<times> string) list \<Rightarrow> bool \<Rightarrow> 'p res) \<Rightarrow> mlir_gen \<Rightarrow> ('p \<times> expr item list list) res option" where
  "codegen limit infer ord fstr measure_run g =
     (case mg_module g of
        None \<Rightarrow> Some (Inl AttributeError)
      | Some func \<Rightarrow>
          run_then (get_call_list_mlir func) (\<lambda>calls.
          run_then (Some (reverse_variable_name func (g\<lparr>mg_calls := calls\<rparr>))) (\<lambda>g.
          run_then (Some (build_apply2code g)) (\<lambda>_.
          run_then (Some (replace_fuse_output_name g)) (\<lambda>g.
          run_then (shape_infer limit infer g func) (\<lambda>shapes.
          run_then (Some (if length shapes < length (mg_calls g) then Inl IndexError else Inr (fold (\<lambda>(c, s). AList.update c s) (zip (mg_calls g) shapes) []))) (\<lambda>call_shapes.
          run_then (case solve limit func of Inl e \<Rightarrow> Some (Inl e) | Inr None \<Rightarrow> None | Inr (Some sl) \<Rightarrow> Some (Inr sl)) (\<lambda>tmp_list.
          run_then (Some (and_then (stream_build_graph func) (generate_codengen_streamlist tmp_list))) (\<lambda>streamlist.
          run_then (Some (maingen_v1 ord fstr g streamlist (mg_mesh_size g) (mg_halo_width g))) (\<lambda>cu.
          run_then (print_kernels limit g (mg_mesh_size g) (mg_halo_width g) call_shapes (stream_runs streamlist)) (\<lambda>ks.
            Some (and_then (measure_run (str_of_int (mg_mesh_size g) @ ''-'' @ str_of_int (mg_halo_width g) @ ''-'' @ mg_name g @ ''-'' @ mg_step g @ ''.cu'', cu) ks False)
              (\<lambda>performance. Inr (performance, streamlist))))))))))))))"



section \<open>The driver of the streams\<close>

lemma fold_update_keys: "set (dict_keys (fold (\<lambda>e. AList.update e v) es d)) = set (dict_keys d) \<union> set es"
  by (induction es arbitrary: d) (simp_all add: dom_map_of_conv_image_fst[symmetric] update_conv')

lemma fold_kernels_known:
  assumes "\<forall>k \<in> set ks. P k" "\<forall>nm k. map_of d nm = Some k \<longrightarrow> P k"
  shows "map_of (fold (\<lambda>k. AList.update (kname k) k) ks d) nm = Some k \<Longrightarrow> P k"
    "nm \<in> kname ` set ks \<union> dom (map_of d) \<Longrightarrow> \<exists>k. map_of (fold (\<lambda>k. AList.update (kname k) k) ks d) nm = Some k"
proof -
  show "P k" if "map_of (fold (\<lambda>k. AList.update (kname k) k) ks d) nm = Some k"
    using assms that
  proof (induction ks arbitrary: d)
    case (Cons a ks)
    have "\<forall>nm k. map_of (AList.update (kname a) a d) nm = Some k \<longrightarrow> P k" using Cons.prems(1,2) by (auto simp: update_conv')
    then show ?case using Cons.IH[of "AList.update (kname a) a d"] Cons.prems(1,3) by simp
  qed simp
  show "\<exists>k. map_of (fold (\<lambda>k. AList.update (kname k) k) ks d) nm = Some k" if "nm \<in> kname ` set ks \<union> dom (map_of d)"
    using that
  proof (induction ks arbitrary: d)
    case (Cons a ks)
    have "nm \<in> kname ` set ks \<union> dom (map_of (AList.update (kname a) a d))" using Cons.prems by (auto simp: update_conv')
    from Cons.IH[OF this] show ?case by simp
  qed auto
qed

lemma stream_runs_iff: "c \<in> set (stream_runs sl) \<longleftrightarrow> Run c \<in> set (concat sl)"
  by (force simp: stream_runs_def split: item.splits)

text \<open>C34: \<^verbatim>\<open>maingen_v1\<close> writes a driver whenever it finds the fields of the program and the arguments of every scheduled call: every
  variable a kernel takes is declared and every stream element is a synchronisation or a kernel of the list, so that the
  \<^verbatim>\<open>KeyError\<close> of the driver generator cannot occur. \<open>ord\<close> lists a finite set in any order.\<close>

theorem maingen_v1_returns:
  assumes "\<forall>S. finite S \<longrightarrow> set (ord S) = S"
  shows "(\<exists>t. maingen_v1 ord fstr g sl mesh halo = Inr t) \<longleftrightarrow>
    (\<exists>v. ORIGIN_CALL_ARGS g = Inr v) \<and> (\<exists>v. ORIGIN_INPUT_ARGS g = Inr v) \<and> (\<forall>c \<in> set (stream_runs sl). \<exists>p. GET_CALL_ARGS g c = Inr p)"
proof -
  let ?get = "\<lambda>c. and_then (GET_CALL_ARGS g c) (\<lambda>(outs, ins). Inr (c, outs, ins))"
  have get: "(\<exists>cs. res_map ?get (stream_runs sl) = Inr cs) \<longleftrightarrow> (\<forall>c \<in> set (stream_runs sl). \<exists>p. GET_CALL_ARGS g c = Inr p)"
    unfolding res_map_returns by (auto simp: and_then_eq_Inr)
  have "\<exists>t. maingen_v1 ord fstr g sl mesh halo = Inr t"
    if ov: "ORIGIN_CALL_ARGS g = Inr ov" "ORIGIN_INPUT_ARGS g = Inr iv" "res_map ?get (stream_runs sl) = Inr cs" for ov iv cs
  proof -
    define mo where "mo = set (concat (map (\<lambda>(c, outs, ins). outs) cs))"
    define mi where "mi = set (concat (map (\<lambda>(c, outs, ins). ins) cs))"
    define ks where "ks = map (\<lambda>(c, outs, ins). \<lparr>kname = kernel_name c, kvariables = dict_keys ov @ ins @ outs\<rparr>) cs"
    define av where "av = fold (\<lambda>e. AList.update e 3) (ord ((mo \<union> mi) - (mo - mi) \<union> (mo - mi))) ov"
    let ?m = "GenMain_init mesh halo av (set iv) (ord (mo - mi)) (set (dict_keys ov) - set iv) ks (map (map stream_item_name) sl) (mg_output_on g)"
    have "finite mo" "finite mi" unfolding mo_def mi_def by (rule finite_set)+
    then have keys: "set (dict_keys av) = set (dict_keys ov) \<union> mo \<union> mi" using assms unfolding av_def fold_update_keys by auto
    have k: "kernel_known ?m ken" if "ken \<in> set ks" for ken
      using that keys by (fastforce simp: kernel_known_def GenMain_init_def ks_def mo_def mi_def)
    have "\<exists>a b. (stream_runs sl ! i, a, b) = cs ! i" if "i < length (stream_runs sl)" for i
      using ov(3) that by (simp add: res_map_eq_Inr and_then_eq_Inr) blast
    moreover have "length cs = length (stream_runs sl)" using ov(3) by (simp add: res_map_eq_Inr)
    ultimately have "map fst cs = stream_runs sl" by (intro nth_equalityI) (simp, metis fst_conv length_map nth_map)
    then have "set (stream_runs sl) = fst ` set cs" by (metis set_map)
    moreover have "kname (case x of (c, outs, ins) \<Rightarrow> \<lparr>kname = kernel_name c, kvariables = dict_keys ov @ ins @ outs\<rparr>) = kernel_name (fst x)" for x
      by (simp add: case_prod_beta)
    ultimately have names: "kname ` set ks = kernel_name ` set (stream_runs sl)" by (simp add: ks_def image_image)
    have "name_known ?m v" if v: "v \<in> set (concat (map (map stream_item_name) sl))" for v
    proof -
      obtain it where it: "it \<in> set (concat sl)" "v = stream_item_name it" using v by auto
      show ?thesis
      proof (cases it)
        case (Run c)
        then have "v \<in> kname ` set ks" using it names by (auto simp: stream_item_name_def stream_runs_iff)
        then obtain ken where "map_of (name2kernel ?m) v = Some ken" using fold_kernels_known(2)[of ks _ "[]" v] k by (auto simp: GenMain_init_def)
        moreover have "kernel_known ?m ken" if "map_of (name2kernel ?m) v = Some ken" for ken
          using fold_kernels_known(1)[of ks "kernel_known ?m" "[]" v ken] k that by (simp add: GenMain_init_def)
        ultimately show ?thesis by (simp add: name_known_def)
      qed (simp add: it(2) stream_item_name_def name_known_def)
    qed
    then have "\<exists>t. gen fstr ?m = Inr t" using gen_returns_when[of ?m fstr] k by (simp add: GenMain_init_def)
    then show ?thesis using ov by (simp add: maingen_v1_def Let_def mo_def mi_def ks_def av_def case_prod_beta)
  qed
  then show ?thesis using get by (auto simp: maingen_v1_def and_then_eq_Inr)
qed


text \<open>One stencil over one field.\<close>

definition ex_driver :: mlir_gen where
  "ex_driver = (MLIRCodeGen 64 8 False)\<lparr>mg_variable2name := [(ex_a, ''%3'')],
     mg_program_data := [''func @k(%arg0: !stencil.field<?x?x?xf64>) {'']\<rparr>"

theorem maingen_v1_returns_witness:
  "\<exists>t. maingen_v1 sorted_list_of_set (\<lambda>x n. x) ex_driver [[Run ex_a, Sync 1]] 64 8 = Inr t"
proof -
  have "case ORIGIN_CALL_ARGS ex_driver of Inr v \<Rightarrow> v = [(''arg0'', 3)] | Inl _ \<Rightarrow> False"
    "case ORIGIN_INPUT_ARGS ex_driver of Inr v \<Rightarrow> v = [] | Inl _ \<Rightarrow> False"
    "case GET_CALL_ARGS ex_driver ex_a of Inr v \<Rightarrow> v = ([''func_3''], []) | Inl _ \<Rightarrow> False"
    by code_simp+
  moreover have "stream_runs [[Run ex_a, Sync 1]] = [ex_a]" by (simp add: stream_runs_def)
  ultimately show ?thesis
    using maingen_v1_returns[of sorted_list_of_set "\<lambda>x n. x" ex_driver "[[Run ex_a, Sync 1]]" 64 8] by (auto split: sum.splits)
qed

end
