(* ===== verification/Fusion_Search.thy ===== *)
theory Fusion_Search
  imports Fusion_Step
begin

text \<open>
  The exclusions, the choice of the pair and the whole loop of \<^verbatim>\<open>NodeAutoFusion\<close>: two calls with a call
  between them are excluded, so the pair that is chosen can be contracted, and the loop keeps the
  meaning of the main function.
\<close>

section \<open>The exclusions\<close>

abbreviation call_edges_of :: "expr list \<Rightarrow> (expr \<times> expr) set" where
  "call_edges_of cl \<equiv> dep_edges (set cl) (call_depends arg_depend_mlir)"

text \<open>Adding an edge to the set-valued graph.\<close>

lemma naf_add_edge_ok:
  assumes "call \<in> set (dict_keys g)" and "src \<in> set (dict_keys g)"
  shows "\<exists>g'. naf_add_edge call src g = Inr g' \<and> dict_keys g' = dict_keys g \<and>
    (\<forall>m. set (node_inputs g' m) = set (node_inputs g m) \<union> (if m = call then {src} else {})) \<and>
    (\<forall>m. set (node_outputs g' m) = set (node_outputs g m) \<union> (if m = src then {call} else {}))"
proof -
  obtain r where r: "map_of g call = Some r" using dict_key_Some[OF assms(1)] by blast
  obtain r2 where r2: "map_of g src = Some r2" using dict_key_Some[OF assms(2)] by blast
  have "dict_keys (AList.update call (r\<lparr>inputs := add_new src (inputs r)\<rparr>) g) = dict_keys g"
    using assms(1) by (simp add: dict_keys_update_same)
  then show ?thesis
    using r r2 assms(2)
    by (cases "call = src")
       (auto simp: naf_add_edge_def dict_get_def update_conv' node_inputs_def node_outputs_def
          dict_keys_update_same simp del: set_map)
qed

lemma naf_add_edge_KeyError:
  assumes "src \<notin> set (dict_keys g)"
  shows "naf_add_edge call src g \<noteq> Inr g'"
proof
  assume "naf_add_edge call src g = Inr g'"
  then obtain r r2 where "map_of g call = Some r" "map_of (AList.update call (r\<lparr>inputs := add_new src (inputs r)\<rparr>) g) src = Some r2"
    by (auto simp: naf_add_edge_def Let_def and_then_eq_Inr dict_get_Inr)
  then show False using assms by (auto simp: update_conv' split: if_splits dest!: map_of_key simp del: set_map)
qed

lemma naf_add_arg_depend:
  "naf_add_arg call arg g = (case arg_depend_mlir arg of None \<Rightarrow> Inr g | Some src \<Rightarrow> naf_add_edge call src g)"
  by (cases arg) (simp_all add: naf_add_arg_def)

definition graph_has :: "expr io_graph \<Rightarrow> expr list \<Rightarrow> (expr \<Rightarrow> expr set) \<Rightarrow> bool" where
  "graph_has g cl dep \<longleftrightarrow> dict_keys g = cl \<and> (\<forall>m. set (node_inputs g m) = dep m) \<and> (\<forall>m. set (node_outputs g m) = {c. m \<in> dep c}) \<and>
     (\<forall>m. dep m \<subseteq> set cl)"

lemma graph_has_cong: "graph_has g cl dep \<Longrightarrow> (\<And>c. dep c = dep' c) \<Longrightarrow> graph_has g cl dep'"
  by (simp add: graph_has_def)

lemma naf_add_args_ok:
  assumes "graph_has g cl dep" and "c \<in> set cl"
    and "res_fold (naf_add_arg c) args g = Inr g'"
  shows "graph_has g' cl (dep(c := dep c \<union> set (List.map_filter arg_depend_mlir args)))"
  using assms(1,3)
proof (induction args arbitrary: g dep)
  case (Cons x args)
  then obtain g1 where g1: "naf_add_arg c x g = Inr g1" "res_fold (naf_add_arg c) args g1 = Inr g'" by (auto simp: and_then_eq_Inr)
  show ?case
  proof (cases "arg_depend_mlir x")
    case None
    then have "g1 = g" using g1(1) by (simp add: naf_add_arg_depend)
    then show ?thesis using Cons.IH[OF Cons.prems(1)] g1(2) None by (simp add: map_filter_simps)
  next
    case (Some y)
    then have e: "naf_add_edge c y g = Inr g1" using g1(1) by (simp add: naf_add_arg_depend)
    have k: "dict_keys g = cl" using Cons.prems(1) by (simp add: graph_has_def)
    then have y: "y \<in> set cl" using naf_add_edge_KeyError[of y g c g1] e by auto
    have "graph_has g1 cl (dep(c := insert y (dep c)))"
      using naf_add_edge_ok[of c g y] e y k assms(2) Cons.prems(1) unfolding graph_has_def by auto
    from Cons.IH[OF this g1(2)] show ?thesis by (rule graph_has_cong) (auto simp: Some map_filter_simps)
  qed
qed simp

lemma naf_graph_ok:
  assumes "distinct cl" and "naf_graph cl = Inr g"
  shows "graph_has g cl (\<lambda>c. if c \<in> set cl then call_depends arg_depend_mlir c else {})"
proof -
  have fold: "graph_has g' cl (\<lambda>c. if c \<in> set ns then call_depends arg_depend_mlir c \<union> dep c else dep c)"
    if "graph_has g0 cl dep" "set ns \<subseteq> set cl" "distinct ns"
      "res_fold (\<lambda>call. res_fold (naf_add_arg call) (call_args call)) ns g0 = Inr g'" for ns g0 g' dep
    using that
  proof (induction ns arbitrary: g0 dep)
    case (Cons c ns)
    then obtain g1 where g1: "res_fold (naf_add_arg c) (call_args c) g0 = Inr g1"
      "res_fold (\<lambda>call. res_fold (naf_add_arg call) (call_args call)) ns g1 = Inr g'" by (auto simp: and_then_eq_Inr)
    have "graph_has g1 cl (dep(c := dep c \<union> call_depends arg_depend_mlir c))"
      using naf_add_args_ok[OF Cons.prems(1) _ g1(1)] Cons.prems(2) by (simp add: call_depends_def)
    note IH = Cons.IH[OF this _ _ g1(2)]
    show ?case by (rule graph_has_cong[OF IH]) (use Cons.prems(2,3) in auto)
  qed simp
  have "graph_has (empty_graph cl) cl (\<lambda>_. {})"
    using empty_graph_spec[OF assms(1)] by (simp add: graph_has_def)
  from fold[OF this subset_refl assms(1) assms(2)[unfolded naf_graph_def]] show ?thesis
    by (rule graph_has_cong) auto
qed

lemma find_father_sound:
  assumes "find_father k g n = Inr r"
  shows "set r = ancestors g n"
  using assms
proof (induction k arbitrary: n r)
  case (Suc k)
  then obtain fs rs where fs: "map_of g n = Some fs" and rs: "res_map (find_father k g) fs = Inr rs" and r: "r = fs @ concat rs"
    by (auto simp: and_then_eq_Inr dict_get_Inr)
  have n: "n \<in> set (dict_keys g)" using fs by (rule map_of_key)
  have "set (rs ! i) = ancestors g (fs ! i)" if "i < length fs" for i
    using rs that Suc.IH by (simp add: res_map_eq_Inr)
  moreover have "length rs = length fs" using rs by (simp add: res_map_eq_Inr)
  ultimately have "set (concat rs) = (\<Union>f \<in> set fs. ancestors g f)"
    by (auto simp: set_conv_nth[of rs] set_conv_nth[of fs])
  then show ?case using ancestors_unfold[OF n] r fs by (simp add: adj_def)
qed simp

lemma output_dict_adj [simp]: "adj (output_dict g) n = set (node_outputs g n)"
  by (auto simp: adj_def output_dict_def node_outputs_def map_of_map_snd split: option.splits)

lemma graph_has_edges:
  assumes "graph_has g cl (\<lambda>c. if c \<in> set cl then call_depends arg_depend_mlir c else {})"
  shows "adj_edges (input_dict g) = call_edges_of cl" "adj_edges (output_dict g) = (call_edges_of cl)\<inverse>"
    "\<forall>c \<in> set cl. call_depends arg_depend_mlir c \<subseteq> set cl"
proof -
  have g: "dict_keys g = cl" "\<And>m. set (node_inputs g m) = (if m \<in> set cl then call_depends arg_depend_mlir m else {})"
    "\<And>m. set (node_outputs g m) = {c \<in> set cl. m \<in> call_depends arg_depend_mlir c}"
    "\<forall>c \<in> set cl. call_depends arg_depend_mlir c \<subseteq> set cl"
    using assms unfolding graph_has_def by (auto split: if_splits)
  show "adj_edges (input_dict g) = call_edges_of cl" using g by (auto simp: dep_edges_def simp del: set_map)
  show "adj_edges (output_dict g) = (call_edges_of cl)\<inverse>" using g by (auto simp: dep_edges_def simp del: set_map)
  show "\<forall>c \<in> set cl. call_depends arg_depend_mlir c \<subseteq> set cl" by (rule g(4))
qed

definition between :: "expr list \<Rightarrow> expr \<Rightarrow> expr \<Rightarrow> bool" where
  "between cl a b \<longleftrightarrow> (\<exists>c \<in> set cl. (a, c) \<in> (call_edges_of cl)\<^sup>+ \<and> (c, b) \<in> (call_edges_of cl)\<^sup>+)"

lemma build_depence_ok:
  assumes "distinct cl" and "build_depence limit cl = Inr dg" and "c \<in> set cl"
  shows "\<exists>ps cs. map_of dg c = Some (ps, cs) \<and> set ps = {p. (p, c) \<in> (call_edges_of cl)\<^sup>+} \<and> set cs = {q. (c, q) \<in> (call_edges_of cl)\<^sup>+}"
    and "\<forall>c \<in> set cl. call_depends arg_depend_mlir c \<subseteq> set cl"
proof -
  let ?h = "\<lambda>g node. and_then (find_father limit (input_dict g) node) (\<lambda>fs. and_then (find_father limit (output_dict g) node) (\<lambda>cs. Inr (node, fs, cs)))"
  obtain g where g: "naf_graph cl = Inr g" and dg: "res_map (?h g) (dict_keys g) = Inr dg"
    using assms(2) by (auto simp: build_depence_def and_then_eq_Inr)
  note has = naf_graph_ok[OF assms(1) g]
  note E = graph_has_edges[OF has]
  have k: "dict_keys g = cl" using has by (simp add: graph_has_def)
  show "\<forall>c \<in> set cl. call_depends arg_depend_mlir c \<subseteq> set cl" by (rule E(3))
  have dl: "length dg = length cl" "\<forall>i < length cl. ?h g (cl ! i) = Inr (dg ! i)" using dg by (simp_all add: k res_map_eq_Inr)
  obtain i where i: "i < length cl" "c = cl ! i" using assms(3) by (auto simp: in_set_conv_nth)
  obtain ps cs where p: "find_father limit (input_dict g) c = Inr ps" "find_father limit (output_dict g) c = Inr cs" "dg ! i = (c, ps, cs)"
    using dl(2) i by (auto simp: and_then_eq_Inr)
  have "dict_keys dg = cl"
  proof (rule nth_equalityI)
    fix j assume "j < length (dict_keys dg)"
    then have j: "j < length dg" "?h g (cl ! j) = Inr (dg ! j)" using dl by simp_all
    then show "dict_keys dg ! j = cl ! j" by (cases "dg ! j") (auto simp: and_then_eq_Inr)
  qed (simp add: dl)
  then have "map_of dg c = Some (ps, cs)" using p(3) i dl(1) assms(1) by (metis map_of_eq_Some_iff nth_mem)
  moreover have "set ps = {p. (p, c) \<in> (call_edges_of cl)\<^sup>+}" using find_father_sound[OF p(1)] E(1) by (simp add: ancestors_def)
  moreover have "set cs = {q. (c, q) \<in> (call_edges_of cl)\<^sup>+}"
    using find_father_sound[OF p(2)] E(2) by (simp add: ancestors_def trancl_converse)
  ultimately show "\<exists>ps cs. map_of dg c = Some (ps, cs) \<and> set ps = {p. (p, c) \<in> (call_edges_of cl)\<^sup>+} \<and> set cs = {q. (c, q) \<in> (call_edges_of cl)\<^sup>+}"
    by blast
qed

lemma analysis_exclusion_ok:
  assumes "distinct cl" and "analysis_exclusion limit cl = Inr ex"
  shows "(a, b) \<in> ex \<longleftrightarrow> (a = b \<and> a \<in> set cl) \<or> between cl a b \<or> between cl b a"
    and "cl \<noteq> [] \<Longrightarrow> \<forall>c \<in> set cl. call_depends arg_depend_mlir c \<subseteq> set cl"
proof -
  obtain dg where dg: "build_depence limit cl = Inr dg" and fo: "res_fold (exclude_around dg) cl {} = Inr ex"
    using assms(2) by (auto simp: analysis_exclusion_def and_then_eq_Inr)
  note bd = build_depence_ok[OF assms(1) dg]
  let ?E = "(call_edges_of cl)\<^sup>+"
  let ?ex = "\<lambda>ns. {(a, b). (a = b \<and> a \<in> set ns) \<or> (\<exists>c \<in> set ns. (a, c) \<in> ?E \<and> (c, b) \<in> ?E) \<or> (\<exists>c \<in> set ns. (b, c) \<in> ?E \<and> (c, a) \<in> ?E)}"
  have "ex' = ex0 \<union> ?ex ns" if "set ns \<subseteq> set cl" "res_fold (exclude_around dg) ns ex0 = Inr ex'" for ns ex0 ex'
    using that
  proof (induction ns arbitrary: ex0)
    case (Cons c ns)
    obtain ps cs where pc: "map_of dg c = Some (ps, cs)" "set ps = {p. (p, c) \<in> ?E}" "set cs = {q. (c, q) \<in> ?E}"
      using bd(1)[of c] Cons.prems(1) by auto
    have "res_fold (exclude_around dg) ns (insert (c, c) ex0 \<union> set (List.product ps cs) \<union> set (List.product cs ps)) = Inr ex'"
      using Cons.prems(2) exclude_around_def[of dg c] pc(1) by (simp add: dict_get_def)
    from Cons.IH[OF _ this] Cons.prems(1) show ?case by (auto simp: pc(2,3))
  qed auto
  from this[OF subset_refl fo] show "(a, b) \<in> ex \<longleftrightarrow> (a = b \<and> a \<in> set cl) \<or> between cl a b \<or> between cl b a"
    by (auto simp: between_def)
  show "cl \<noteq> [] \<Longrightarrow> \<forall>c \<in> set cl. call_depends arg_depend_mlir c \<subseteq> set cl" using bd(2) by (cases cl) auto
qed



section \<open>A pair that is not excluded can be contracted\<close>

lemma edges_size: "(a, b) \<in> (call_edges_of cl)\<^sup>+ \<Longrightarrow> size a < size b"
proof (induction rule: trancl_induct)
  case (base y)
  then show ?case using mlir_dep.depends_size by (auto simp: dep_edges_def)
next
  case (step y z)
  then have "size y < size z" using mlir_dep.depends_size by (auto simp: dep_edges_def)
  then show ?case using step.IH by simp
qed

lemma call_depends_arg: "x \<in> set (call_args c) \<Longrightarrow> arg_depend_mlir x = Some y \<Longrightarrow> y \<in> call_depends arg_depend_mlir c"
  by (auto simp: call_depends_def map_filter_def image_iff intro!: bexI[of _ x])

text \<open>A call inside an argument reaches the call the argument is taken from.\<close>

lemma inside_arg:
  assumes calls: "\<forall>c \<in> set cl. is_Call c \<and> call_depends arg_depend_mlir c \<subseteq> set cl \<and> list_all tensor_typed (call_args c)"
  shows "tensor_typed x \<Longrightarrow> \<forall>y. arg_depend_mlir x = Some y \<longrightarrow> y \<in> set cl \<Longrightarrow> z \<in> outer x \<Longrightarrow> is_Call z \<Longrightarrow>
    outer_ok P x \<Longrightarrow> \<exists>y \<in> set cl. arg_depend_mlir x = Some y \<and> (z = y \<or> (z, y) \<in> (call_edges_of cl)\<^sup>+)"
proof (induction "size x" arbitrary: x rule: less_induct)
  case less
  have call: "z = y \<or> (z, y) \<in> (call_edges_of cl)\<^sup>+" if y: "y \<in> set cl" "z \<in> outer y" "size y \<le> size x" "outer_ok P y" for y
  proof (cases "z = y")
    case False
    obtain u f as a where yc: "y = Call u f as a" using calls y(1) by (cases y) auto
    obtain k where k: "k \<in> set as" "z \<in> outer k" using y(2) False outer_unfold[of z y] yc by auto
    have kd: "\<forall>w. arg_depend_mlir k = Some w \<longrightarrow> w \<in> set cl"
      using calls y(1) call_depends_arg[of k y] k(1) yc by auto
    have "tensor_typed k" "outer_ok P k" using calls y k(1) yc by (auto simp: list_all_iff)
    moreover have "size k < size x" using size_call_arg[of k y] k(1) yc y(3) by simp
    ultimately obtain w where w: "w \<in> set cl" "arg_depend_mlir k = Some w" "z = w \<or> (z, w) \<in> (call_edges_of cl)\<^sup>+"
      using less.hyps[of k] kd k(2) less.prems(4) by blast
    have "(w, y) \<in> call_edges_of cl" using call_depends_arg[of k y w] w(2) k(1) yc y(1) by (simp add: dep_edges_def)
    then show ?thesis using w(3) by (auto intro: trancl_into_trancl)
  qed simp
  show ?case
  proof (cases x)
    case (Call u f as a)
    then have "x \<in> set cl" "arg_depend_mlir x = Some x" using less.prems(2) by auto
    then show ?thesis using call[of x] less.prems(3,5) by auto
  next
    case (TupleGetItem u tv i)
    then have tv: "tv \<in> set cl" "arg_depend_mlir x = Some tv" using less.prems(2) by auto
    have "z \<noteq> x" using less.prems(4) TupleGetItem by auto
    then have "z \<in> outer tv" using less.prems(3) outer_unfold[of z x] TupleGetItem by simp
    moreover have "outer_ok P tv" using less.prems(5) TupleGetItem by simp
    ultimately show ?thesis using call[of tv] tv TupleGetItem by auto
  next
    case (Tuple u es)
    then show ?thesis using less.prems(1) by (auto simp: tensor_typed_def split: option.splits)
  qed (use less.prems(3-5) outer_unfold[of z x] in auto)
qed

lemma not_excluded_separated:
  assumes main: "main_ok ps body n" and cl: "set cl = {c \<in> outer body. is_Call c}"
    and closed: "\<forall>c \<in> set cl. call_depends arg_depend_mlir c \<subseteq> set cl"
    and c: "c1 \<in> set cl" "c2 \<in> set cl" and nb: "\<not> between cl c1 c2" "\<not> between cl c2 c1"
  shows "separated c1 c2"
  unfolding separated_def
proof (rule ballI, rule ccontr)
  fix x assume x: "x \<in> set (init_args [c1, c2])" and no: "\<not> (c1 \<notin> outer x \<and> c2 \<notin> outer x)"
  obtain d where d: "d \<in> {c1, c2}" "x \<in> set (call_args d)" "\<not> inner_arg [c1, c2] x" using x by (auto simp: set_init_args)
  obtain z where z: "z \<in> {c1, c2}" "z \<in> outer x" using no by blast
  have dcl: "d \<in> set cl" "is_Call d" "is_Call z" using d(1) z(1) c cl by auto
  have calls: "\<forall>c \<in> set cl. is_Call c \<and> call_depends arg_depend_mlir c \<subseteq> set cl \<and> list_all tensor_typed (call_args c)"
    using closed cl outer_call_ok(2)[OF main] by auto
  have "d \<in> outer body" using dcl(1) cl by simp
  note do = outer_call_ok[OF main this dcl(2)]
  have "outer_ok (set ps) x \<and> tensor_typed x"
    using do(1,2) d(2) by (cases d rule: expr.exhaust) (auto simp: list_all_iff)
  moreover have "\<forall>y. arg_depend_mlir x = Some y \<longrightarrow> y \<in> set cl" using closed dcl(1) call_depends_arg[OF d(2)] by blast
  ultimately obtain y where y: "y \<in> set cl" "arg_depend_mlir x = Some y" "z = y \<or> (z, y) \<in> (call_edges_of cl)\<^sup>+"
    using inside_arg[OF calls, of x z] z(2) dcl(3) by blast
  have yd: "(y, d) \<in> (call_edges_of cl)\<^sup>+"
    using call_depends_arg[OF d(2) y(2)] dcl(1) by (auto simp: dep_edges_def intro: r_into_trancl)
  have "z \<noteq> y"
  proof
    assume "z = y"
    then have "x = z \<or> (\<exists>u i. x = TupleGetItem u z i)" using y(2) by (cases x) auto
    then show False using d(3) z(1) by (auto simp: inner_arg_def skip_arg_def)
  qed
  then have zy: "(z, y) \<in> (call_edges_of cl)\<^sup>+" using y(3) by blast
  then have "size z < size d" using edges_size[OF zy] edges_size[OF yd] by simp
  moreover have "between cl z d" using zy yd y(1) by (auto simp: between_def)
  ultimately show False using nb d(1) z(1) by auto
qed



section \<open>The pair that is chosen\<close>

lemma better_pairs:
  assumes "res_fold (\<lambda>(a, b). better_pair sd a b) xs (fp0, ms0) = Inr (fp, ms)"
    and "\<And>a b. (a, b) \<in> set xs \<Longrightarrow> \<exists>d. map_of sd a = Some d \<and> map_of d b = Some (sc (a, b))"
  shows "((fp, ms) = (fp0, ms0) \<and> (\<forall>p \<in> set xs. sc p \<le> ms0)) \<or>
    (\<exists>ys p zs. xs = ys @ p # zs \<and> fp = Some p \<and> ms = sc p \<and> ms0 < ms \<and> (\<forall>q \<in> set ys. sc q < ms) \<and> (\<forall>q \<in> set zs. sc q \<le> ms))"
  using assms
proof (induction xs arbitrary: fp0 ms0)
  case (Cons x xs)
  obtain a b where x: "x = (a, b)" by fastforce
  obtain d where d: "map_of sd a = Some d" "map_of d b = Some (sc x)" using Cons.prems(2)[of a b] x by auto
  let ?best = "if sc x > ms0 then (Some x, sc x) else (fp0, ms0)"
  have "better_pair sd a b (fp0, ms0) = Inr ?best" using d x by (simp add: better_pair_def dict_get_def)
  then have r: "res_fold (\<lambda>(a, b). better_pair sd a b) xs ?best = Inr (fp, ms)" using Cons.prems(1) x by simp
  have sub: "\<And>a b. (a, b) \<in> set xs \<Longrightarrow> \<exists>d. map_of sd a = Some d \<and> map_of d b = Some (sc (a, b))" using Cons.prems(2) by simp
  show ?case
  proof (cases "sc x > ms0")
    case True
    then have "(fp = Some x \<and> ms = sc x \<and> (\<forall>p \<in> set xs. sc p \<le> sc x)) \<or> (\<exists>ys p zs. xs = ys @ p # zs \<and> fp = Some p \<and>
        ms = sc p \<and> sc x < ms \<and> (\<forall>q \<in> set ys. sc q < ms) \<and> (\<forall>q \<in> set zs. sc q \<le> ms))"
      using Cons.IH[of "Some x" "sc x"] r sub by simp
    then show ?thesis
    proof (elim disjE exE)
      assume "fp = Some x \<and> ms = sc x \<and> (\<forall>p \<in> set xs. sc p \<le> sc x)"
      then show ?thesis using True by (intro disjI2 exI[of _ "[]"] exI[of _ x] exI[of _ xs]) simp
    next
      fix ys p zs assume "xs = ys @ p # zs \<and> fp = Some p \<and> ms = sc p \<and> sc x < ms \<and> (\<forall>q \<in> set ys. sc q < ms) \<and> (\<forall>q \<in> set zs. sc q \<le> ms)"
      then show ?thesis using True by (intro disjI2 exI[of _ "x # ys"] exI[of _ p] exI[of _ zs]) auto
    qed
  next
    case False
    then have "((fp, ms) = (fp0, ms0) \<and> (\<forall>p \<in> set xs. sc p \<le> ms0)) \<or> (\<exists>ys p zs. xs = ys @ p # zs \<and> fp = Some p \<and>
        ms = sc p \<and> ms0 < ms \<and> (\<forall>q \<in> set ys. sc q < ms) \<and> (\<forall>q \<in> set zs. sc q \<le> ms))"
      using Cons.IH[of fp0 ms0] r sub by simp
    then show ?thesis
    proof (elim disjE exE)
      fix ys p zs assume "xs = ys @ p # zs \<and> fp = Some p \<and> ms = sc p \<and> ms0 < ms \<and> (\<forall>q \<in> set ys. sc q < ms) \<and> (\<forall>q \<in> set zs. sc q \<le> ms)"
      then show ?thesis using False by (intro disjI2 exI[of _ "x # ys"] exI[of _ p] exI[of _ zs]) auto
    qed (use False in auto)
  qed
qed simp

lemma calculate_score_ok:
  assumes "calculate_score a cl ex = Inr d" and "b \<in> set cl"
  shows "\<exists>v. map_of d b = Some v \<and> (if (a, b) \<in> ex then v = - 1 else pair_score a b = Inr v)"
proof -
  let ?f = "\<lambda>other. if (a, other) \<in> ex then Inr (- 1) else pair_score a other"
  have "(\<lambda>other score. if (a, other) \<in> ex then Inr (AList.update other (- 1) score)
       else and_then (pair_score a other) (\<lambda>v. Inr (AList.update other v score))) =
      (\<lambda>x d. and_then (?f x) (\<lambda>v. Inr (AList.update x v d)))" by (intro ext) simp
  then have "res_fold (\<lambda>x d. and_then (?f x) (\<lambda>v. Inr (AList.update x v d))) cl [] = Inr d"
    using assms(1) unfolding calculate_score_def by simp
  from res_fold_update[OF this, of b] show ?thesis using assms(2) by (auto split: if_splits)
qed

lemma score_all_ok:
  assumes "score_all cl ex = Inr sd" and "a \<in> set cl" and "b \<in> set cl"
  shows "\<exists>d v. map_of sd a = Some d \<and> map_of d b = Some v \<and> (if (a, b) \<in> ex then v = - 1 else pair_score a b = Inr v)"
proof -
  obtain d where d: "calculate_score a cl ex = Inr d" "map_of sd a = Some d"
    using res_fold_update[OF assms(1)[unfolded score_all_def], of a] assms(2) by auto
  show ?thesis using calculate_score_ok[OF d(1) assms(3)] d(2) by blast
qed

lemma exclude_if_ok:
  assumes "exclude_if t cl ex = Inr ex'"
  shows "(a, b) \<in> ex' \<longleftrightarrow> (a, b) \<in> ex \<or> (a \<in> set cl \<and> b \<in> set cl \<and> (has_if t a = Inr True \<or> has_if t b = Inr True))"
proof -
  let ?f = "\<lambda>call exclusions. and_then (has_if t call) (\<lambda>h. Inr (if h then exclusions \<union> set (map (\<lambda>other. (call, other)) cl) \<union>
       set (map (\<lambda>other. (other, call)) cl) else exclusions))"
  have "(a, b) \<in> ex1 \<longleftrightarrow> (a, b) \<in> ex0 \<or> (a \<in> set ns \<and> b \<in> set cl \<and> has_if t a = Inr True) \<or> (a \<in> set cl \<and> b \<in> set ns \<and> has_if t b = Inr True)"
    if "res_fold ?f ns ex0 = Inr ex1" for ns ex0 ex1
    using that
  proof (induction ns arbitrary: ex0)
    case (Cons c ns)
    obtain h where h: "has_if t c = Inr h" "res_fold ?f ns (if h then ex0 \<union> set (map (\<lambda>other. (c, other)) cl) \<union> set (map (\<lambda>other. (other, c)) cl) else ex0) = Inr ex1"
      using Cons.prems by (auto simp: and_then_eq_Inr)
    show ?case using Cons.IH[OF h(2)] h(1) by (cases h) auto
  qed simp
  from this[OF assms[unfolded exclude_if_def]] show ?thesis by blast
qed

text \<open>The pairs the search may choose from.\<close>

definition allowed :: "(string, string list) dict \<Rightarrow> expr list \<Rightarrow> expr \<times> expr \<Rightarrow> bool" where
  "allowed t cl p \<longleftrightarrow> fst p \<in> set cl \<and> snd p \<in> set cl \<and> fst p \<noteq> snd p \<and> \<not> between cl (fst p) (snd p) \<and> \<not> between cl (snd p) (fst p) \<and>
     has_if t (fst p) \<noteq> Inr True \<and> has_if t (snd p) \<noteq> Inr True"

lemma choose_pair_ok:
  assumes dist: "distinct cl" and r: "choose_pair limit t cl = Inr (fp, ms)"
  shows "(fp = None \<and> ms = - 1 \<and> (\<forall>q. allowed t cl q \<longrightarrow> (\<exists>v < 0. pair_score (fst q) (snd q) = Inr v))) \<or>
    (\<exists>p. fp = Some p \<and> allowed t cl p \<and> pair_score (fst p) (snd p) = Inr ms \<and> 0 \<le> ms \<and>
      (\<forall>q. allowed t cl q \<longrightarrow> (\<exists>v \<le> ms. pair_score (fst q) (snd q) = Inr v)))"
    and "cl \<noteq> [] \<Longrightarrow> \<forall>c \<in> set cl. call_depends arg_depend_mlir c \<subseteq> set cl"
proof -
  obtain ex ex' sd where ex: "analysis_exclusion limit cl = Inr ex" "exclude_if t cl ex = Inr ex'" "score_all cl ex' = Inr sd"
    "find_fuse_pair sd cl = Inr (fp, ms)" using r by (auto simp: choose_pair_def and_then_eq_Inr)
  show "cl \<noteq> [] \<Longrightarrow> \<forall>c \<in> set cl. call_depends arg_depend_mlir c \<subseteq> set cl" by (rule analysis_exclusion_ok(2)[OF dist ex(1)])
  have al: "allowed t cl p \<longleftrightarrow> fst p \<in> set cl \<and> snd p \<in> set cl \<and> p \<notin> ex'" for p
    using analysis_exclusion_ok(1)[OF dist ex(1), of "fst p" "snd p"] exclude_if_ok[OF ex(2), of "fst p" "snd p"]
    by (auto simp: allowed_def)
  define sc where "sc p = (case map_of sd (fst p) of None \<Rightarrow> 0 | Some d \<Rightarrow> (case map_of d (snd p) of None \<Rightarrow> 0 | Some v \<Rightarrow> v))" for p
  have sc: "\<exists>d. map_of sd (fst p) = Some d \<and> map_of d (snd p) = Some (sc p)"
    "if p \<in> ex' then sc p = - 1 else pair_score (fst p) (snd p) = Inr (sc p)"
    if "p \<in> set (List.product cl cl)" for p
    using score_all_ok[OF ex(3), of "fst p" "snd p"] that by (auto simp: sc_def)
  have fo: "res_fold (\<lambda>(a, b). better_pair sd a b) (List.product cl cl) (None, - 1) = Inr (fp, ms)"
    using ex(4) unfolding find_fuse_pair_def res_fold_product .
  have scd: "\<exists>d. map_of sd a = Some d \<and> map_of d b = Some (sc (a, b))" if "(a, b) \<in> set (List.product cl cl)" for a b
    using sc(1)[OF that] by simp
  have best: "\<exists>v \<le> m. pair_score (fst q) (snd q) = Inr v"
    if "\<forall>p \<in> set (List.product cl cl). sc p \<le> m" "allowed t cl q" for q m
  proof -
    have "q \<in> set (List.product cl cl)" "q \<notin> ex'" using that(2) al by (cases q; auto)+
    then show ?thesis using sc(2)[of q] that(1) by auto
  qed
  from better_pairs[OF fo scd]
  consider (none) "fp = None" "ms = - 1" "\<forall>p \<in> set (List.product cl cl). sc p \<le> - 1"
    | (pair) ys p zs where "List.product cl cl = ys @ p # zs" "fp = Some p" "ms = sc p" "- 1 < ms"
      "\<forall>q \<in> set ys. sc q < ms" "\<forall>q \<in> set zs. sc q \<le> ms"
    by auto
  then show "(fp = None \<and> ms = - 1 \<and> (\<forall>q. allowed t cl q \<longrightarrow> (\<exists>v < 0. pair_score (fst q) (snd q) = Inr v))) \<or>
    (\<exists>p. fp = Some p \<and> allowed t cl p \<and> pair_score (fst p) (snd p) = Inr ms \<and> 0 \<le> ms \<and>
      (\<forall>q. allowed t cl q \<longrightarrow> (\<exists>v \<le> ms. pair_score (fst q) (snd q) = Inr v)))"
  proof cases
    case none
    have "\<exists>v < 0. pair_score (fst q) (snd q) = Inr v" if al_q: "allowed t cl q" for q
    proof -
      obtain v where "v \<le> - 1" "pair_score (fst q) (snd q) = Inr v" using best[OF none(3) al_q] by blast
      then show ?thesis by (intro exI[of _ v]) simp
    qed
    then show ?thesis using none by blast
  next
    case (pair ys p zs)
    have p: "p \<in> set (List.product cl cl)" by (simp add: pair(1))
    have "p \<notin> ex'" using sc(2)[OF p] pair(3,4) by auto
    then have "allowed t cl p" "pair_score (fst p) (snd p) = Inr ms" using al p sc(2)[OF p] pair(3) by (cases p; auto)+
    moreover have "\<forall>q \<in> set (List.product cl cl). sc q \<le> ms" using pair unfolding pair(1) by auto
    ultimately show ?thesis using pair(2,4) best by auto
  qed
qed



section \<open>The loop\<close>

lemma get_call_list_main:
  assumes "list_all is_Var ps" and "get_call_list (Function v ps body rt a) = Some (Inr cl)"
  shows "distinct cl" "set cl = {c \<in> outer body. is_Call c}"
proof -
  let ?m = "Function v ps body rt a"
  have "\<forall>c \<in> calls_of ?m. \<forall>d \<in> call_depends arg_depend c. is_Call d"
    using utils_dep.call_list_diverges[of _ ?m] assms(2) unfolding get_call_list_def by fastforce
  then obtain l where "get_call_list ?m = Some (Inr l)" "distinct l" "set l = calls_of ?m"
    using utils_dep.call_list_total[of ?m] unfolding get_call_list_def by blast
  then have cl: "distinct cl" "set cl = calls_of ?m" using assms(2) by simp_all
  show "distinct cl" by (rule cl(1))
  have "\<not> is_Call x" if "x \<in> outer p" "p \<in> set ps" for x p
    using assms(1) that outer_unfold[of x p] by (cases p) (auto simp: list_all_iff)
  then show "set cl = {c \<in> outer body. is_Call c}"
    using cl(2) by (auto simp: outer_unfold[of _ ?m])
qed

lemma getitem_calls:
  assumes "outer_ok P e" and "args_typed e" and "c \<in> outer e" and "is_Call c" and "d \<in> call_depends arg_depend c"
  shows "is_Call d"
proof -
  have c: "args_typed c" by (rule outer_inherits(2)[OF assms(3,1,2)])
  obtain x where x: "x \<in> set (call_args c)" "arg_depend x = Some d"
    using assms(5) by (auto simp: call_depends_def map_filter_def split: option.splits)
  have "args_typed x" using c x(1) assms(4) by (cases c) (auto simp: list_all_iff)
  then show ?thesis using x(2)
  proof (cases x)
    case (TupleGetItem u e i)
    then have "is_Call e" using \<open>args_typed x\<close> by simp
    then show ?thesis using x(2) TupleGetItem by (cases e) auto
  qed auto
qed

lemma get_call_list_main_returns:
  assumes "main_ok ps body n"
  shows "\<exists>cl. get_call_list (Function v ps body rt a) = Some (Inr cl)"
proof -
  let ?m = "Function v ps body rt a"
  have b: "list_all is_Var ps" "outer_ok (set ps) body" "args_typed body" using assms by (simp_all add: main_ok_def)
  have "\<not> is_Call x" if "x \<in> outer p" "p \<in> set ps" for x p
    using b(1) that outer_unfold[of x p] by (cases p) (auto simp: list_all_iff)
  then have "c \<in> outer body" if "c \<in> calls_of ?m" for c
    using that by (auto simp: outer_unfold[of _ ?m])
  then have "is_Call d" if "c \<in> calls_of ?m" "d \<in> call_depends arg_depend c" for c d
    using getitem_calls[OF b(2,3)] that by blast
  then show ?thesis using utils_dep.call_list_total[of ?m] unfolding get_call_list_def by blast
qed

definition same_meaning :: "'v interp \<Rightarrow> expr \<Rightarrow> nat \<Rightarrow> expr \<Rightarrow> nat \<Rightarrow> bool" where
  "same_meaning I main n main' n' \<longleftrightarrow>
     (\<forall>v ps body rt a. main = Function v ps body rt a \<longrightarrow> main_ok ps body n \<longrightarrow>
       (\<exists>v' body'. main' = Function v' ps body' rt a \<and> main_ok ps body' n' \<and> checked_type body' = checked_type body \<and>
          (\<forall>env. eval I env body' = eval I env body)))"

lemma same_meaning_refl: "same_meaning I m n m n"
  by (auto simp: same_meaning_def)

lemma same_meaning_trans: "same_meaning I m n m' n' \<Longrightarrow> same_meaning I m' n' m'' n'' \<Longrightarrow> same_meaning I m n m'' n''"
  unfolding same_meaning_def by metis

lemma fuse_round_ok:
  assumes r: "fuse_round limit t codegen s = Some (Inr (c, s'))"
  shows "same_meaning I (step_mod s) (free_addr s) (step_mod s') (free_addr s')"
  unfolding same_meaning_def
proof (intro allI impI)
  fix v ps body rt a assume m: "step_mod s = Function v ps body rt a" and main: "main_ok ps body (free_addr s)"
  let ?s = "s\<lparr>fuse_steps := Suc (fuse_steps s)\<rparr>"
  obtain cl where cl: "get_call_list (step_mod s) = Some (Inr cl)" "fuse_calls limit t codegen ?s cl = Inr (c, s')"
    by (rule fuse_round_Inr[OF r])
  note lst = get_call_list_main[OF _ cl(1)[unfolded m]]
  have vars: "list_all is_Var ps" using main by (simp add: main_ok_def)
  show "\<exists>v' body'. step_mod s' = Function v' ps body' rt a \<and> main_ok ps body' (free_addr s') \<and> checked_type body' = checked_type body \<and>
          (\<forall>env. eval I env body' = eval I env body)"
    using cl(2)
  proof (cases rule: fuse_calls_Inr)
    case 1
    then show ?thesis using m main by simp
  next
    case (2 p ms)
    obtain c1 c2 where p: "p = (c1, c2)" by (cases p)
    have al: "allowed t cl (c1, c2)" using choose_pair_ok(1)[OF lst(1)[OF vars] 2(1)] p by auto
    then have cs: "c1 \<in> set cl" "c2 \<in> set cl" "c1 \<noteq> c2" "\<not> between cl c1 c2" "\<not> between cl c2 c1" by (simp_all add: allowed_def)
    then have "cl \<noteq> []" by auto
    note closed = choose_pair_ok(2)[OF lst(1)[OF vars] 2(1) this]
    have sep: "separated c1 c2" by (rule not_excluded_separated[OF main lst(2)[OF vars] closed cs(1,2,4,5)])
    obtain m' n' perf where f: "fusion_call2call limit p (step_mod ?s) cl (free_addr ?s) = Inr (m', n')"
      "step_mod s' = m'" "free_addr s' = n'" by (rule fuse_best_Inr[OF 2(3)]) simp
    have f': "fusion_call2call limit (c1, c2) (Function v ps body rt a) cl (free_addr s) = Inr (m', n')" using f(1) p m by simp
    have ci: "c1 \<in> outer body" "is_Call c1" "c2 \<in> outer body" "is_Call c2" "set cl \<subseteq> outer body" using cs(1,2) lst(2)[OF vars] by auto
    show ?thesis using fusion_step[OF main ci(1-4) cs(3) sep ci(5) f', of I] f(2,3) by simp
  qed
qed

lemma fuse_loop_ok:
  "fuse_loop limit t codegen s = Some (Inr s') \<Longrightarrow> fuse_steps s \<le> 29 \<Longrightarrow>
   same_meaning I (step_mod s) (free_addr s) (step_mod s') (free_addr s') \<and> fuse_steps s < fuse_steps s' \<and> fuse_steps s' \<le> 30"
proof (induction limit t codegen s rule: fuse_loop.induct)
  case (1 limit t codegen s)
  obtain c s1 where r: "fuse_round limit t codegen s = Some (Inr (c, s1))"
    "(if c then fuse_loop limit t codegen s1 else Some (Inr s1)) = Some (Inr s')"
    using "1.prems"(1) by (subst (asm) fuse_loop.simps) (auto split: option.splits sum.splits)
  note st = fuse_round_steps[OF r(1)] and m = fuse_round_ok[OF r(1), of I]
  show ?case
  proof (cases c)
    case True
    have "fuse_steps s1 \<le> 29" using st(2)[OF True] by (simp add: stop_fused_def)
    then have "same_meaning I (step_mod s1) (free_addr s1) (step_mod s') (free_addr s') \<and> fuse_steps s1 < fuse_steps s' \<and> fuse_steps s' \<le> 30"
      using "1.IH"[OF r(1) refl refl True] r(2) True by simp
    then show ?thesis using same_meaning_trans[OF m] st(1) by auto
  next
    case False
    then show ?thesis using r(2) m st(1) "1.prems"(2) by simp
  qed
qed

lemma fuse_loop_returns:
  "step_mod s = Function v ps body rt a \<Longrightarrow> main_ok ps body (free_addr s) \<Longrightarrow> fuse_loop limit t codegen s \<noteq> None"
proof (induction limit t codegen s arbitrary: v ps body rt a rule: fuse_loop.induct)
  case (1 limit t codegen s)
  have "fuse_round limit t codegen s \<noteq> None"
    using get_call_list_main_returns[OF "1.prems"(2), of v rt a] "1.prems"(1) by (auto simp: fuse_round_def Let_def)
  then obtain x where x: "fuse_round limit t codegen s = Some x" by blast
  show ?case
  proof (cases x)
    case (Inl e)
    then show ?thesis using x by (subst fuse_loop.simps) simp
  next
    case (Inr y)
    obtain c s1 where y: "y = (c, s1)" by (cases y)
    have "\<exists>v' body'. step_mod s1 = Function v' ps body' rt a \<and> main_ok ps body' (free_addr s1)"
      using fuse_round_ok[of limit t codegen s c s1] x Inr y "1.prems" unfolding same_meaning_def by blast
    then have "c \<Longrightarrow> fuse_loop limit t codegen s1 \<noteq> None" using "1.IH"[OF x Inr y[symmetric]] by blast
    then show ?thesis using x Inr y by (subst fuse_loop.simps) auto
  qed
qed



section \<open>The exclusions are computed\<close>

lemma naf_add_args_return:
  assumes "dict_keys g = cl" and "c \<in> set cl" and "set (List.map_filter arg_depend_mlir args) \<subseteq> set cl"
  shows "\<exists>g'. res_fold (naf_add_arg c) args g = Inr g' \<and> dict_keys g' = cl"
  using assms(1,3)
proof (induction args arbitrary: g)
  case (Cons x args)
  show ?case
  proof (cases "arg_depend_mlir x")
    case None
    then show ?thesis using Cons by (simp add: naf_add_arg_depend map_filter_simps)
  next
    case (Some y)
    then obtain g1 where "naf_add_edge c y g = Inr g1" "dict_keys g1 = cl"
      using naf_add_edge_ok[of c g y] Cons.prems assms(2) by (auto simp: map_filter_simps simp del: set_map)
    then show ?thesis using Cons.IH[of g1] Cons.prems(2) Some by (simp add: naf_add_arg_depend map_filter_simps)
  qed
qed simp

lemma naf_graph_returns:
  assumes "distinct cl" and "\<forall>c \<in> set cl. call_depends arg_depend_mlir c \<subseteq> set cl"
  shows "\<exists>g. naf_graph cl = Inr g"
proof -
  have "\<exists>g'. res_fold (\<lambda>call. res_fold (naf_add_arg call) (call_args call)) ns g = Inr g' \<and> dict_keys g' = cl"
    if "dict_keys g = cl" "set ns \<subseteq> set cl" for ns g
    using that
  proof (induction ns arbitrary: g)
    case (Cons c ns)
    obtain g1 where "res_fold (naf_add_arg c) (call_args c) g = Inr g1" "dict_keys g1 = cl"
      using naf_add_args_return[OF Cons.prems(1), of c "call_args c"] Cons.prems(2) assms(2) by (auto simp: call_depends_def)
    then show ?case using Cons.IH[of g1] Cons.prems(2) by simp
  qed simp
  from this[of "empty_graph cl" cl] show ?thesis
    using empty_graph_spec[OF assms(1)] by (auto simp: naf_graph_def)
qed

lemma analysis_exclusion_returns:
  assumes "distinct cl" and "\<forall>c \<in> set cl. call_depends arg_depend_mlir c \<subseteq> set cl" and "length cl \<le> limit"
  shows "\<exists>ex. analysis_exclusion limit cl = Inr ex"
proof -
  obtain g where g: "naf_graph cl = Inr g" using naf_graph_returns[OF assms(1,2)] by blast
  note has = naf_graph_ok[OF assms(1) g]
  note E = graph_has_edges[OF has]
  have k: "dict_keys g = cl" using has by (simp add: graph_has_def)
  have ac: "acyclic (call_edges_of cl)" unfolding acyclic_def using edges_size by blast
  have dk: "dict_keys (input_dict g) = cl" "dict_keys (output_dict g) = cl" "length (input_dict g) = length cl" "length (output_dict g) = length cl"
    unfolding k[symmetric] by (simp_all add: input_dict_def output_dict_def comp_def case_prod_unfold)
  have in_keys: "set (node_inputs g m) \<subseteq> set cl" "set (node_outputs g m) \<subseteq> set cl" for m
    using has by (auto simp: graph_has_def split: if_splits)
  have "\<exists>r. find_father limit (input_dict g) n = Inr r \<and> set r = ancestors (input_dict g) n" if "n \<in> set cl" for n
  proof (rule find_father_total)
    show "acyclic (adj_edges (input_dict g))" using ac unfolding E(1) .
    show "adj_closed (input_dict g)" unfolding adj_closed_def using in_keys(1) k by (auto simp del: set_map)
  qed (use that assms(3) dk in \<open>auto simp del: set_map\<close>)
  moreover have "\<exists>r. find_father limit (output_dict g) n = Inr r \<and> set r = ancestors (output_dict g) n" if "n \<in> set cl" for n
  proof (rule find_father_total)
    show "acyclic (adj_edges (output_dict g))" using ac unfolding E(2) by simp
    show "adj_closed (output_dict g)" unfolding adj_closed_def using in_keys(2) k by (auto simp del: set_map)
  qed (use that assms(3) dk in \<open>auto simp del: set_map\<close>)
  ultimately obtain dg where dg: "build_depence limit cl = Inr dg"
    using g res_map_returns[of "\<lambda>node. and_then (find_father limit (input_dict g) node) (\<lambda>fs.
      and_then (find_father limit (output_dict g) node) (\<lambda>cs. Inr (node, fs, cs)))" cl]
    by (fastforce simp: build_depence_def k)
  have "\<exists>ex'. res_fold (exclude_around dg) ns ex = Inr ex'" if "set ns \<subseteq> set cl" for ns ex
    using that
  proof (induction ns arbitrary: ex)
    case (Cons c ns)
    obtain ps cs where "map_of dg c = Some (ps, cs)" using build_depence_ok(1)[OF assms(1) dg, of c] Cons.prems by auto
    then show ?case using Cons by (simp add: exclude_around_def dict_get_def)
  qed simp
  then show ?thesis using dg by (simp add: analysis_exclusion_def)
qed



section \<open>Properties\<close>

lemma naf_fuse_meaning:
  fixes I :: "'v interp"
  assumes "main_ok ps body n"
  shows "\<exists>r. naf_fuse limit gen (NodeAutoFusion (Function v ps body rt a) n) = Some r \<and>
    (\<forall>s. r = Inr s \<longrightarrow> fuse_steps s \<le> 30 \<and>
      (\<exists>v' body'. step_mod s = Function v' ps body' rt a \<and> main_ok ps body' (free_addr s) \<and>
         checked_type body' = checked_type body \<and> (\<forall>env. eval I env body' = eval I env body)))"
proof (cases "naf_fusion gen")
  case True
  let ?s = "(NodeAutoFusion (Function v ps body rt a) n)\<lparr>perf_file := perf_head gen\<rparr>"
  have r: "naf_fuse limit gen (NodeAutoFusion (Function v ps body rt a) n) = fuse_loop limit (naf_tag2code gen) (naf_codegen_run gen) ?s"
    using True by (simp add: naf_fuse_def NodeAutoFusion_def)
  have "fuse_loop limit (naf_tag2code gen) (naf_codegen_run gen) ?s \<noteq> None"
    by (rule fuse_loop_returns[of _ v ps body rt a]) (use assms in \<open>simp_all add: NodeAutoFusion_def\<close>)
  moreover have "fuse_steps s \<le> 30 \<and> (\<exists>v' body'. step_mod s = Function v' ps body' rt a \<and> main_ok ps body' (free_addr s) \<and>
      checked_type body' = checked_type body \<and> (\<forall>env. eval I env body' = eval I env body))"
    if "fuse_loop limit (naf_tag2code gen) (naf_codegen_run gen) ?s = Some (Inr s)" for s
    using fuse_loop_ok[OF that, of I] assms by (simp add: NodeAutoFusion_def same_meaning_def)
  ultimately show ?thesis unfolding r by blast
next
  case False
  then show ?thesis using assms by (auto simp: naf_fuse_def NodeAutoFusion_def Let_def and_then_eq_Inr)
qed

text \<open>C3: \<^verbatim>\<open>NodeAutoFusion.fuse\<close> does not hang on a main function of the stencil fragment (\<^const>\<open>main_ok\<close>): it raises
  an exception or returns. A main function it returns was reached in at most thirty steps and has the parameters, the type and
  the meaning of the original: under every interpretation of the operators and every input it
  computes the same values. The result is in the fragment again.\<close>

theorem naf_fuse_keeps_meaning:
  fixes I :: "'v interp"
  assumes "main_ok ps body n"
  shows "\<exists>r. naf_fuse limit gen (NodeAutoFusion (Function v ps body rt a) n) = Some r \<and>
    (\<forall>s. r = Inr s \<longrightarrow> fuse_steps s \<le> 30 \<and>
      (\<exists>v' body'. step_mod s = Function v' ps body' rt a \<and> main_ok ps body' (free_addr s) \<and>
         checked_type body' = checked_type body \<and> (\<forall>env. eval I env body' = eval I env body)))"
  using assms by (rule naf_fuse_meaning)

definition ex_generator :: naf_generator where
  "ex_generator = \<lparr>naf_mesh_size = ''64'', naf_halo_width = ''4'', naf_fusion = True, naf_stream = True, naf_inline = False,
     naf_tag2code = [(''P_0'', [''a'']), (''P_1'', [''b'']), (''P_2'', [''scf.if'']), (''P_3'', [''c''])],
     naf_origin_run = (\<lambda>_. Inr ''1''), naf_codegen_run = (\<lambda>step m. Inr (''1'', step))\<rparr>"

lemma ex_main_fragment: "main_ok [ex_in] ex_b 6"
  by (simp add: main_ok_def ex_defs is_scalar.simps stencil_rel_def grid_ops_def tensor_typed_def)

lemma ex_fused: "(case naf_fuse 40 ex_generator (NodeAutoFusion (Function 5 [ex_in] ex_b None None) 6) of
    Some (Inr s) \<Rightarrow> fuse_steps s = 2 \<and> (case step_mod s of Function _ _ body' _ _ \<Rightarrow> body' \<noteq> ex_b | _ \<Rightarrow> False) | _ \<Rightarrow> False)"
  by code_simp

theorem naf_fuse_keeps_meaning_witness:
  "main_ok [ex_in] ex_b 6 \<and> (\<exists>s v' body'. naf_fuse 40 ex_generator (NodeAutoFusion (Function 5 [ex_in] ex_b None None) 6) = Some (Inr s) \<and>
     fuse_steps s = 2 \<and> step_mod s = Function v' [ex_in] body' None None \<and> body' \<noteq> ex_b \<and>
     (\<forall>env. eval (undefined :: nat interp) env body' = eval undefined env ex_b))"
proof -
  obtain s where s: "naf_fuse 40 ex_generator (NodeAutoFusion (Function 5 [ex_in] ex_b None None) 6) = Some (Inr s)" "fuse_steps s = 2"
    "case step_mod s of Function _ _ body' _ _ \<Rightarrow> body' \<noteq> ex_b | _ \<Rightarrow> False"
    using ex_fused by (auto split: option.splits sum.splits)
  show ?thesis
    using naf_fuse_keeps_meaning[OF ex_main_fragment, of 40 ex_generator 5 None None "undefined :: nat interp"] s ex_main_fragment by auto
qed

text \<open>C16: The pair \<^verbatim>\<open>find_fuse_pair\<close> chooses for a call list is a best one: no allowed pair has a higher
  score, where a pair is allowed if its calls are different, neither has a call between it and the
  other, and neither contains a conditional. No pair is chosen exactly when no allowed pair has
  a score of at least zero.\<close>

theorem choose_pair_best:
  assumes "distinct cl" and "choose_pair limit t cl = Inr (fp, ms)"
  shows "case fp of
      None \<Rightarrow> ms = - 1 \<and> (\<forall>q. allowed t cl q \<longrightarrow> (\<exists>v < 0. pair_score (fst q) (snd q) = Inr v))
    | Some p \<Rightarrow> allowed t cl p \<and> pair_score (fst p) (snd p) = Inr ms \<and> 0 \<le> ms \<and>
        (\<forall>q. allowed t cl q \<longrightarrow> (\<exists>v \<le> ms. pair_score (fst q) (snd q) = Inr v))"
  using choose_pair_ok(1)[OF assms] by (auto split: option.splits)

theorem choose_pair_best_witness:
  "choose_pair 9 (naf_tag2code ex_generator) [ex_a, ex_b, ex_c] = Inr (Some (ex_a, ex_b), 524288) \<and>
   allowed (naf_tag2code ex_generator) [ex_a, ex_b, ex_c] (ex_a, ex_b) \<and> pair_score ex_a ex_b = Inr 524288"
proof -
  have c: "choose_pair 9 (naf_tag2code ex_generator) [ex_a, ex_b, ex_c] = Inr (Some (ex_a, ex_b), 524288)" by code_simp
  have "distinct [ex_a, ex_b, ex_c]" by (simp add: ex_defs)
  from choose_pair_best[OF this c] c show ?thesis by simp
qed

text \<open>C17: \<^verbatim>\<open>analysis_exclusion\<close> returns on a call list that is closed under dependencies, within as many
  recursive calls as there are calls, and excludes exactly the pairs with a call between their
  members, and every call with itself. A pair that is not excluded can therefore be contracted:
  nothing the two calls read depends on either of them, except one on the other directly.\<close>

theorem exclusion_is_between:
  assumes "distinct cl" and "\<forall>c \<in> set cl. call_depends arg_depend_mlir c \<subseteq> set cl" and "length cl \<le> limit"
  shows "\<exists>ex. analysis_exclusion limit cl = Inr ex \<and>
      (\<forall>a b. (a, b) \<in> ex \<longleftrightarrow> (a = b \<and> a \<in> set cl) \<or> between cl a b \<or> between cl b a)"
  using analysis_exclusion_returns[OF assms] analysis_exclusion_ok(1)[OF assms(1)] by blast

theorem exclusion_is_between_witness:
  "\<exists>ex. analysis_exclusion 4 [ex_a, ex_b, ex_c, ex_d] = Inr ex \<and>
     (\<forall>a b. (a, b) \<in> ex \<longleftrightarrow> (a = b \<and> a \<in> {ex_a, ex_b, ex_c, ex_d}) \<or> between [ex_a, ex_b, ex_c, ex_d] a b \<or> between [ex_a, ex_b, ex_c, ex_d] b a)"
proof -
  have "distinct [ex_a, ex_b, ex_c, ex_d]" by (simp add: ex_defs)
  moreover have "\<forall>c \<in> set [ex_a, ex_b, ex_c, ex_d]. call_depends arg_depend_mlir c \<subseteq> set [ex_a, ex_b, ex_c, ex_d]"
    by (simp add: call_depends_def ex_defs map_filter_simps)
  ultimately show ?thesis using exclusion_is_between[of "[ex_a, ex_b, ex_c, ex_d]" 4] by simp
qed

text \<open>C8: One \<^verbatim>\<open>fusion_call2call\<close> step on two calls of which neither is read, but directly, by what the other
  reads: the rewritten main function is in the fragment, with fresh addresses, and computes what
  it computed before.\<close>

theorem fusion_call2call_keeps_main:
  fixes I :: "'v interp"
  assumes "main_ok ps body n" and "c1 \<in> outer body" "is_Call c1" and "c2 \<in> outer body" "is_Call c2"
    and "c1 \<noteq> c2" and "separated c1 c2" and "set call_list \<subseteq> outer body"
    and "fusion_call2call limit (c1, c2) (Function v ps body rt a) call_list n = Inr (main', n')"
  shows "\<exists>v' body'. main' = Function v' ps body' rt a \<and> main_ok ps body' n' \<and> checked_type body' = checked_type body \<and>
    (\<forall>env. eval I env body' = eval I env body)"
  by (rule fusion_step[OF assms])

lemma ex_separated: "separated ex_a ex_b"
proof -
  have "init_args [ex_a, ex_b] = [ex_in]" by code_simp
  then show ?thesis using outer_unfold[of _ ex_in] by (auto simp: separated_def ex_defs)
qed

theorem fusion_call2call_keeps_main_witness:
  "\<exists>n' v' body'. fusion_call2call 40 (ex_a, ex_b) (Function 5 [ex_in] ex_b None None) [ex_a, ex_b] 6 = Inr (Function v' [ex_in] body' None None, n') \<and>
     main_ok [ex_in] body' n' \<and> (\<forall>env. eval (undefined :: nat interp) env body' = eval undefined env ex_b)"
proof -
  have "(case fusion_call2call 40 (ex_a, ex_b) (Function 5 [ex_in] ex_b None None) [ex_a, ex_b] 6 of Inr _ \<Rightarrow> True | Inl _ \<Rightarrow> False)" by code_simp
  then obtain m n' where f: "fusion_call2call 40 (ex_a, ex_b) (Function 5 [ex_in] ex_b None None) [ex_a, ex_b] 6 = Inr (m, n')"
    by (auto split: sum.splits)
  have o: "ex_a \<in> outer ex_b" "ex_b \<in> outer ex_b" "is_Call ex_a" "is_Call ex_b" "ex_a \<noteq> ex_b"
    using outer_unfold[of ex_a ex_b] by (auto simp: ex_defs)
  have "set [ex_a, ex_b] \<subseteq> outer ex_b" using o by simp
  from fusion_call2call_keeps_main[OF ex_main_fragment o(1,3,2,4,5) ex_separated this f, of "undefined :: nat interp"] f show ?thesis by auto
qed

end
