(* ===== verification/Mlir_Reader.thy ===== *)
theory Mlir_Reader
  imports Mlir_Parse Fusion_Search Stream_Schedule
begin

text \<open>
  What \<^verbatim>\<open>MLIRCodeGen.from_mlir\<close> gives the passes: the function it builds is in the fragment the fusion
  passes keep the meaning of, its inputs are arrays with positive extents, and the stream solver can schedule it.
\<close>

section \<open>The expressions the reader builds\<close>

definition reader_op :: "string \<Rightarrow> bool" where
  "reader_op nm \<longleftrightarrow> nm \<in> snd ` set name2relayop"

fun read_ok :: "expr set \<Rightarrow> expr \<Rightarrow> bool" where
  "read_ok P (Var u nm t) \<longleftrightarrow> Var u nm t \<in> P"
| "read_ok P (Call u f as a) \<longleftrightarrow> (\<exists>nm. reader_op nm \<and> f = Op nm) \<and> as \<noteq> [] \<and> list_all (read_ok P) as \<and>
     (\<forall>t. a \<noteq> Some (GridMOAttrs t 0))"
| "read_ok P (TupleGetItem u e i) \<longleftrightarrow> read_ok P e \<and> \<not> is_TupleGetItem e"
| "read_ok P _ \<longleftrightarrow> False"

lemma read_ok_mono: "read_ok P e \<Longrightarrow> P \<subseteq> Q \<Longrightarrow> read_ok Q e"
  by (induction P e rule: read_ok.induct) (auto simp: list_all_iff)

definition input_ok :: "nat \<Rightarrow> expr \<Rightarrow> bool" where
  "input_ok n v \<longleftrightarrow> (case v of Var u nm (Some (TensorType sh dt)) \<Rightarrow> u < n \<and> dt = ''float32'' \<and> (\<forall>d \<in> set sh. 1 \<le> d) | _ \<Rightarrow> False)"

lemma input_ok_iff:
  "input_ok n v \<longleftrightarrow> (\<exists>u nm sh. v = Var u nm (Some (TensorType sh ''float32'')) \<and> u < n \<and> (\<forall>d \<in> set sh. 1 \<le> d))"
  by (auto simp: input_ok_def split: expr.splits option.splits rtype.splits)

lemma input_ok_mono: "input_ok m v \<Longrightarrow> m \<le> n \<Longrightarrow> input_ok n v"
  by (auto simp: input_ok_def split: expr.splits option.splits rtype.splits)

definition gen_ok :: "expr set \<Rightarrow> mlir_gen \<Rightarrow> bool" where
  "gen_ok P g \<longleftrightarrow> (\<forall>v \<in> P. input_ok (mg_addr g) v) \<and> mg_dim_size g = 72 \<and>
     (\<forall>t e. map_of (mg_tag2code g) t = Some e \<longrightarrow> read_ok P (ce_data e) \<and> \<not> is_TupleGetItem (ce_data e))"

lemma tag_data_ok: "gen_ok P g \<Longrightarrow> tag_data g t = Inr v \<Longrightarrow> read_ok P v \<and> \<not> is_TupleGetItem v"
  by (auto simp: gen_ok_def tag_data_def and_then_eq_Inr dict_get_def split: option.splits)

lemma gen_ok_addr: "gen_ok P g \<Longrightarrow> gen_ok P (g\<lparr>mg_addr := Suc (mg_addr g)\<rparr>)"
  by (auto simp: gen_ok_def intro: input_ok_mono)

lemma gen_ok_define:
  "gen_ok P g \<Longrightarrow> read_ok P v \<Longrightarrow> \<not> is_TupleGetItem v \<Longrightarrow>
   gen_ok P (g\<lparr>mg_tag2code := AList.update t \<lparr>ce_type = k, ce_data = v, ce_body = b\<rparr> (mg_tag2code g)\<rparr>)"
  by (auto simp: gen_ok_def update_conv')

lemma arg_var_ok:
  assumes "gen_ok P g" "list_all (read_ok P) vs" "arg_var tag (vs, g) = Inr (vs', g')"
  shows "gen_ok P g' \<and> list_all (read_ok P) vs' \<and> mg_tag2code g' = mg_tag2code g \<and> mg_addr g \<le> mg_addr g'"
  using assms tag_data_ok[OF assms(1)] gen_ok_addr[OF assms(1)]
  by (auto simp: arg_var_def and_then_eq_Inr split: if_splits prod.splits)

lemma arg_vars_ok:
  "res_fold arg_var tags (vs, g) = Inr (vs', g') \<Longrightarrow> gen_ok P g \<Longrightarrow> list_all (read_ok P) vs \<Longrightarrow>
   gen_ok P g' \<and> list_all (read_ok P) vs' \<and> length vs' = length vs + length tags"
proof (induction tags arbitrary: vs g)
  case (Cons t ts)
  then obtain vs2 g2 where v: "arg_var t (vs, g) = Inr (vs2, g2)" "res_fold arg_var ts (vs2, g2) = Inr (vs', g')"
    by (auto simp: and_then_eq_Inr)
  then have "length vs2 = Suc (length vs)" by (auto simp: and_then_eq_Inr arg_var_def split: if_splits prod.splits)
  with Cons.IH[OF v(2)] arg_var_ok[OF Cons.prems(2,3) v(1)] show ?case by simp
qed simp

lemma relay_call_ok:
  assumes "relay_call u op as tag k = Inr v" "reader_op op" "list_all (read_ok P) as" "as \<noteq> []"
  shows "read_ok P v \<and> \<not> is_TupleGetItem v"
  using assms by (auto simp: relay_call_def split: if_splits)

lemma parse_apply_ok:
  assumes "parse_apply line body g = Inr g'" "gen_ok P g"
  shows "gen_ok P g'"
proof -
  obtain tag k tags vs h op v where a: "apply_args line = Inr tags" "res_fold arg_var tags ([], g) = Inr (vs, h)"
    "dict_get name2relayop (if k = 1 then ''in'' @ str_of_nat (length vs) @ ''out1'' else ''in'' @ str_of_nat (length vs) @ ''mout'') = Inr op"
    "relay_call (mg_addr h) op vs (py_replace tag ''%'' ''stencil_'') k = Inr v"
    "g' = h\<lparr>mg_addr := Suc (mg_addr h), mg_tag2code := AList.update tag \<lparr>ce_type = ''func'', ce_data = v, ce_body = Some body\<rparr> (mg_tag2code h)\<rparr>"
    using assms(1) unfolding parse_apply_def by (fastforce simp: and_then_eq_Inr)
  have ok: "gen_ok P h" "list_all (read_ok P) vs" "length vs = length tags" using arg_vars_ok[OF a(2) assms(2)] by auto
  have "tags \<noteq> []" using a(1) by (auto simp: apply_args_def py_split_def res_map_eq_Inr)
  then have "vs \<noteq> []" using ok(3) by auto
  moreover have "reader_op op"
    using a(3) unfolding reader_op_def dict_get_Inr by (auto dest!: map_of_SomeD intro: rev_image_eqI)
  ultimately have "read_ok P v \<and> \<not> is_TupleGetItem v" using relay_call_ok[OF a(4)] ok(2) by blast
  then show ?thesis unfolding a(5) using gen_ok_define[OF gen_ok_addr[OF ok(1)]] by simp
qed


section \<open>The lines\<close>

lemma parse_shape_positive:
  assumes "parse_shape g s = Inr shape" "1 \<le> mg_dim_size g"
  shows "\<forall>d \<in> set shape. 1 \<le> d"
  using assms by (auto simp: parse_shape_def and_then_eq_Inr split: if_splits)

lemma gen_ok_input:
  assumes "gen_ok P g" "input_ok (Suc (mg_addr g)) v" "is_Var v"
  shows "gen_ok (insert v P) (g\<lparr>mg_addr := Suc (mg_addr g), mg_data2shape := d,
     mg_tag2code := AList.update t \<lparr>ce_type = k, ce_data = v, ce_body = b\<rparr> (mg_tag2code g)\<rparr>)"
proof -
  have "read_ok (insert v P) v \<and> \<not> is_TupleGetItem v" using assms(3) by (cases v) auto
  moreover have "read_ok (insert v P) x" if "read_ok P x" for x using read_ok_mono[OF that] by blast
  ultimately show ?thesis using assms by (auto simp: gen_ok_def update_conv' intro: input_ok_mono)
qed

lemma parse_load_ok:
  assumes "parse_load line g = Inr (v, g')" "gen_ok P g"
  shows "gen_ok (insert v P) g' \<and> v \<notin> P"
proof -
  obtain tag shape ms where a: "parse_shape g (text_between ''<'' ''>'' line) = Inr shape"
    "v = Var (mg_addr g) (py_replace tag ''%'' ''data_'') (Some (TensorType shape ''float32''))"
    "g' = g\<lparr>mg_addr := Suc (mg_addr g), mg_data2shape := AList.update (TagKey tag) ms (AList.update (VarKey v) ms (mg_data2shape g)),
       mg_tag2code := AList.update tag \<lparr>ce_type = ''var'', ce_data = v, ce_body = None\<rparr> (mg_tag2code g)\<rparr>"
    using assms(1) unfolding parse_load_def Let_def by (fastforce simp: and_then_eq_Inr)
  have "mg_dim_size g = 72" using assms(2) by (simp add: gen_ok_def)
  then have "\<forall>d \<in> set shape. 1 \<le> d" using parse_shape_positive[OF a(1)] by simp
  then have "input_ok (Suc (mg_addr g)) v" by (simp add: a(2) input_ok_def)
  moreover have "v \<notin> P" using assms(2) by (auto simp: gen_ok_def a(2) input_ok_def)
  ultimately show ?thesis unfolding a(3) using gen_ok_input[OF assms(2)] a(2) by simp
qed

lemma parse_program_ok: "parse_program line g = Inr g' \<Longrightarrow> gen_ok P g \<Longrightarrow> gen_ok P g'"
  by (auto simp: parse_program_def and_then_eq_Inr gen_ok_def)

text \<open>The state of the reader: what it holds refers to the inputs read so far, and a stored line has its variable.\<close>

definition state_ok :: "parse_state \<Rightarrow> bool" where
  "state_ok s \<longleftrightarrow> gen_ok (set (ps_args s)) (ps_gen s) \<and> distinct (ps_args s) \<and> length (ps_ret s) = length (ps_ret_var s) \<and>
     list_all (\<lambda>v. read_ok (set (ps_args s)) v \<and> \<not> is_TupleGetItem v) (ps_ret_var s)"

lemma state_ok_load:
  assumes "parse_load line (ps_gen s) = Inr (v, g)" "state_ok s"
  shows "state_ok (s\<lparr>ps_gen := g, ps_cast := c, ps_args := ps_args s @ [v]\<rparr>)"
proof -
  have "gen_ok (insert v (set (ps_args s))) g" "v \<notin> set (ps_args s)"
    using parse_load_ok[OF assms(1)] assms(2) unfolding state_ok_def by blast+
  moreover have "read_ok (insert v (set (ps_args s))) x" if "read_ok (set (ps_args s)) x" for x
    using read_ok_mono[OF that] by blast
  ultimately show ?thesis using assms(2) unfolding state_ok_def by (auto simp: list_all_iff)
qed

lemma state_ok_store:
  assumes "parse_store line (ps_gen s) = Inr v" "state_ok s"
  shows "state_ok (s\<lparr>ps_ret := ps_ret s @ [line], ps_ret_var := ps_ret_var s @ [v]\<rparr>)"
proof -
  have "gen_ok (set (ps_args s)) (ps_gen s)" using assms(2) by (simp add: state_ok_def)
  then have "read_ok (set (ps_args s)) v \<and> \<not> is_TupleGetItem v"
    using assms(1) tag_data_ok by (auto simp: parse_store_def and_then_eq_Inr)
  then show ?thesis using assms(2) by (simp add: state_ok_def)
qed

lemma parse_line_ok:
  assumes "parse_line line s = Inr s'" "state_ok s"
  shows "state_ok s'"
proof (cases "py_in ''stencil.load'' line")
  case True
  then obtain v g where "parse_load line (ps_gen s) = Inr (v, g)" "s' = s\<lparr>ps_gen := g, ps_cast := ps_cast s @ [line], ps_args := ps_args s @ [v]\<rparr>"
    using assms(1) unfolding parse_line_def by (cases "parse_load line (ps_gen s)") auto
  then show ?thesis using state_ok_load assms(2) by blast
next
  case nload: False
  show ?thesis
  proof (cases "py_in ''stencil.store'' line")
    case True
    then obtain v where "parse_store line (ps_gen s) = Inr v" "s' = s\<lparr>ps_ret := ps_ret s @ [line], ps_ret_var := ps_ret_var s @ [v]\<rparr>"
      using assms(1) nload unfolding parse_line_def by (cases "parse_store line (ps_gen s)") auto
    then show ?thesis using state_ok_store assms(2) by blast
  next
    case nstore: False
    show ?thesis
    proof (cases "py_in ''stencil.cast'' line")
      case True
      then show ?thesis using assms nload nstore by (auto simp: parse_line_def state_ok_def)
    next
      case False
      then show ?thesis using assms nload nstore parse_program_ok[of line "ps_gen s"]
        by (cases "parse_program line (ps_gen s)") (auto simp: parse_line_def state_ok_def split: if_splits)
    qed
  qed
qed

lemma parse_code_ok: "parse_code code s = Inr s' \<Longrightarrow> state_ok s \<Longrightarrow> state_ok s'"
proof (induction code s rule: parse_code.induct)
  case (2 line code s)
  show ?case
  proof (cases "py_in ''stencil.apply'' line")
    case True
    then obtain g where g: "parse_apply line (fst (take_body code)) (ps_gen s) = Inr g"
      "parse_code (snd (take_body code)) (s\<lparr>ps_gen := g\<rparr>) = Inr s'"
      using 2(3) by (auto simp: and_then_eq_Inr)
    have "state_ok (s\<lparr>ps_gen := g\<rparr>)" using parse_apply_ok[OF g(1)] 2(4) by (simp add: state_ok_def)
    then show ?thesis using 2(1)[OF True g(1) g(2)] by blast
  next
    case False
    then obtain s2 where s2: "parse_line line s = Inr s2" "parse_code code s2 = Inr s'" using 2(3) by (auto simp: and_then_eq_Inr)
    then show ?thesis using 2(2)[OF False s2(1) s2(2)] parse_line_ok[OF s2(1) 2(4)] by blast
  qed
qed simp



section \<open>The module\<close>

lemma read_ok_anchors: "read_ok P e \<Longrightarrow> anchors e \<noteq> {} \<and> fparams e = {}"
proof (induction P e rule: read_ok.induct)
  case (2 P u f as a)
  then obtain x xs where "as = x # xs" by (cases as) auto
  with 2 show ?case by (auto simp: list_all_iff)
qed auto

lemma opt_all_typed: "opt_all (map checked_type as) = Some ts \<Longrightarrow> list_all is_tensor ts \<Longrightarrow> list_all tensor_typed as"
  unfolding opt_all_Some by (induction as arbitrary: ts) (auto simp: tensor_typed_def)

lemma list_all_is_tensor_nth: "list_all is_tensor ts \<Longrightarrow> i < length ts \<Longrightarrow> ts ! i \<noteq> TupleType us"
  by (metis is_tensor.simps(2) list_all_length)

lemma read_ok_typed:
  "read_ok P e \<Longrightarrow> \<forall>v \<in> P. input_ok n v \<Longrightarrow> checked_type e \<noteq> None \<Longrightarrow> outer_ok P e \<and> args_typed e"
proof (induction P e rule: read_ok.induct)
  case (2 P u f as a)
  obtain nm where f: "f = Op nm" using 2(2) by auto
  then obtain ts t where t: "opt_all (map checked_type as) = Some ts" "stencil_rel nm ts a = Some t" using 2(4) by (auto split: option.splits)
  have ten: "list_all tensor_typed as" using opt_all_typed[OF t(1)] t(2) by (auto simp: stencil_rel_def split: if_splits)
  have tens: "list_all is_tensor ts" using t(2) by (auto simp: stencil_rel_def split: if_splits)
  have "0 < length ts \<longrightarrow> ts ! 0 \<noteq> TupleType []" "1 < length ts \<longrightarrow> ts ! 1 \<noteq> TupleType []"
    using list_all_is_tensor_nth[OF tens] by blast+
  then have "t \<noteq> TupleType []"
    using 2(2) t(2) by (auto simp: stencil_rel_def grid_ops_def split: if_splits list.splits option.splits call_attrs.splits)
  then have ty: "checked_type (Call u f as a) \<noteq> None" "checked_type (Call u f as a) \<noteq> Some (TupleType [])" using f t by simp_all
  have "outer_ok P x \<and> args_typed x \<and> anchors x \<noteq> {}" if "x \<in> set as" for x
  proof -
    have "read_ok P x" "tensor_typed x" using 2(2) ten that by (auto simp: list_all_iff)
    then show ?thesis using 2(1)[OF that] 2(3) read_ok_anchors[of P x] by (auto simp: tensor_typed_def split: option.splits)
  qed
  moreover obtain x where "x \<in> set as" using 2(2) by (cases as) auto
  ultimately show ?case using f ten ty by (auto simp: list_all_iff list_ex_iff)
next
  case (3 P u e i)
  have e: "read_ok P e" "\<not> is_TupleGetItem e" using 3(2) by auto
  obtain ts where ts: "checked_type e = Some (TupleType ts)" using 3(4) by (auto split: option.splits rtype.splits)
  have "is_Call e" using e ts 3(3) by (cases e) (auto simp: input_ok_def)
  then show ?case using 3 e ts read_ok_anchors[OF e(1)] by auto
qed auto

fun positive_type :: "rtype \<Rightarrow> bool" where
  "positive_type (TensorType sh dt) \<longleftrightarrow> (\<forall>d \<in> set sh. 1 \<le> d)"
| "positive_type (TupleType ts) \<longleftrightarrow> list_all positive_type ts"
| "positive_type (OtherType s) \<longleftrightarrow> False"

lemma stencil_rel_positive:
  assumes "stencil_rel nm ts a = Some t" "list_all positive_type ts"
  shows "positive_type t"
  using assms by (auto simp: stencil_rel_def list_all_length grid_ops_def split: if_splits list.splits option.splits call_attrs.splits)

lemma read_ok_positive:
  "read_ok P e \<Longrightarrow> \<forall>v \<in> P. input_ok n v \<Longrightarrow> checked_type e = Some t \<Longrightarrow> positive_type t"
proof (induction P e arbitrary: t rule: read_ok.induct)
  case (1 P u nm ty)
  then have "input_ok n (Var u nm ty)" by simp
  then show ?case using 1(3) by (auto simp: input_ok_iff)
next
  case (2 P u f as a)
  obtain nm where f: "f = Op nm" using 2(2) by auto
  then obtain ts where t: "map checked_type as = map Some ts" "stencil_rel nm ts a = Some t"
    using 2(4) by (auto simp: opt_all_Some split: option.splits)
  have "positive_type x" if x: "x \<in> set ts" for x
  proof -
    obtain y where y: "y \<in> set as" "checked_type y = Some x" using t(1) x by (metis (no_types, lifting) imageE image_eqI set_map)
    then show ?thesis using 2(1)[OF y(1) _ 2(3) y(2)] 2(2) by (auto simp: list_all_iff)
  qed
  then show ?case using stencil_rel_positive[OF t(2)] by (simp add: list_all_iff)
next
  case (3 P u e i)
  then obtain ts where "checked_type e = Some (TupleType ts)" "i < length ts" "t = ts ! i" by (auto split: option.splits rtype.splits if_splits)
  then show ?case using 3(1)[of "TupleType ts"] 3(2,3) by (auto simp: list_all_length)
qed auto

lemma read_ok_outer: "x \<in> outer e \<Longrightarrow> read_ok P e \<Longrightarrow> read_ok P x"
proof (induction "size e" arbitrary: e rule: less_induct)
  case less
  show ?case
  proof (cases "x = e")
    case False
    then obtain k where k: "k \<in> set (children False e)" "x \<in> outer k" using less.prems(1) outer_unfold[of x e] by blast
    have "read_ok P k" using less.prems(2) k(1) by (cases e) (auto simp: list_all_iff)
    then show ?thesis using less.hyps[of k] children_size[OF k(1)] k(2) by blast
  qed (use less.prems in simp)
qed

text \<open>The function \<^verbatim>\<open>from_mlir\<close> builds.\<close>

definition module_ok :: "expr list \<Rightarrow> expr \<Rightarrow> bool" where
  "module_ok ps body \<longleftrightarrow> (read_ok (set ps) body \<or> (\<exists>u vs. body = Tuple u vs \<and> list_all (read_ok (set ps)) vs)) \<and> checked_type body \<noteq> None"

lemma state_ok_init:
  "state_ok \<lparr>ps_gen = (MLIRCodeGen m h out)\<lparr>mg_name := nm, mg_in_code := code\<rparr>, ps_args = [], ps_ret_var = [], ps_ret = [], ps_cast = [], ps_program = []\<rparr>"
  by (simp add: state_ok_def gen_ok_def MLIRCodeGen_def)

lemma InferType_Inr: "InferType (Function u ps b None a) = Inr m \<longleftrightarrow> m = Function u ps b None a \<and> checked_type b \<noteq> None"
  by (auto simp: InferType_def split: option.splits)

lemma from_mlir_module:
  assumes "from_mlir code nm (MLIRCodeGen m h out) = Inr g"
  shows "\<exists>u body. mg_module g = Some (Function u (mg_args_data g) body None None) \<and> distinct (mg_args_data g) \<and>
    (\<forall>v \<in> set (mg_args_data g). input_ok (mg_addr g) v) \<and> module_ok (mg_args_data g) body \<and>
    (mg_ret_data g \<noteq> [] \<longrightarrow> anchors body \<noteq> {})"
proof -
  obtain s ret n' where s: "parse_code (format_code code) \<lparr>ps_gen = (MLIRCodeGen m h out)\<lparr>mg_name := nm, mg_in_code := code\<rparr>,
      ps_args = [], ps_ret_var = [], ps_ret = [], ps_cast = [], ps_program = []\<rparr> = Inr s"
    and r: "(ret, n') = (case ps_ret_var s of [v] \<Rightarrow> (v, mg_addr (ps_gen s)) | vs \<Rightarrow> (Tuple (mg_addr (ps_gen s)) vs, Suc (mg_addr (ps_gen s))))"
    and i: "checked_type ret \<noteq> None"
    and g: "g = (ps_gen s)\<lparr>mg_addr := Suc n', mg_module := Some (Function n' (ps_args s) ret None None), mg_args_data := ps_args s,
      mg_ret_data := ps_ret s, mg_cast_data := ps_cast s, mg_program_data := ps_program s\<rparr>"
    using assms unfolding from_mlir_def Let_def
    by (auto simp: and_then_eq_Inr InferType_Inr case_prod_beta simp del: list.case intro: that[OF _ prod.collapse])
  have ok: "state_ok s" using parse_code_ok[OF s state_ok_init] .
  have n: "mg_addr (ps_gen s) \<le> n'" using r by (auto split: list.splits)
  have "\<forall>v \<in> set (ps_args s). input_ok (Suc n') v" using ok n input_ok_mono[of "mg_addr (ps_gen s)" _ "Suc n'"] by (auto simp: state_ok_def gen_ok_def)
  moreover have ret: "(\<exists>v. ps_ret_var s = [v] \<and> ret = v) \<or> ret = Tuple (mg_addr (ps_gen s)) (ps_ret_var s)"
    using r by (auto split: list.splits)
  moreover have "list_all (read_ok (set (ps_args s))) (ps_ret_var s)" using ok by (auto simp: state_ok_def list_all_iff)
  moreover have "anchors ret \<noteq> {}" if st: "ps_ret s \<noteq> []"
  proof -
    obtain v vs where "ps_ret_var s = v # vs" using ok st by (cases "ps_ret_var s") (auto simp: state_ok_def)
    then show ?thesis using ret calculation(3) read_ok_anchors[of _ v] by (auto simp: list_all_iff)
  qed
  ultimately show ?thesis using ok i by (auto simp: g module_ok_def state_ok_def)
qed

lemma module_main_ok:
  assumes "module_ok ps body" "\<forall>v \<in> set ps. input_ok n v" "anchors body \<noteq> {}"
  shows "main_ok ps body n"
proof -
  have v: "is_Var v \<and> var_addr v < n" if "v \<in> set ps" for v
    using assms(2) that by (auto simp: input_ok_iff)
  have one: "outer_ok (set ps) e \<and> args_typed e \<and> fparams e = {} \<and> anchors e \<noteq> {}" if "read_ok (set ps) e" "checked_type e \<noteq> None" for e
    using read_ok_typed[OF that(1) assms(2) that(2)] read_ok_anchors[OF that(1)] by blast
  have "outer_ok (set ps) body \<and> args_typed body \<and> fparams body = {}"
  proof (cases "read_ok (set ps) body")
    case False
    then obtain u vs where b: "body = Tuple u vs" "list_all (read_ok (set ps)) vs" using assms(1) by (auto simp: module_ok_def)
    have "checked_type x \<noteq> None" if "x \<in> set vs" for x
      using assms(1) that by (auto simp: module_ok_def b opt_all_Some dest!: arg_cong[where f = set]) blast
    then show ?thesis using one b by (auto simp: list_all_iff)
  qed (use one assms(1) in \<open>auto simp: module_ok_def\<close>)
  then show ?thesis using v assms(3) by (auto simp: main_ok_def list_all_iff)
qed



section \<open>Properties of the reader\<close>

text \<open>C6: A file that \<^verbatim>\<open>from_mlir\<close> reads, with at least one \<^verbatim>\<open>stencil.store\<close>, becomes a function of the stencil fragment
  (\<^const>\<open>main_ok\<close>) whose parameters are the loaded fields: every variable is one of the parameters, every operator is
  applied to arrays, every projection is one of a call, and every node has a type. This is what the fusion passes ask for.\<close>

theorem from_mlir_fragment:
  assumes "from_mlir code nm (MLIRCodeGen mesh halo out) = Inr g" and "mg_ret_data g \<noteq> []"
  shows "\<exists>u body. mg_module g = Some (Function u (mg_args_data g) body None None) \<and> distinct (mg_args_data g) \<and>
    main_ok (mg_args_data g) body (mg_addr g) \<and> checked_type body \<noteq> None"
  using from_mlir_module[OF assms(1)] assms(2) module_main_ok module_ok_def by blast

text \<open>The nodes of the module.\<close>

lemma map_Some_typed: "map f xs = map Some ys \<Longrightarrow> x \<in> set xs \<Longrightarrow> \<exists>y. f x = Some y"
  by (induction xs arbitrary: ys) auto

lemma read_node_subs:
  "x \<in> subs True (\<lambda>_. False) e \<Longrightarrow> read_ok P e \<Longrightarrow> checked_type e \<noteq> None \<Longrightarrow> (read_ok P x \<and> checked_type x \<noteq> None) \<or> is_Op x"
proof (induction "size e" arbitrary: e rule: less_induct)
  case less
  show ?case
  proof (cases "x = e")
    case False
    then obtain k where k: "k \<in> set (children True e)" "x \<in> subs True (\<lambda>_. False) k"
      using less.prems(1) subs_iff[of x True "\<lambda>_. False" e] by (auto simp: kids_def)
    show ?thesis
    proof (cases "is_Op k")
      case True
      then obtain nm where "k = Op nm" by (cases k) auto
      then have "x = k" using k(2) subs_iff[of x True "\<lambda>_. False" k] by (simp add: kids_def)
      then show ?thesis using True by simp
    next
      case nop: False
      have "read_ok P k \<and> checked_type k \<noteq> None"
        using less.prems(2,3) k(1) nop by (cases e) (auto simp: list_all_iff opt_all_Some split: option.splits intro: map_Some_typed)
      then show ?thesis using less.hyps[of k] children_size[OF k(1)] k(2) by blast
    qed
  qed (use less.prems in simp)
qed


lemma module_nodes:
  assumes "module_ok ps body" "\<forall>v \<in> set ps. input_ok n v" "x \<in> subs True (\<lambda>_. False) (Function u ps body rt a)" "is_Call x"
  shows "read_ok (set ps) x" "checked_type x \<noteq> None" "x \<in> subs True (\<lambda>_. False) body"
proof -
  have one: "(read_ok (set ps) x \<and> checked_type x \<noteq> None) \<or> is_Op x" if "x \<in> subs True (\<lambda>_. False) e" "read_ok (set ps) e" "checked_type e \<noteq> None" for e
    using read_node_subs[OF that] .
  have "x \<notin> subs True (\<lambda>_. False) v" if "v \<in> set ps" for v
    using assms(2,4) that subs_iff[of x True "\<lambda>_. False" v] by (fastforce simp: input_ok_iff kids_def)
  then show b: "x \<in> subs True (\<lambda>_. False) body"
    using assms(3,4) subs_iff[of x True "\<lambda>_. False" "Function u ps body rt a"] by (auto simp: kids_def)
  have "(read_ok (set ps) x \<and> checked_type x \<noteq> None) \<or> is_Op x"
  proof (cases "read_ok (set ps) body")
    case False
    then obtain w vs where t: "body = Tuple w vs" "list_all (read_ok (set ps)) vs" using assms(1) by (auto simp: module_ok_def)
    then obtain v where v: "v \<in> set vs" "x \<in> subs True (\<lambda>_. False) v"
      using b assms(4) subs_iff[of x True "\<lambda>_. False" body] by (auto simp: kids_def)
    have "checked_type v \<noteq> None"
      using assms(1) v(1) by (auto simp: module_ok_def t opt_all_Some dest!: arg_cong[where f = set]) blast
    then show ?thesis using one[OF v(2)] t(2) v(1) by (auto simp: list_all_iff)
  qed (use one[OF b] assms(1) in \<open>auto simp: module_ok_def\<close>)
  then show "read_ok (set ps) x" "checked_type x \<noteq> None" using assms(4) by (cases x; auto)+
qed

lemma wash_outer_id: "\<forall>c \<in> set cl. \<exists>e. callee_tag c = Inl e \<Longrightarrow> wash_outer i cl = cl"
proof (induction "length cl - i" arbitrary: i rule: less_induct)
  case less
  show ?case
  proof (cases "i < length cl")
    case True
    then have "wash_call (cl ! i) cl = cl" using less.prems nth_mem[OF True] by (fastforce simp: wash_call_def)
    then show ?thesis using less.hyps[of "Suc i"] less.prems True by (subst wash_outer.simps) simp
  qed (subst wash_outer.simps, simp)
qed

lemma reader_op_stencil: "reader_op nm \<Longrightarrow> py_in ''stencil'' nm"
  by (auto simp: reader_op_def name2relayop_def)

lemma module_streams:
  assumes "module_ok ps body" "\<forall>v \<in> set ps. input_ok n v"
  shows "\<forall>c \<in> set (stream_call_list (Function u ps body rt a)). isStencilNode c" "sources_listed (stream_call_list (Function u ps body rt a))"
proof -
  let ?f = "Function u ps body rt a"
  let ?cl = "collect True is_Call ?f"
  note node = module_nodes[OF assms]
  have cl: "c \<in> set ?cl \<longleftrightarrow> c \<in> subs True (\<lambda>_. False) ?f \<and> is_Call c" for c using collect_spec[of True is_Call ?f] by auto
  have op: "\<exists>w nm as at. c = Call w (Op nm) as at \<and> reader_op nm" if "c \<in> set ?cl" for c
    using node(1)[of c u rt a] that cl[of c] by (cases c) auto
  then have s: "stream_call_list ?f = ?cl" unfolding stream_call_list_def by (intro wash_outer_id) force
  show "\<forall>c \<in> set (stream_call_list ?f). isStencilNode c" unfolding s using op reader_op_stencil by force
  have "tv \<in> set ?cl" if c: "c \<in> set ?cl" "TupleGetItem w tv i \<in> set (call_args c)" for c w tv i
  proof -
    obtain v nm as at where e: "c = Call v (Op nm) as at" using op[OF c(1)] by blast
    have r: "read_ok (set ps) c" "checked_type c \<noteq> None" using node(1,2)[of c u rt a] c(1) cl by blast+
    then have "args_typed c" using read_ok_typed[OF r(1) assms(2) r(2)] by blast
    then have "is_Call tv" using c(2) by (auto simp: e list_all_iff)
    moreover have "TupleGetItem w tv i \<in> set (kids True (\<lambda>_. False) c)" using c(2) unfolding e by (simp add: kids_def)
    then have "TupleGetItem w tv i \<in> subs True (\<lambda>_. False) ?f" using subs_kid c(1) cl[of c] by blast
    then have "tv \<in> subs True (\<lambda>_. False) ?f" by (rule subs_kid) (simp add: kids_def)
    ultimately show ?thesis using cl by blast
  qed
  then show "sources_listed (stream_call_list ?f)" unfolding s sources_listed_def arg_source_def by (auto split: expr.splits if_splits)
qed


lemma foldl_mult_pos: "1 \<le> (d :: int) \<Longrightarrow> \<forall>x \<in> set ds. 1 \<le> x \<Longrightarrow> 1 \<le> foldl (*) d ds"
proof (induction ds arbitrary: d)
  case (Cons x xs)
  then have "1 * 1 \<le> d * x" by (intro mult_mono) auto
  then show ?case using Cons by simp
qed simp

lemma volume_positive: "volume x = Inr v \<Longrightarrow> \<forall>t. checked_type x = Some t \<longrightarrow> positive_type t \<Longrightarrow> 1 \<le> v"
  by (auto simp: volume_def foldl_mult_pos split: option.splits rtype.splits list.splits)

lemma volumes_nonneg:
  assumes "res_map volume xs = Inr vs" "\<forall>x \<in> set xs. \<forall>t. checked_type x = Some t \<longrightarrow> positive_type t" "0 \<le> k"
  shows "0 \<le> sum_list (map (\<lambda>v. v * k) vs)"
proof (rule sum_list_nonneg)
  fix y
  assume "y \<in> set (map (\<lambda>v. v * k) vs)"
  then obtain i where i: "i < length vs" "y = vs ! i * k" by (auto simp: in_set_conv_nth)
  then have "volume (xs ! i) = Inr (vs ! i)" "xs ! i \<in> set xs" using assms(1) by (auto simp: res_map_eq_Inr)
  then have "1 \<le> vs ! i" using volume_positive assms(2) by blast
  then show "0 \<le> y" using i(2) assms(3) by simp
qed

text \<open>C13: In the function \<^verbatim>\<open>from_mlir\<close> builds, every array a call produces has extents of at least one (a reader's \<^verbatim>\<open>?\<close> stands
  for 72, a zero is read as one), and so the fusion score of two of its calls is never negative: no pair that may be fused looks
  worse than not fusing, which has the score \<^verbatim>\<open>-1\<close>.\<close>

theorem from_mlir_extents:
  assumes "from_mlir code nm (MLIRCodeGen mesh halo out) = Inr g" and "mg_module g = Some f"
    and "c \<in> subs True (\<lambda>_. False) f" "is_Call c" and "d \<in> subs True (\<lambda>_. False) f" "is_Call d"
  shows "(\<exists>t. checked_type c = Some t \<and> positive_type t) \<and> (\<forall>v. pair_score c d = Inr v \<longrightarrow> 0 \<le> v)"
proof -
  obtain u body where f: "f = Function u (mg_args_data g) body None None" "\<forall>v \<in> set (mg_args_data g). input_ok (mg_addr g) v"
    "module_ok (mg_args_data g) body" using from_mlir_module[OF assms(1)] assms(2) by auto
  note node = module_nodes[OF f(3,2)]
  have pos: "\<forall>t. checked_type x = Some t \<longrightarrow> positive_type t" if "read_ok (set (mg_args_data g)) x" for x
    using read_ok_positive[OF that f(2)] by blast
  have c: "read_ok (set (mg_args_data g)) c" "checked_type c \<noteq> None" and d: "read_ok (set (mg_args_data g)) d"
    using node(1,2) assms(3-6) unfolding f(1) by blast+
  have args: "\<forall>x \<in> set (call_args c). read_ok (set (mg_args_data g)) x" using c(1) by (cases c) (auto simp: list_all_iff)
  have "0 \<le> v" if sc: "pair_score c d = Inr v" for v
  proof -
    obtain ins sts where v: "res_map volume (remdups (filter (\<lambda>x. x \<in> set (call_args d)) (call_args c))) = Inr ins"
      "res_map volume (result_reuse c d) = Inr sts" "v = sum_list (map (\<lambda>v. v * p_input) ins) + sum_list (map (\<lambda>v. v * p_stencil) sts)"
      using sc by (auto simp: pair_score_def and_then_eq_Inr)
    have "set (result_reuse c d) \<subseteq> {c, d}" by (auto simp: result_reuse_def attribute_is_def split: expr.splits)
    then have "0 \<le> sum_list (map (\<lambda>v. v * p_stencil) sts)"
      using c(1) d pos by (intro volumes_nonneg[OF v(2)]) (auto simp: p_stencil_def)
    moreover have "0 \<le> sum_list (map (\<lambda>v. v * p_input) ins)"
      using args pos by (intro volumes_nonneg[OF v(1)]) (auto simp: p_input_def)
    ultimately show ?thesis using v(3) by simp
  qed
  then show ?thesis using c pos by blast
qed



section \<open>A file\<close>

text \<open>The lines of a file from its load on: two stencils, one reading the other, and a store.\<close>

definition ex_file :: "string list" where
  "ex_file =
    [''%2 = stencil.load %0 : (!stencil.field<80x80x80xf64>) -> !stencil.temp<?x?x?xf64>'',
     ''  %3 = stencil.apply (%arg2 = %2 : !stencil.temp<?x?x?xf64>) -> !stencil.temp<?x?x?xf64> {'',
     ''%5 = stencil.access %arg2 [-1, 0, 0] : f64'', ''stencil.return %5 : f64'', ''}'',
     ''  %4 = stencil.apply (%arg2 = %3 : !stencil.temp<?x?x?xf64>) -> !stencil.temp<?x?x?xf64> {'',
     ''%5 = stencil.access %arg2 [0, 1, 0] : f64'', ''stencil.return %5 : f64'', ''}'',
     ''stencil.store %4 to %1([0, 0, 0] : [64, 64, 64])'']"

definition ex_var :: expr where
  "ex_var = Var 0 ''data_2'' (Some (TensorType [80, 80, 80] ''float32''))"

definition ex_first :: expr where
  "ex_first = Call 1 (Op ''stencil.grid1stencil'') [ex_var] (Some (GridAttrs ''stencil_3''))"

definition ex_second :: expr where
  "ex_second = Call 2 (Op ''stencil.grid1stencil'') [ex_first] (Some (GridAttrs ''stencil_4''))"

lemma ex_file_read:
  "\<exists>g. from_mlir ex_file ''lap'' (MLIRCodeGen 64 8 False) = Inr g \<and> mg_ret_data g \<noteq> [] \<and> mg_args_data g = [ex_var] \<and>
     mg_module g = Some (Function 3 [ex_var] ex_second None None) \<and> mg_addr g = 4"
proof -
  have "case from_mlir ex_file ''lap'' (MLIRCodeGen 64 8 False) of
      Inr g \<Rightarrow> mg_ret_data g \<noteq> [] \<and> mg_args_data g = [ex_var] \<and> mg_module g = Some (Function 3 [ex_var] ex_second None None) \<and> mg_addr g = 4
    | Inl e \<Rightarrow> False"
    by code_simp
  then show ?thesis by (auto split: sum.splits)
qed


theorem from_mlir_fragment_witness:
  "\<exists>g body. from_mlir ex_file ''lap'' (MLIRCodeGen 64 8 False) = Inr g \<and> mg_ret_data g \<noteq> [] \<and> main_ok [ex_var] body 4 \<and> body = ex_second"
proof -
  obtain g where g: "from_mlir ex_file ''lap'' (MLIRCodeGen 64 8 False) = Inr g" "mg_ret_data g \<noteq> []" "mg_args_data g = [ex_var]"
    "mg_module g = Some (Function 3 [ex_var] ex_second None None)" "mg_addr g = 4" using ex_file_read by blast
  from from_mlir_fragment[OF g(1,2)] g show ?thesis by auto
qed

lemma ex_calls_read: "ex_first \<in> subs True (\<lambda>_. False) (Function 3 [ex_var] ex_second None None)" "is_Call ex_first"
    "ex_second \<in> subs True (\<lambda>_. False) (Function 3 [ex_var] ex_second None None)" "is_Call ex_second"
proof -
  show second: "ex_second \<in> subs True (\<lambda>_. False) (Function 3 [ex_var] ex_second None None)" by (rule subs_kid[OF subs_self]) (simp add: kids_def)
  show "ex_first \<in> subs True (\<lambda>_. False) (Function 3 [ex_var] ex_second None None)" by (rule subs_kid[OF second]) (simp add: kids_def ex_second_def)
  show "is_Call ex_first" "is_Call ex_second" by (simp_all add: ex_first_def ex_second_def)
qed

theorem from_mlir_extents_witness:
  "\<exists>t. checked_type ex_first = Some t \<and> positive_type t \<and> pair_score ex_first ex_second = Inr 1024000 \<and> (0 :: int) \<le> 1024000"
proof -
  obtain g where g: "from_mlir ex_file ''lap'' (MLIRCodeGen 64 8 False) = Inr g" "mg_module g = Some (Function 3 [ex_var] ex_second None None)"
    using ex_file_read by blast
  have "pair_score ex_first ex_second = Inr 1024000" by code_simp
  with from_mlir_extents[OF g ex_calls_read] show ?thesis by auto
qed

end
