(* ===== verification/Mlir_Roundtrip.thy ===== *)
theory Mlir_Roundtrip
  imports Mlir_Print Mlir_Reader
begin

text \<open>
  The reader undoes the printer: the line \<^verbatim>\<open>print_code\<close> writes for a call is read by \<^verbatim>\<open>parse_apply\<close> as an operator applied to
  the same arguments, with the same number of results.
\<close>

section \<open>Finding the parts of a line\<close>

lemma text_between_parts:
  assumes "l \<notin> set a" "r \<notin> set a" "r \<notin> set b" "l \<noteq> r"
  shows "text_between [l] [r] (a @ l # b @ r # c) = b"
proof -
  have "py_find (a @ l # b @ r # c) [l] = int (length a)" using assms(1) by (rule py_find_append)
  moreover have "py_find ((a @ l # b) @ r # c) [r] = int (length (a @ l # b))" using assms by (intro py_find_append) auto
  ultimately show ?thesis by (simp add: text_between_def py_slice_def py_bound_def nat_add_distrib)
qed

section \<open>Names\<close>

definition plain :: "string \<Rightarrow> bool" where
  "plain s \<longleftrightarrow> s \<noteq> [] \<and> list_all (\<lambda>c. \<not> is_space c \<and> c \<notin> set ''(),:#'') s"

definition plain_shape :: "string \<Rightarrow> bool" where
  "plain_shape s \<longleftrightarrow> list_all (\<lambda>c. c \<notin> set ''),'') s"

text \<open>The names and shapes of a generator that read a file.\<close>

definition gen_plain :: "mlir_gen \<Rightarrow> bool" where
  "gen_plain g \<longleftrightarrow> list_all (plain \<circ> snd) (mg_variable2name g) \<and> list_all (plain \<circ> snd) (mg_fuse_name_map g) \<and>
     list_all (plain_shape \<circ> snd) (mg_data2shape g) \<and> plain_shape (mg_dtype g)"

lemma plain_nonempty: "plain s \<Longrightarrow> s \<noteq> []"
  by (simp add: plain_def)

lemma plain_chars: "plain s \<Longrightarrow> c \<in> set s \<Longrightarrow>
    \<not> is_space c \<and> c \<noteq> CHR ''('' \<and> c \<noteq> CHR '')'' \<and> c \<noteq> CHR '','' \<and> c \<noteq> CHR '':'' \<and> c \<noteq> CHR ''#''"
  by (auto simp: plain_def list_all_iff)

lemma default_all: "list_all (P \<circ> snd) d \<Longrightarrow> P v \<Longrightarrow> P (dict_get_default d k v)"
  by (cases "map_of d k") (auto simp: dict_get_default_def list_all_iff dest!: map_of_SomeD)

lemma printed_name_plain:
  assumes "gen_plain g" "printed_name g e = Inr n"
  shows "plain n"
proof -
  obtain m where m: "map_of (mg_variable2name g) e = Some m" "n = dict_get_default (mg_fuse_name_map g) m m"
    using assms(2) by (auto simp: printed_name_def and_then_eq_Inr dict_get_Inr)
  then have "plain m" using assms(1) map_of_SomeD[OF m(1)] by (auto simp: gen_plain_def list_all_iff)
  then show ?thesis using assms(1) default_all[of plain "mg_fuse_name_map g"] by (simp add: gen_plain_def m(2))
qed

lemma temp_type_plain: "plain_shape (mg_dtype g) \<Longrightarrow> plain_shape (temp_type g)"
  by (simp add: plain_shape_def temp_type_def)

lemma shape_plain: "gen_plain g \<Longrightarrow> plain_shape (dict_get_default (mg_data2shape g) (TagKey arg) (temp_type g))"
  using default_all[of plain_shape "mg_data2shape g"] temp_type_plain by (auto simp: gen_plain_def)

text \<open>The name an argument is printed with when it is not streamed.\<close>

definition arg_text :: "mlir_gen \<Rightarrow> expr \<Rightarrow> string \<Rightarrow> bool" where
  "arg_text g x s \<longleftrightarrow> (case x of
     TupleGetItem u tv i \<Rightarrow> \<exists>n. printed_name g tv = Inr n \<and> s = n @ ''#'' @ str_of_nat i
   | _ \<Rightarrow> printed_name g x = Inr s)"

lemma print_arg_text: "print_arg g False x = Inr s \<Longrightarrow> arg_text g x s"
  by (cases x) (auto simp: print_arg_def arg_text_def and_then_eq_Inr py_replace_self)

lemma arg_text_chars:
  assumes "gen_plain g" "arg_text g x s"
  shows "s \<noteq> []" "c \<in> set s \<Longrightarrow> \<not> is_space c \<and> c \<noteq> CHR '','' \<and> c \<noteq> CHR '')''"
proof -
  have "s \<noteq> [] \<and> (\<forall>c \<in> set s. \<not> is_space c \<and> c \<noteq> CHR '','' \<and> c \<noteq> CHR '')'')"
  proof (cases "\<exists>n i. printed_name g (case x of TupleGetItem u tv i \<Rightarrow> tv | _ \<Rightarrow> x) = Inr n \<and> s = n @ ''#'' @ str_of_nat i")
    case True
    then obtain n i where n: "plain n" "s = n @ ''#'' @ str_of_nat i" using printed_name_plain[OF assms(1)] by blast
    show ?thesis using plain_chars[OF n(1)] str_of_nat_digits[of _ i] digit_plain by (auto simp: n(2) is_space_def)
  next
    case False
    then have "plain s" using assms printed_name_plain[OF assms(1)] by (cases x) (auto simp: arg_text_def)
    then show ?thesis using plain_chars plain_nonempty by blast
  qed
  then show "s \<noteq> []" "c \<in> set s \<Longrightarrow> \<not> is_space c \<and> c \<noteq> CHR '','' \<and> c \<noteq> CHR '')''" by blast+
qed


section \<open>The line of a call\<close>

lemma apply_arg_words:
  assumes "\<And>c. c \<in> set s \<Longrightarrow> \<not> is_space c" "s \<noteq> []"
  shows "py_nth (py_split_ws (apply_arg g (idx, s))) 2 = Inr s"
proof -
  let ?k = "''%arg'' @ str_of_int (mg_args_base g + int idx)"
  let ?sh = "dict_get_default (mg_data2shape g) (TagKey s) (temp_type g)"
  have k: "\<not> is_space c" if "c \<in> set ?k" for c using that str_of_int_chars[of c] by (auto simp: is_space_def)
  have a: "apply_arg g (idx, s) = ?k @ CHR '' '' # ''='' @ CHR '' '' # s @ CHR '' '' # '': '' @ ?sh" by (simp add: apply_arg_def)
  have "py_split_ws (''='' @ CHR '' '' # s @ CHR '' '' # '': '' @ ?sh) = ''='' # py_split_ws (s @ CHR '' '' # '': '' @ ?sh)"
    by (rule py_split_ws_word) (auto simp: is_space_def)
  moreover have "py_split_ws (s @ CHR '' '' # '': '' @ ?sh) = s # py_split_ws ('': '' @ ?sh)" using assms by (rule py_split_ws_word)
  ultimately have "py_split_ws (apply_arg g (idx, s)) = ?k # ''='' # s # py_split_ws ('': '' @ ?sh)"
    unfolding a by (subst py_split_ws_word[OF k]) simp_all
  then show ?thesis by (simp add: py_nth_def)
qed

lemma apply_arg_chars:
  assumes "gen_plain g" "\<And>c. c \<in> set s \<Longrightarrow> c \<noteq> CHR '','' \<and> c \<noteq> CHR '')''"
  shows "CHR '','' \<notin> set (apply_arg g (idx, s))" "CHR '')'' \<notin> set (apply_arg g (idx, s))"
proof -
  let ?sh = "dict_get_default (mg_data2shape g) (TagKey s) (temp_type g)" and ?k = "str_of_int (mg_args_base g + int idx)"
  have "CHR '','' \<notin> set ?sh" "CHR '')'' \<notin> set ?sh" using shape_plain[OF assms(1), of s] by (auto simp: plain_shape_def list_all_iff)
  moreover have "CHR '','' \<notin> set ?k" "CHR '')'' \<notin> set ?k" using str_of_int_chars by blast+
  moreover have "CHR '','' \<notin> set s" "CHR '')'' \<notin> set s" using assms(2) by blast+
  ultimately show "CHR '','' \<notin> set (apply_arg g (idx, s))" "CHR '')'' \<notin> set (apply_arg g (idx, s))" by (simp_all add: apply_arg_def)
qed

lemma apply_args_header:
  assumes "gen_plain g" "args \<noteq> []" "\<forall>s \<in> set args. s \<noteq> [] \<and> (\<forall>c \<in> set s. \<not> is_space c \<and> c \<noteq> CHR '','' \<and> c \<noteq> CHR '')'')"
    and "CHR ''('' \<notin> set out" "CHR '')'' \<notin> set out"
  shows "apply_args (apply_header out (map (apply_arg g) (enumerate 0 args)) ret @ rest) = Inr args"
proof -
  let ?l = "map (apply_arg g) (enumerate 0 args)"
  have nth: "?l ! i = apply_arg g (i, args ! i)" if "i < length args" for i using that by (simp add: nth_enumerate_eq)
  have free: "CHR '','' \<notin> set x \<and> CHR '')'' \<notin> set x" if x: "x \<in> set ?l" for x
  proof -
    obtain i where i: "i < length args" "x = apply_arg g (i, args ! i)" using x by (auto simp: in_set_enumerate_eq)
    then have "\<forall>c \<in> set (args ! i). c \<noteq> CHR '','' \<and> c \<noteq> CHR '')''" using assms(3) nth_mem by blast
    then show ?thesis using apply_arg_chars[OF assms(1), of "args ! i" i] i(2) by blast
  qed
  have h: "apply_header out ?l ret @ rest = (out @ '' = stencil.apply '') @ CHR ''('' # py_join '', '' ?l @ CHR '')'' # ('' -> '' @ ret @ '' '' @ rest)"
    by (simp add: apply_header_def)
  have "CHR '')'' \<notin> \<Union> (set ` set ?l)" using free by blast
  then have "CHR '')'' \<notin> set (py_join '', '' ?l)" using set_py_join[of "'', ''" ?l] by auto
  then have "text_between ''('' '')'' (apply_header out ?l ret @ rest) = py_join '', '' ?l"
    unfolding h using assms(4,5) by (intro text_between_parts) auto
  moreover have "?l \<noteq> []" using assms(2) by (cases args) simp_all
  then have "py_split (py_join '', '' ?l) '', '' = ?l" by (rule py_split_join2) (use free in blast)
  moreover have "py_nth (py_split_ws (?l ! i)) 2 = Inr (args ! i)" if i: "i < length args" for i
    unfolding nth[OF i] using assms(3) nth_mem[OF i] by (intro apply_arg_words) blast+
  then have "res_map (\<lambda>a. py_nth (py_split_ws a) 2) ?l = Inr args" unfolding res_map_eq_Inr by simp
  ultimately show ?thesis by (simp add: apply_args_def)
qed

lemma apply_output_chars:
  assumes "plain n" "c \<in> set (apply_output n t)"
  shows "\<not> is_space c \<and> c \<noteq> CHR ''('' \<and> c \<noteq> CHR '')''"
  using assms(2) plain_chars[OF assms(1), of c] str_of_nat_digits[of c] digit_plain[of c]
  by (auto simp: apply_output_def is_space_def split: rtype.splits)

definition result_count :: "rtype \<Rightarrow> nat" where
  "result_count t = (case t of TupleType ts \<Rightarrow> length ts | _ \<Rightarrow> 1)"

lemma apply_result_output:
  assumes "plain n"
  shows "apply_result (apply_output n t) = Inr (n, int (result_count t))"
proof -
  have n: "CHR '':'' \<notin> set n" using plain_chars[OF assms] by blast
  have "py_int (str_of_nat k) = Inr (int k)" for k using py_int_str_of_int[of "int k"] by (simp add: str_of_int_def)
  moreover have "CHR '':'' \<notin> set (str_of_nat k)" for k using str_of_nat_digits[of "CHR '':''"] digit_plain by blast
  ultimately show ?thesis
    using n py_split_append[OF n] by (cases t) (simp_all add: apply_result_def apply_output_def result_count_def py_in_single pair_split_def py_split_free)
qed

text \<open>The first word of the line, and the arguments the reader finds.\<close>

lemma first_word_header:
  assumes "plain n"
  shows "py_nth (py_split_ws (apply_header (apply_output n t) l ret @ rest)) 0 = Inr (apply_output n t)"
proof -
  have "apply_output n t \<noteq> []" using plain_nonempty[OF assms] by (simp add: apply_output_def split: rtype.splits)
  then have "py_split_ws (apply_output n t @ CHR '' '' # (''= stencil.apply ('' @ py_join '', '' l @ '') -> '' @ ret @ '' '' @ rest)) =
      apply_output n t # py_split_ws (''= stencil.apply ('' @ py_join '', '' l @ '') -> '' @ ret @ '' '' @ rest)"
    using apply_output_chars[OF assms] by (intro py_split_ws_word) blast+
  then show ?thesis by (simp add: apply_header_def py_nth_def)
qed

text \<open>What the reader makes of an argument: the value it holds for the name, projected as the argument is.\<close>

definition read_back :: "mlir_gen \<Rightarrow> mlir_gen \<Rightarrow> expr \<Rightarrow> expr \<Rightarrow> bool" where
  "read_back g h x v \<longleftrightarrow> (case x of
     TupleGetItem u tv i \<Rightarrow> \<exists>n w y. printed_name g tv = Inr n \<and> tag_data h n = Inr y \<and> v = TupleGetItem w y i
   | _ \<Rightarrow> \<exists>n. printed_name g x = Inr n \<and> tag_data h n = Inr v)"

definition base_of :: "expr \<Rightarrow> expr" where
  "base_of x = (case x of TupleGetItem u tv i \<Rightarrow> tv | _ \<Rightarrow> x)"

lemma arg_var_text:
  assumes "gen_plain g" "arg_text g x s" "\<exists>n v. printed_name g (base_of x) = Inr n \<and> tag_data h n = Inr v"
    and "mg_tag2code h' = mg_tag2code h"
  shows "\<exists>v h2. arg_var s (vs, h') = Inr (vs @ [v], h2) \<and> mg_tag2code h2 = mg_tag2code h \<and> read_back g h x v"
proof -
  have t: "tag_data h' n = tag_data h n" for n using assms(4) by (simp add: tag_data_def)
  show ?thesis
  proof (cases "is_TupleGetItem x")
    case True
    then obtain u tv i where x: "x = TupleGetItem u tv i" by (cases x) auto
    then obtain n v where n: "printed_name g tv = Inr n" "tag_data h n = Inr v" "s = n @ CHR ''#'' # str_of_nat i"
      using assms(2,3) by (auto simp: arg_text_def base_of_def)
    have free: "CHR ''#'' \<notin> set n" using plain_chars[OF printed_name_plain[OF assms(1) n(1)]] by blast
    have i: "py_int (str_of_nat i) = Inr (int i)" using py_int_str_of_int[of "int i"] by (simp add: str_of_int_def)
    have "CHR ''#'' \<notin> set (str_of_nat i)" using str_of_nat_digits digit_plain by blast
    then have "pair_split s ''#'' = Inr (n, str_of_nat i)" unfolding n(3) by (simp add: pair_split_def py_split_append[OF free] py_split_free)
    moreover have "py_in ''#'' s" by (simp add: py_in_single n(3))
    ultimately show ?thesis using n i assms(4) by (simp add: arg_var_def t x read_back_def)
  next
    case False
    then have n: "printed_name g x = Inr s" "\<exists>v. tag_data h s = Inr v" using assms(2,3) by (cases x; auto simp: arg_text_def base_of_def)+
    have "CHR ''#'' \<notin> set s" using plain_chars[OF printed_name_plain[OF assms(1) n(1)]] by blast
    then show ?thesis using n assms(4) False by (cases x) (auto simp: arg_var_def py_in_single t read_back_def)
  qed
qed

lemma arg_vars_text:
  assumes "gen_plain g" "list_all2 (arg_text g) xs ss" "\<forall>x \<in> set xs. \<exists>n v. printed_name g (base_of x) = Inr n \<and> tag_data h n = Inr v"
    and "mg_tag2code h' = mg_tag2code h"
  shows "\<exists>vs' h2. res_fold arg_var ss (vs, h') = Inr (vs @ vs', h2) \<and> mg_tag2code h2 = mg_tag2code h \<and> list_all2 (read_back g h) xs vs'"
  using assms(2-4)
proof (induction xs ss arbitrary: vs h' rule: list_all2_induct)
  case (Cons x xs s ss)
  obtain v h3 where v: "arg_var s (vs, h') = Inr (vs @ [v], h3)" "mg_tag2code h3 = mg_tag2code h" "read_back g h x v"
    using arg_var_text[OF assms(1) Cons(1), of h h' vs] Cons.prems by auto
  obtain vs' h2 where "res_fold arg_var ss (vs @ [v], h3) = Inr ((vs @ [v]) @ vs', h2)" "mg_tag2code h2 = mg_tag2code h" "list_all2 (read_back g h) xs vs'"
    using Cons.IH[of h3 "vs @ [v]"] Cons.prems v(2) by auto
  then show ?case using v by (intro exI[of _ "v # vs'"] exI[of _ h2]) simp
qed simp


section \<open>The round trip\<close>

lemma print_code_header:
  assumes "print_code limit g call stream = Some (Inr text)"
  shows "\<exists>n t args rest. printed_name g call = Inr n \<and> checked_type call = Some t \<and>
    and_then (expr_args call) (res_map (print_arg g stream)) = Inr args \<and>
    text = apply_header (apply_output n t) (map (apply_arg g) (enumerate 0 args)) (apply_ret_type g t) @ rest"
  using assms unfolding print_code_def run_then_eq_Inr typed_def by (auto split: option.splits)

lemma mout_operator: "dict_get name2relayop (''in'' @ str_of_nat k @ ''mout'') = Inr op \<Longrightarrow> op = ''stencil.grid2mostencil''"
proof -
  assume "dict_get name2relayop (''in'' @ str_of_nat k @ ''mout'') = Inr op"
  then have "(''in'' @ str_of_nat k @ ''mout'', op) \<in> set name2relayop" by (auto simp: dict_get_Inr dest: map_of_SomeD)
  moreover have "rev (''in'' @ str_of_nat k @ ''mout'') ! 0 = CHR ''t''" by simp
  ultimately show ?thesis by (auto simp: name2relayop_def)
qed

text \<open>C5: Printing a call and reading the printed line gives the call back: when the reader holds a value for the name of every
  argument, \<^verbatim>\<open>parse_apply\<close> on the text \<^verbatim>\<open>print_code\<close> writes defines the printed name as a call of the operator with as many inputs and
  results, tagged with that name, and its arguments are the held values, projected where the arguments of the call are projections.
  (Names contain no blanks, brackets, commas, colons or \<^verbatim>\<open>#\<close>, and shapes no comma or closing bracket.)\<close>

theorem print_code_roundtrip:
  assumes "print_code limit g (Call u f as a) False = Some (Inr text)" and "gen_plain g" and "as \<noteq> []"
    and "\<forall>x \<in> set as. \<exists>n v. printed_name g (base_of x) = Inr n \<and> tag_data h n = Inr v"
    and "checked_type (Call u f as a) = Some t" and "1 \<le> result_count t"
    and "dict_get name2relayop (''in'' @ str_of_nat (length as) @ (if result_count t = 1 then ''out1'' else ''mout'')) = Inr op"
  shows "\<exists>n h' w vs. printed_name g (Call u f as a) = Inr n \<and> parse_apply text body h = Inr h' \<and>
    tag_data h' n = Inr (Call w (Op op) vs (Some (if op = ''stencil.grid2mostencil'' then GridMOAttrs (py_replace n ''%'' ''stencil_'') (result_count t)
      else GridAttrs (py_replace n ''%'' ''stencil_'')))) \<and>
    list_all2 (read_back g h) as vs"
proof -
  obtain n args rest where p: "printed_name g (Call u f as a) = Inr n" "res_map (print_arg g False) as = Inr args"
    and line: "text = apply_header (apply_output n t) (map (apply_arg g) (enumerate 0 args)) (apply_ret_type g t) @ rest"
    using print_code_header[OF assms(1)] assms(5) by auto
  have n: "plain n" using printed_name_plain[OF assms(2) p(1)] .
  have texts: "list_all2 (arg_text g) as args" using p(2) print_arg_text by (auto simp: res_map_eq_Inr list_all2_conv_all_nth)
  have chars: "s \<noteq> [] \<and> (\<forall>c \<in> set s. \<not> is_space c \<and> c \<noteq> CHR '','' \<and> c \<noteq> CHR '')'')" if "s \<in> set args" for s
    using arg_text_chars[OF assms(2)] texts that by (metis in_set_conv_nth list_all2_conv_all_nth)
  have len: "length args = length as" using texts list_all2_lengthD by fastforce
  then have ne: "args \<noteq> []" using assms(3) by auto
  have out: "CHR ''('' \<notin> set (apply_output n t)" "CHR '')'' \<notin> set (apply_output n t)" using apply_output_chars[OF n] by blast+
  have "apply_args text = Inr args" unfolding line by (rule apply_args_header[OF assms(2) ne _ out]) (use chars in blast)
  moreover have "py_nth (py_split_ws text) 0 = Inr (apply_output n t)" unfolding line by (rule first_word_header[OF n])
  moreover obtain vs h2 where vs: "res_fold arg_var args ([], h) = Inr (vs, h2)" "mg_tag2code h2 = mg_tag2code h" "list_all2 (read_back g h) as vs"
    using arg_vars_text[OF assms(2) texts assms(4), of h "[]"] by auto
  moreover have "length vs = length as" using list_all2_lengthD[OF vs(3)] by simp
  moreover have "relay_call (mg_addr h2) op vs tag (int (result_count t)) = Inr (Call (mg_addr h2) (Op op) vs
      (Some (if op = ''stencil.grid2mostencil'' then GridMOAttrs tag (result_count t) else GridAttrs tag)))" for tag
    using assms(6,7) mout_operator by (auto simp: relay_call_def split: if_splits)
  ultimately show ?thesis
    using p(1) assms(7) by (auto simp: parse_apply_def apply_result_output[OF n] tag_data_def dict_get_def update_conv' split: if_splits)
qed


text \<open>A call that reads a field and the second result of a stencil with two results.\<close>

definition ex_pair :: expr where
  "ex_pair = Call 1 (Op ''stencil.grid2mostencil'') [ex_var, ex_var] (Some (GridMOAttrs ''stencil_3'' 2))"

definition ex_reads :: expr where
  "ex_reads = Call 3 (Op ''stencil.grid2stencil'') [ex_var, TupleGetItem 2 ex_pair 1] (Some (GridAttrs ''stencil_4''))"

definition ex_print :: mlir_gen where
  "ex_print = (MLIRCodeGen 64 8 False)\<lparr>mg_args_base := 2, mg_variable2name := [(ex_var, ''%2''), (ex_pair, ''%3''), (ex_reads, ''%4'')],
     mg_tag2code := [(''%2'', \<lparr>ce_type = ''var'', ce_data = ex_var, ce_body = None\<rparr>),
       (''%3'', \<lparr>ce_type = ''func'', ce_data = ex_pair, ce_body = Some []\<rparr>),
       (''%4'', \<lparr>ce_type = ''func'', ce_data = ex_reads, ce_body = Some [''stencil.return %8'']\<rparr>)]\<rparr>"

theorem print_code_roundtrip_witness:
  "\<exists>text h' w w'. print_code 5 ex_print ex_reads False = Some (Inr text) \<and> parse_apply text [] ex_print = Inr h' \<and>
     tag_data h' ''%4'' = Inr (Call w (Op ''stencil.grid2stencil'') [ex_var, TupleGetItem w' ex_pair 1] (Some (GridAttrs ''stencil_4'')))"
proof -
  have "case print_code 5 ex_print ex_reads False of Some (Inr text) \<Rightarrow> True | _ \<Rightarrow> False" by code_simp
  then obtain s where p: "print_code 5 ex_print ex_reads False = Some (Inr s)" by (auto split: option.splits sum.splits)
  have pn: "printed_name ex_print ex_var = Inr ''%2''" "printed_name ex_print ex_pair = Inr ''%3''" "printed_name ex_print ex_reads = Inr ''%4''"
    by code_simp+
  have td: "tag_data ex_print ''%2'' = Inr ex_var" "tag_data ex_print ''%3'' = Inr ex_pair" by code_simp+
  have a: "gen_plain ex_print" "checked_type ex_reads = Some (TensorType [80, 80, 80] ''float32'')"
    by code_simp+
  have b: "base_of ex_var = ex_var" "base_of (TupleGetItem 2 ex_pair 1) = ex_pair" by (simp_all add: base_of_def ex_var_def)
  have r: "py_replace ''%4'' ''%'' ''stencil_'' = ''stencil_4''" by code_simp
  have v: "read_back ex_print ex_print ex_var v \<longleftrightarrow> v = ex_var" for v
    using pn(1) td(1) by (auto simp: read_back_def ex_var_def)
  have v2: "read_back ex_print ex_print (TupleGetItem 2 ex_pair 1) v \<longleftrightarrow> (\<exists>w. v = TupleGetItem w ex_pair 1)" for v
    using pn(2) td(2) by (auto simp: read_back_def)
  have reads: "\<forall>x \<in> set [ex_var, TupleGetItem 2 ex_pair 1]. \<exists>n v. printed_name ex_print (base_of x) = Inr n \<and> tag_data ex_print n = Inr v"
    using pn td b by simp
  have key: "dict_get name2relayop (''in'' @ str_of_nat (length [ex_var, TupleGetItem 2 ex_pair 1]) @
      (if result_count (TensorType [80, 80, 80] ''float32'') = 1 then ''out1'' else ''mout'')) = Inr ''stencil.grid2stencil''"
    "1 \<le> result_count (TensorType [80, 80, 80] ''float32'')" by code_simp+
  obtain n h' w vs where q: "printed_name ex_print ex_reads = Inr n" "parse_apply s [] ex_print = Inr h'"
    "tag_data h' n = Inr (Call w (Op ''stencil.grid2stencil'') vs (Some (GridAttrs (py_replace n ''%'' ''stencil_''))))"
    "list_all2 (read_back ex_print ex_print) [ex_var, TupleGetItem 2 ex_pair 1] vs"
    using print_code_roundtrip[OF p[unfolded ex_reads_def] a(1) _ reads a(2)[unfolded ex_reads_def] key(2,1), of "[]"]
    unfolding ex_reads_def by auto
  obtain w' where "vs = [ex_var, TupleGetItem w' ex_pair 1]" using q(4) unfolding list_all2_Cons1 v v2 by auto
  then show ?thesis using p q pn(3) r by auto
qed

end
