(* ===== verification/Mlir_Text.thy ===== *)
theory Mlir_Text
  imports Mlir_Fuse
begin

text \<open>
  What \<^verbatim>\<open>add_suffix\<close> (\<^verbatim>\<open>relay/transform/mlir.py\<close>) does to names: the suffixes keep the variables of the fused stencils apart.
\<close>

section \<open>Suffixes\<close>

text \<open>A variable token may carry the comma of an argument list; elsewhere it has none.\<close>

definition tidy :: "string \<Rightarrow> bool" where
  "tidy t \<longleftrightarrow> CHR '','' \<notin> set (butlast t)"

definition token_var :: "string \<Rightarrow> string" where
  "token_var t = (if py_endswith t '','' then butlast t else t)"

definition line_vars :: "string \<Rightarrow> string set" where
  "line_vars line = token_var ` {t \<in> set (py_split_ws line). py_in ''%'' t}"

definition body_vars :: "string list \<Rightarrow> string set" where
  "body_vars body = \<Union> (line_vars ` set body)"

lemma suffix_token_var:
  assumes "py_in ''%'' t" "tidy t"
  shows "token_var (suffix_token k t) = token_var t @ ''_'' @ str_of_nat k \<and> py_in ''%'' (suffix_token k t)"
proof -
  have d: "CHR '','' \<notin> set (str_of_nat k)" using str_of_nat_digits[of "CHR '',''" k] by (auto simp: py_isdigit_def)
  have last_free: "x \<noteq> CHR '',''" if "str_of_nat k = xs @ [x]" for xs x using d that by auto
  obtain xs x where k: "str_of_nat k = xs @ [x]" by (cases "str_of_nat k" rule: rev_cases) auto
  show ?thesis
  proof (cases "py_endswith t '',''")
    case True
    then obtain n where n: "t = n @ '',''" "CHR '','' \<notin> set n" using assms(2) by (cases t rule: rev_cases) (auto simp: py_endswith_single tidy_def)
    have "suffix_token k t = n @ ''_'' @ str_of_nat k @ '',''"
      using assms(1) py_replace_last[OF n(2), of "''_'' @ str_of_nat k" "''_'' @ str_of_nat k @ '',''"] by (simp add: suffix_token_def n(1))
    then show ?thesis using assms(1) by (simp add: token_var_def py_endswith_single n(1) py_in_single butlast_append)
  next
    case False
    have free: "CHR '','' \<notin> set t" using False assms(2) by (cases t rule: rev_cases) (auto simp: py_endswith_single tidy_def)
    then have "\<not> py_in ('',_'' @ str_of_nat k) (t @ ''_'' @ str_of_nat k)" using py_in_first[of "CHR '',''"] d by fastforce
    then have "suffix_token k t = t @ ''_'' @ str_of_nat k" using assms(1) by (simp add: suffix_token_def py_replace_absent)
    then show ?thesis using False assms(1) last_free[OF k] by (auto simp: token_var_def py_endswith_single k py_in_single)
  qed
qed

lemma suffix_token_other: "\<not> py_in ''%'' t \<Longrightarrow> \<not> py_in ''%'' (suffix_token k t)"
  using set_py_replace[of t "'',_'' @ str_of_nat k" "''_'' @ str_of_nat k @ '',''"] str_of_nat_digits[of "CHR ''%''" k]
  by (auto simp: suffix_token_def py_in_single py_isdigit_def)

lemma suffix_token_word:
  assumes "t \<noteq> []" "\<forall>c \<in> set t. \<not> is_space c"
  shows "suffix_token k t \<noteq> [] \<and> (\<forall>c \<in> set (suffix_token k t). \<not> is_space c)"
proof -
  let ?s = "if py_in ''%'' t then t @ ''_'' @ str_of_nat k else t"
  have d: "\<not> is_space c" if "c \<in> set (str_of_nat k)" for c using that str_of_nat_digits digit_plain by blast
  have "set (suffix_token k t) \<subseteq> set ?s \<union> set (''_'' @ str_of_nat k @ '','')" unfolding suffix_token_def by (rule set_py_replace)
  also have "\<dots> \<subseteq> set t \<union> set (str_of_nat k) \<union> {CHR ''_'', CHR '',''}" by auto
  finally have sub: "set (suffix_token k t) \<subseteq> set t \<union> set (str_of_nat k) \<union> {CHR ''_'', CHR '',''}" .
  have "\<not> is_space (CHR ''_'')" "\<not> is_space (CHR '','')" by (simp_all add: is_space_def)
  then have "\<forall>c \<in> set (suffix_token k t). \<not> is_space c" using assms(2) d sub by blast
  moreover have "suffix_token k t \<noteq> []" unfolding suffix_token_def using assms(1) by (intro py_replace_nonempty) auto
  ultimately show ?thesis by blast
qed

lemma suffix_line_vars:
  assumes "\<forall>t \<in> set (py_split_ws line). py_in ''%'' t \<longrightarrow> tidy t"
  shows "line_vars (suffix_line k line) = (\<lambda>v. v @ ''_'' @ str_of_nat k) ` line_vars line"
proof -
  have iff: "py_in ''%'' (suffix_token k t) \<longleftrightarrow> py_in ''%'' t" if "t \<in> set (py_split_ws line)" for t
    using suffix_token_var[of t k] suffix_token_other[of t k] assms that by blast
  have "py_split_ws (suffix_line k line) = map (suffix_token k) (py_split_ws line)"
    unfolding suffix_line_def by (rule py_split_ws_join) (use suffix_token_word py_split_ws_words in \<open>simp, blast\<close>)
  then have "{t \<in> set (py_split_ws (suffix_line k line)). py_in ''%'' t} = suffix_token k ` {t \<in> set (py_split_ws line). py_in ''%'' t}"
    using iff by auto
  then show ?thesis using suffix_token_var assms by (force simp: line_vars_def image_image)
qed

lemma suffix_inj: "x @ ''_'' @ str_of_nat i = y @ ''_'' @ str_of_nat j \<Longrightarrow> i = j"
proof -
  assume "x @ ''_'' @ str_of_nat i = y @ ''_'' @ str_of_nat j"
  then have "last (py_split (x @ CHR ''_'' # str_of_nat i) ''_'') = last (py_split (y @ CHR ''_'' # str_of_nat j) ''_'')" by simp
  moreover have "last (split_go ''_'' acc (x @ CHR ''_'' # str_of_nat k)) = str_of_nat k" for acc x k
    by (induction x arbitrary: acc) (auto simp: split_go_free)
  ultimately show ?thesis by (simp add: py_split_def)
qed

text \<open>C33: \<^verbatim>\<open>add_suffix\<close> renames apart: it appends the number of the stencil to every variable of its body and to nothing else, so the
  bodies of two different stencils of a fused group share no variable.\<close>

theorem add_suffix_apart:
  assumes "\<forall>body \<in> set bl. \<forall>line \<in> set body. \<forall>t \<in> set (py_split_ws line). py_in ''%'' t \<longrightarrow> tidy t"
    and "i < length bl" and "j < length bl" and "i \<noteq> j"
  shows "body_vars (add_suffix bl ! i) = (\<lambda>v. v @ ''_'' @ str_of_nat i) ` body_vars (bl ! i) \<and>
    body_vars (add_suffix bl ! i) \<inter> body_vars (add_suffix bl ! j) = {}"
proof -
  have vars: "body_vars (add_suffix bl ! k) = (\<lambda>v. v @ ''_'' @ str_of_nat k) ` body_vars (bl ! k)" if k: "k < length bl" for k
  proof -
    have "add_suffix bl ! k = map (suffix_line k) (bl ! k)" using k by (simp add: add_suffix_def nth_enumerate_eq)
    moreover have "line_vars (suffix_line k line) = (\<lambda>v. v @ ''_'' @ str_of_nat k) ` line_vars line" if "line \<in> set (bl ! k)" for line
      using assms(1) nth_mem[OF k] that by (intro suffix_line_vars) blast
    ultimately show ?thesis by (auto simp: body_vars_def)
  qed
  show ?thesis unfolding vars[OF assms(2)] vars[OF assms(3)] using suffix_inj assms(4) by blast
qed

theorem add_suffix_apart_witness:
  "body_vars (add_suffix [[''%7 = addf %5, %6 : f64''], [''%5 = negf %7 : f64'']] ! 0) \<inter>
   body_vars (add_suffix [[''%7 = addf %5, %6 : f64''], [''%5 = negf %7 : f64'']] ! 1) = {} \<and>
   add_suffix [[''%7 = addf %5, %6 : f64''], [''%5 = negf %7 : f64'']] = [[''%7_0 = addf %5_0, %6_0 : f64''], [''%5_1 = negf %7_1 : f64'']]"
proof -
  let ?bl = "[[''%7 = addf %5, %6 : f64''], [''%5 = negf %7 : f64'']]"
  have "\<forall>body \<in> set ?bl. \<forall>line \<in> set body. \<forall>t \<in> set (py_split_ws line). py_in ''%'' t \<longrightarrow> tidy t"
    "add_suffix ?bl = [[''%7_0 = addf %5_0, %6_0 : f64''], [''%5_1 = negf %7_1 : f64'']]" by code_simp+
  then show ?thesis using add_suffix_apart[of ?bl 0 1] by (metis One_nat_def length_Cons lessI less_numeral_extra(1) list.size(3) zero_less_Suc zero_neq_one)
qed

end
