(* ===== verification/Spec2Isabelle.thy ===== *)
theory Spec2Isabelle
  imports Fuse_Mutator Stencil_Fusion Mlir_Roundtrip Mlir_Text
begin

text \<open>
  \<^bold>\<open>The program.\<close> StencilG compiles stencil programs for GPUs. An MLIR file with \<^verbatim>\<open>stencil.apply\<close> operations is read into a Relay
  function (one operator call per stencil), a search fuses pairs of calls, the calls of the result are put on streams with
  synchronisations between them, and the compiler prints one MLIR kernel per call and a CUDA driver that launches them from one
  host thread per stream; the kernels are compiled, linked, run and timed, and the time steers the search. The code is a fork of
  TVM; what is modelled is the project's own part, under \<^verbatim>\<open>src/tvm-graph/python/tvm/relay/transform/\<close> (below only the file names),
  and the visitors of \<^verbatim>\<open>relay/expr_functor.py\<close> it builds on.

  \<^bold>\<open>Conventions.\<close> Python exceptions are values of \<open>py_error\<close>, a computation that may raise returns \<open>py_error + 'a\<close> (\<open>and_then\<close> is
  sequencing, \<open>res_fold\<close> and \<open>res_map\<close> are loops), one that may also run for ever returns an \<open>option\<close> of it, \<open>None\<close> for divergence
  (\<open>run_then\<close>, \<open>while_option\<close>, \<open>run_while\<close>). Dictionaries are association lists in insertion order. Relay nodes carry their address, so
  that equality of terms is Python's equality of objects; functions that create nodes thread the next free address. The
  depth of Python's recursion is the argument \<open>limit\<close> where a function recurses over data that may be cyclic; the theorems hold for
  every limit, and \<open>RecursionError\<close> is one of the results. Theorems that something returns are stated as such.

  \<^bold>\<open>Theories.\<close>
  \<^item> \<open>Prelude\<close>, \<open>Digraph\<close>, \<open>Py_Strings\<close>, \<open>Py_Regex\<close>: exceptions, dictionaries, loops, graphs, and the Python string and
    regular-expression operations the program uses, with their laws.
  \<^item> \<open>Relay_Expr\<close>, \<open>Relay_Mutator\<close>, \<open>Relay_Subst\<close>, \<open>Samples\<close>: Relay expressions, their types, the visitors and mutators of
    \<^verbatim>\<open>expr_functor.py\<close>, \<^verbatim>\<open>ReplaceParams\<close> and \<^verbatim>\<open>EmitTuple\<close> (\<^verbatim>\<open>dnn_fusion.py\<close>), the meaning of an expression under an interpretation of the
    operators. \<^verbatim>\<open>ReplaceParams\<close> is simultaneous substitution where no replacement contains a replaced node, and raises where the
    replacements lead back to themselves; \<^verbatim>\<open>EmitTuple\<close> projects literal tuples.
  \<^item> \<open>Build_Graph\<close>: the two \<^verbatim>\<open>BuildGraph\<close> classes (\<^verbatim>\<open>utils.py\<close>, \<^verbatim>\<open>mlir.py\<close>), through the locale \<open>arg_dependency\<close>: they return the calls in
    dependency order, or never, and exactly when.
  \<^item> \<open>Dependence\<close>, \<open>Stream_Solve\<close>, \<open>Stream_Sync\<close>, \<open>Launch_Threads\<close>, \<open>Stream_Schedule\<close>: \<^verbatim>\<open>streamSolve.py\<close>, \<^verbatim>\<open>generate_codengen_streamlist\<close>
    of \<^verbatim>\<open>mlir.py\<close>, and the launch threads of the generated driver as an inductive step relation of host threads, barriers and device
    queues. Through the locale \<open>stream_generator\<close>: no kernel starts before its inputs are finished, no deadlock, every run ends, the
    synchronisations left are needed; a write past the driver's array of eight thread handles is reached exactly with more than eight streams (a run is
    not followed beyond it, since C leaves what follows undefined).
  \<^item> \<open>Main_Gen\<close>: \<^verbatim>\<open>maingen.py\<close>, the text of the driver; its launch functions are the threads of \<open>Launch_Threads\<close>.
  \<^item> \<open>Group_Op\<close>, \<open>Fusion_Fragment\<close>, \<open>Flatten\<close>, \<open>Cast_Param\<close>, \<open>Fuse_Sound\<close>: \<^verbatim>\<open>GroupOp\<close> of \<^verbatim>\<open>dnn_fusion.py\<close>; the fused call computes
    the outputs of the group.
  \<^item> \<open>Node_Fusion\<close>, \<open>Fusion_Step\<close>, \<open>Fusion_Search\<close>: \<^verbatim>\<open>node_auto_fusion.py\<close>; the search chooses a best pair, ends after at most thirty
    steps (it may raise) and keeps the meaning of the function (invariant \<open>main_ok\<close>).
  \<^item> \<open>Forward_Graph\<close>, \<open>Dominator_Tree\<close>, \<open>Graph_Partitioner\<close>, \<open>Fuse_Mutator\<close>: \<^verbatim>\<open>custom_fuse_ops.py\<close>; the forward graph lists the nodes in post-order, the
    dominator tree gives the immediate post-dominators, the partitioner's union-find is acyclic and never groups an opaque node, the
    parameters of a group are stable, and the rewriter does not return on calls of functions.
  \<^item> \<open>Dnn_Fusion\<close>, \<open>Stencil_Fusion\<close>: the classes of \<^verbatim>\<open>dnn_fusion.py\<close> of these names; when they return, raise and hang, and that the
    returned function has the value of the original.
  \<^item> \<open>Mlir_Parse\<close>, \<open>Mlir_Fuse\<close>, \<open>Mlir_Print\<close>: \<^verbatim>\<open>MLIRCodeGen\<close> of \<^verbatim>\<open>mlir.py\<close>: the reader, the text of a fused stencil, the printer and
    \<^verbatim>\<open>codegen\<close>. \<open>Mlir_Reader\<close>: what is read is in the fragment of the fusion passes, with positive extents, and can be scheduled.
    \<open>Mlir_Roundtrip\<close>: the reader undoes the printer. \<open>Mlir_Text\<close>: the suffixes of a fused stencil rename apart.
  \<^item> \<open>Evaluate\<close>: \<^verbatim>\<open>run.py\<close> over an explicit file system; the argument lists of the programs it runs, in which order, and that it stops
    at the first failure.
  \<^item> This theory: the properties that span the reader, the fusion search and the scheduler.

  \<^bold>\<open>Parameters.\<close> Code outside the repository is an argument: the external programs (\<open>tool\<close>, \<open>infer\<close>), the run of a generated program
  (\<open>naf_codegen_run\<close>, \<open>measure_run\<close>), floating-point arithmetic (\<open>floats\<close>, \<open>fstr\<close>), operator patterns of the TVM registry, the iteration
  order of sets (\<open>ord\<close>). The operators' meaning is an arbitrary interpretation; their types follow the type relations of \<^verbatim>\<open>stencil.cc\<close>.

  \<^bold>\<open>Simplifications.\<close> \<open>InferType\<close> checks the types of an expression and keeps its nodes, where TVM rebuilds them; \<open>checked_type\<close> is
  \<open>None\<close> for operators other than the stencil operators, whose type relations are outside the repository's own part, and the
  theorems are about typed calls. A projection with a negative index is refused when it is read, where TVM refuses it at its next
  type inference; extents are unbounded integers, without TVM's check of the range of an index. An attribute fetched twice is
  two Python objects (\<open>attribute_is\<close>).

  \<^bold>\<open>Not modelled.\<close> The rest of TVM, which is third-party; printing to the terminal; \<^verbatim>\<open>fuse_op\<close>, which hands a copy of the generator to
  the search (the search takes the runs of that copy as a parameter), and the unused \<^verbatim>\<open>register_code_with_tag\<close>; the main parts of
  \<^verbatim>\<open>run.py\<close> and \<^verbatim>\<open>maingen.py\<close>, which call names that do not exist; the evaluation and figure scripts, which only start processes, edit files
  and plot. The text of a fused stencil (\<open>Mlir_Fuse\<close>) is modelled in full, but its arithmetic meaning is not: MLIR's semantics is
  not part of the repository.
\<close>

section \<open>From the file to the fused function\<close>

text \<open>C1: Reading and fusing: for every file that \<^verbatim>\<open>from_mlir\<close> reads (with at least one \<^verbatim>\<open>stencil.store\<close>), the search
  \<^verbatim>\<open>NodeAutoFusion.fuse\<close> on the function it became does not run for ever: it raises an exception or returns. A function it
  returns was reached in at most thirty steps and has the same parameters and, under every interpretation of the stencils and every
  input, the same value as the function that was read.\<close>

theorem read_program_fuses:
  fixes I :: "'v interp"
  assumes "from_mlir code nm (MLIRCodeGen mesh halo out) = Inr g" and "mg_ret_data g \<noteq> []"
  shows "\<exists>u body r. mg_module g = Some (Function u (mg_args_data g) body None None) \<and>
    naf_fuse limit generator (NodeAutoFusion (Function u (mg_args_data g) body None None) (mg_addr g)) = Some r \<and>
    (\<forall>s. r = Inr s \<longrightarrow> fuse_steps s \<le> 30 \<and>
      (\<exists>v' body'. step_mod s = Function v' (mg_args_data g) body' None None \<and> (\<forall>env. eval I env body' = eval I env body)))"
proof -
  obtain u body where m: "mg_module g = Some (Function u (mg_args_data g) body None None)" "main_ok (mg_args_data g) body (mg_addr g)"
    using from_mlir_module[OF assms(1)] assms(2) module_main_ok by blast
  from naf_fuse_meaning[OF m(2), of limit generator u None None I] m(1) show ?thesis by blast
qed

text \<open>C2: Reading and scheduling: with a recursion limit of at least the number of its calls, the stream solver and the stream
  generator return for every function \<^verbatim>\<open>from_mlir\<close> builds, and in every interleaving of the generated launch threads with the
  device a kernel starts only after the kernels it reads have finished; with at most eight streams every run that cannot go on has
  returned with every kernel finished.\<close>

theorem read_program_schedules:
  assumes "from_mlir code nm (MLIRCodeGen mesh halo out) = Inr g" and "mg_module g = Some f" and "length (stream_call_list f) \<le> limit"
  shows "\<exists>gr sl S. stream_build_graph f = Inr gr \<and> solve limit f = Inr (Some sl) \<and> generate_codengen_streamlist sl gr = Inr S \<and>
    (\<forall>n s s' b a. exec_run (length S) (thread_code S) n s \<and> a \<in> set (node_inputs gr b) \<and>
       exec_step (length S) (thread_code S) s (Begin (Ker b)) s' \<and> b \<in> set (stream_call_list f) \<longrightarrow> Ker a \<in> finished s) \<and>
    (\<forall>n s. length S \<le> 8 \<and> exec_run (length S) (thread_code S) n s \<and> blocked (length S) (thread_code S) s \<longrightarrow>
       final (length S) (thread_code S) s \<and> (\<forall>c \<in> set (stream_call_list f). Ker c \<in> finished s))"
proof -
  obtain u body where f: "f = Function u (mg_args_data g) body None None" "\<forall>v \<in> set (mg_args_data g). input_ok (mg_addr g) v"
    "module_ok (mg_args_data g) body" using from_mlir_module[OF assms(1)] assms(2) by auto
  have ok: "sources_listed (stream_call_list f)" "\<forall>n \<in> set (stream_call_list f). isStencilNode n"
    using module_streams[OF f(3,2)] unfolding f(1) by blast+
  obtain gr sl S where S: "stream_build_graph f = Inr gr" "solve limit f = Inr (Some sl)" "generate_codengen_streamlist sl gr = Inr S"
    and free: "\<forall>n s s' b a. exec_run (length S) (thread_code S) n s \<and> a \<in> set (node_inputs gr b) \<and>
       exec_step (length S) (thread_code S) s (Begin (Ker b)) s' \<and> b \<in> set (stream_call_list f) \<longrightarrow> Ker a \<in> finished s"
    using program_race_free[OF ok assms(3)] by blast
  have "\<forall>n s. length S \<le> 8 \<and> exec_run (length S) (thread_code S) n s \<and> blocked (length S) (thread_code S) s \<longrightarrow>
       final (length S) (thread_code S) s \<and> (\<forall>c \<in> set (stream_call_list f). Ker c \<in> finished s)"
    using program_completes[OF ok assms(3)] S by auto
  with S free show ?thesis by blast
qed

definition ex_read_generator :: naf_generator where
  "ex_read_generator = ex_generator\<lparr>naf_tag2code := [(''%3'', [''stencil.return'']), (''%4'', [''stencil.return''])]\<rparr>"

theorem read_program_fuses_witness:
  "\<exists>g s. from_mlir ex_file ''lap'' (MLIRCodeGen 64 8 False) = Inr g \<and> mg_ret_data g \<noteq> [] \<and>
     naf_fuse 40 ex_read_generator (NodeAutoFusion (Function 3 [ex_var] ex_second None None) 4) = Some (Inr s) \<and> fuse_steps s = 2 \<and>
     (\<exists>v' body'. step_mod s = Function v' [ex_var] body' None None \<and>
        (\<forall>env. eval (undefined :: nat interp) env body' = eval undefined env ex_second))"
proof -
  obtain g where g: "from_mlir ex_file ''lap'' (MLIRCodeGen 64 8 False) = Inr g" "mg_ret_data g \<noteq> []" "mg_args_data g = [ex_var]"
    "mg_module g = Some (Function 3 [ex_var] ex_second None None)" "mg_addr g = 4" using ex_file_read by blast
  have "case naf_fuse 40 ex_read_generator (NodeAutoFusion (Function 3 [ex_var] ex_second None None) 4) of Some (Inr s) \<Rightarrow> fuse_steps s = 2 | _ \<Rightarrow> False"
    by code_simp
  then obtain s where s: "naf_fuse 40 ex_read_generator (NodeAutoFusion (Function 3 [ex_var] ex_second None None) 4) = Some (Inr s)" "fuse_steps s = 2"
    by (auto split: option.splits sum.splits)
  from read_program_fuses[OF g(1,2), of 40 ex_read_generator "undefined :: nat interp"] g s show ?thesis by auto
qed

theorem read_program_schedules_witness:
  "\<exists>gr sl S. solve 2 (Function 3 [ex_var] ex_second None None) = Inr (Some sl) \<and> generate_codengen_streamlist sl gr = Inr S \<and>
    \<not> (\<exists>n s s'. exec_run (length S) (thread_code S) n s \<and> exec_step (length S) (thread_code S) s (Begin (Ker ex_second)) s' \<and> Ker ex_first \<notin> finished s)"
proof -
  obtain g where g: "from_mlir ex_file ''lap'' (MLIRCodeGen 64 8 False) = Inr g" "mg_module g = Some (Function 3 [ex_var] ex_second None None)"
    using ex_file_read by blast
  have l: "length (stream_call_list (Function 3 [ex_var] ex_second None None)) \<le> 2" "ex_second \<in> set (stream_call_list (Function 3 [ex_var] ex_second None None))"
    by code_simp+
  have "case stream_build_graph (Function 3 [ex_var] ex_second None None) of Inr gr \<Rightarrow> ex_first \<in> set (node_inputs gr ex_second) | Inl _ \<Rightarrow> False"
    by code_simp
  then have r: "ex_first \<in> set (node_inputs gr ex_second)" if "stream_build_graph (Function 3 [ex_var] ex_second None None) = Inr gr" for gr
    using that by simp
  from read_program_schedules[OF g l(1)] r l(2) show ?thesis by blast
qed

end
